(* ===== verification/PG_Base.thy ===== *)
theory PG_Base
  imports Main "HOL-Library.Word"
begin

section \<open>Shared vocabulary of the development\<close>

text \<open>
  The C integer types the modelled code uses, the theorem collections of the
  development, the searching loops several components share (a linear scan, a
  binary search), and the generic lemmas on words and lists the component
  theories rest on. Every C integer that can wrap around is a word of its width;
  array indices and counts, which the code keeps far below the width of an
  \<open>int\<close>, are natural numbers.
\<close>

unbundle bit_operations_syntax

type_synonym uint8 = "8 word"
type_synonym uint16 = "16 word"
type_synonym uint32 = "32 word"
type_synonym uint64 = "64 word"
type_synonym Oid = "32 word"
type_synonym XLogRecPtr = "64 word"
type_synonym CommandId = "32 word"

named_theorems flag_simps \<open>flag tests of an infomask as single bits\<close>
named_theorems xid_defs \<open>definitions of the transaction id macros\<close>

subsection \<open>Words\<close>

lemma unat_less_word32: "unat (x :: 32 word) < 4294967296"
  using unsigned_less [of x, where ?'a = nat] by simp

lemma unat_less_word64: "unat (x :: 64 word) < 18446744073709551616"
  using unsigned_less [of x, where ?'a = nat] by simp

text \<open>The signed reading of a 32-bit difference, when both values are below half the range.\<close>

lemma sint_word32: "sint (w :: 32 word) = (if uint w < 2147483648 then uint w else uint w - 4294967296)"
proof -
  have u: "0 \<le> uint w" "uint w < 4294967296"
    using uint_ge_0 [of w] uint_bounded [of w] by simp_all
  have s: "sint w = signed_take_bit 31 (uint w)"
    by (simp add: sint_uint)
  have "signed_take_bit 31 (uint w) = (if uint w < 2147483648 then uint w else uint w - 4294967296)"
  proof (cases "uint w < 2147483648")
    case True
    have "- (2 ^ 31) \<le> uint w"
      by (rule order_trans [OF _ u(1)]) simp
    moreover have "uint w < 2 ^ 31"
      using True by simp
    ultimately have "signed_take_bit 31 (uint w) = uint w"
      by (rule signed_take_bit_int_eq_self)
    with True show ?thesis by simp
  next
    case False
    have "signed_take_bit 31 (uint w) = signed_take_bit 31 (uint w - 4294967296)"
      by (simp add: signed_take_bit_eq_iff_take_bit_eq take_bit_eq_mod)
    also have "\<dots> = uint w - 4294967296"
      using u False by (intro signed_take_bit_int_eq_self) simp_all
    finally show ?thesis
      using False by simp
  qed
  with s show ?thesis by simp
qed

lemma uint_minus_word32:
  "uint (x - y :: 32 word) = (if uint y \<le> uint x then uint x - uint y else uint x - uint y + 4294967296)"
  by (simp add: uint_sub_if' not_le)

lemma uint_of_unat: "uint (w :: 'a::len word) = int (unat w)"
  by simp

lemma uint_less_unat: "uint (x :: 'a::len word) < uint y \<longleftrightarrow> unat x < unat y"
  by (simp only: uint_of_unat of_nat_less_iff)

lemma uint_le_unat: "uint (x :: 'a::len word) \<le> uint y \<longleftrightarrow> unat x \<le> unat y"
  by (simp only: uint_of_unat of_nat_le_iff)

lemma sint_diff_word32:
  assumes "unat u < 2147483648" and "unat v < 2147483648"
  shows "sint (u - v :: 32 word) = int (unat u) - int (unat v)"
proof -
  from assms have "uint u < 2147483648" "uint v < 2147483648"
    unfolding uint_of_unat by linarith+
  then have "sint (u - v) = uint u - uint v"
    using uint_ge_0 [of u] uint_ge_0 [of v]
    by (simp only: sint_word32 uint_minus_word32 split: if_split) linarith
  then show ?thesis by simp
qed

subsection \<open>The linear scan\<close>

text \<open>
  The element loop of \<open>pg_lfind32\<close>: it answers whether a key occurs in the first
  \<open>nelem\<close> entries of an array, here the list of these entries.
\<close>

fun pg_lfind32 :: "uint32 \<Rightarrow> uint32 list \<Rightarrow> bool" where
  "pg_lfind32 key [] = False"
| "pg_lfind32 key (b # base) = (if key = b then True else pg_lfind32 key base)"

lemma pg_lfind32_iff [simp]: "pg_lfind32 key base \<longleftrightarrow> key \<in> set base"
  by (induction base) auto

subsection \<open>The binary search\<close>

text \<open>
  The search loop \<open>TransactionIdIsCurrentTransactionId\<close> runs over its sorted arrays of
  transaction ids, on the index variables \<open>low\<close> and \<open>high\<close>; the order \<open>prec\<close> is the one
  the array is sorted by. The library function \<open>bsearch\<close> is used with the same loop.
\<close>

function bsearch_loop :: "('a \<Rightarrow> 'a \<Rightarrow> bool) \<Rightarrow> 'a list \<Rightarrow> 'a \<Rightarrow> int \<Rightarrow> int \<Rightarrow> bool" where
  "bsearch_loop prec xs key low high =
     (if low \<le> high then
        (let middle = low + (high - low) div 2;
             probe = xs ! nat middle
         in if probe = key then True
            else if prec probe key then bsearch_loop prec xs key (middle + 1) high
            else bsearch_loop prec xs key low (middle - 1))
      else False)"
  by pat_completeness auto
termination
  by (relation "measure (\<lambda>(prec, xs, key, low, high). nat (high - low + 1))") auto

declare bsearch_loop.simps [simp del]

definition bsearch_array :: "('a \<Rightarrow> 'a \<Rightarrow> bool) \<Rightarrow> 'a list \<Rightarrow> 'a \<Rightarrow> bool" where
  "bsearch_array prec xs key = bsearch_loop prec xs key 0 (int (length xs) - 1)"

text \<open>What a search needs of the order: a strict linear order on the ids at hand.\<close>

locale search_order =
  fixes prec :: "'a \<Rightarrow> 'a \<Rightarrow> bool"
    and D :: "'a set"
  assumes prec_irrefl: "x \<in> D \<Longrightarrow> \<not> prec x x"
    and prec_trans: "x \<in> D \<Longrightarrow> y \<in> D \<Longrightarrow> z \<in> D \<Longrightarrow> prec x y \<Longrightarrow> prec y z \<Longrightarrow> prec x z"
    and prec_total: "x \<in> D \<Longrightarrow> y \<in> D \<Longrightarrow> x \<noteq> y \<Longrightarrow> prec x y \<or> prec y x"
begin

lemma prec_asym: "x \<in> D \<Longrightarrow> y \<in> D \<Longrightarrow> prec x y \<Longrightarrow> \<not> prec y x"
  using prec_irrefl prec_trans by blast

lemma sorted_nth:
  assumes "sorted_wrt prec xs" and "set xs \<subseteq> D" and "i < length xs" and "j < length xs"
    and "prec (xs ! i) (xs ! j)"
  shows "i < j"
proof (rule ccontr)
  assume "\<not> i < j"
  then consider "i = j" | "j < i" by linarith
  then show False
  proof cases
    case 1
    with assms show False using prec_irrefl nth_mem by blast
  next
    case 2
    with assms have "prec (xs ! j) (xs ! i)"
      by (simp add: sorted_wrt_nth_less)
    with assms show False using prec_asym nth_mem by blast
  qed
qed

lemma bsearch_loop_iff:
  assumes "sorted_wrt prec xs" and "set xs \<subseteq> D" and "key \<in> D"
    and "0 \<le> low" and "high < int (length xs)"
  shows "bsearch_loop prec xs key low high \<longleftrightarrow> (\<exists>i. low \<le> int i \<and> int i \<le> high \<and> xs ! i = key)"
  using assms(4,5)
proof (induction "nat (high - low + 1)" arbitrary: low high rule: less_induct)
  case less
  show ?case
  proof (cases "low \<le> high")
    case False
    then show ?thesis by (subst bsearch_loop.simps) auto
  next
    case True
    define m where "m = low + (high - low) div 2"
    have m: "low \<le> m" "m \<le> high" "0 \<le> m" "nat m < length xs"
      using True less.prems by (auto simp: m_def)
    then have D: "xs ! nat m \<in> D"
      using assms(2) nth_mem by blast
    have unfold: "bsearch_loop prec xs key low high =
        (if xs ! nat m = key then True
         else if prec (xs ! nat m) key then bsearch_loop prec xs key (m + 1) high
         else bsearch_loop prec xs key low (m - 1))"
      using True by (subst bsearch_loop.simps) (simp add: m_def Let_def)
    consider (eq) "xs ! nat m = key" | (lo) "xs ! nat m \<noteq> key" "prec (xs ! nat m) key"
      | (hi) "xs ! nat m \<noteq> key" "\<not> prec (xs ! nat m) key" by blast
    then show ?thesis
    proof cases
      case eq
      with m unfold show ?thesis by (auto intro!: exI [of _ "nat m"])
    next
      case lo
      have "bsearch_loop prec xs key (m + 1) high \<longleftrightarrow> (\<exists>i. m + 1 \<le> int i \<and> int i \<le> high \<and> xs ! i = key)"
        using m less.prems by (intro less.hyps) auto
      moreover have "m + 1 \<le> int i" if "low \<le> int i" "int i \<le> high" "xs ! i = key" for i
        using sorted_nth [OF assms(1,2), of "nat m" i] lo that m less.prems by auto
      moreover have "low \<le> int i" if "m + 1 \<le> int i" for i
        using that m by linarith
      ultimately show ?thesis
        using lo unfold by auto
    next
      case hi
      then have gt: "prec key (xs ! nat m)"
        using prec_total [OF D assms(3)] by blast
      have "bsearch_loop prec xs key low (m - 1) \<longleftrightarrow> (\<exists>i. low \<le> int i \<and> int i \<le> m - 1 \<and> xs ! i = key)"
        using m less.prems by (intro less.hyps) auto
      moreover have "int i \<le> m - 1" if "low \<le> int i" "int i \<le> high" "xs ! i = key" for i
        using sorted_nth [OF assms(1,2), of i "nat m"] gt that m less.prems by auto
      moreover have "int i \<le> high" if "int i \<le> m - 1" for i
        using that m by linarith
      ultimately show ?thesis
        using hi unfold by auto
    qed
  qed
qed

lemma bsearch_array_iff:
  assumes "sorted_wrt prec xs" and "set xs \<subseteq> D" and "key \<in> D"
  shows "bsearch_array prec xs key \<longleftrightarrow> key \<in> set xs"
proof -
  have "bsearch_array prec xs key \<longleftrightarrow> (\<exists>i. 0 \<le> int i \<and> int i \<le> int (length xs) - 1 \<and> xs ! i = key)"
    unfolding bsearch_array_def by (rule bsearch_loop_iff) (use assms in auto)
  also have "\<dots> \<longleftrightarrow> key \<in> set xs"
    by (auto simp: in_set_conv_nth)
  finally show ?thesis .
qed

end

interpretation numeric_order: search_order "(<) :: 'a::linorder \<Rightarrow> 'a \<Rightarrow> bool" UNIV
  by unfold_locales auto

end
