(* ===== verification/TransactionIds.thy ===== *)
theory TransactionIds
  imports PG_Base
begin

section \<open>Transaction ids\<close>

text \<open>
  The transaction id arithmetic of \<open>src/include/access/transam.h\<close> and of the comparison
  routines of \<open>src/backend/access/transam/transam.c\<close>. A 32-bit id lives on a circle: ids 0, 1
  and 2 are special, the others compare modulo \<open>2 ^ 32\<close>. The lemmas show that the comparison
  is the order of the 64-bit ids as long as two ids are less than half the circle apart, and
  that it is a strict linear order on every half circle.
\<close>

type_synonym TransactionId = "32 word"

definition InvalidTransactionId :: TransactionId where
  [xid_defs]: "InvalidTransactionId = 0"

definition BootstrapTransactionId :: TransactionId where
  [xid_defs]: "BootstrapTransactionId = 1"

definition FrozenTransactionId :: TransactionId where
  [xid_defs]: "FrozenTransactionId = 2"

definition FirstNormalTransactionId :: TransactionId where
  [xid_defs]: "FirstNormalTransactionId = 3"

definition MaxTransactionId :: TransactionId where
  [xid_defs]: "MaxTransactionId = 0xFFFFFFFF"

definition TransactionIdIsValid :: "TransactionId \<Rightarrow> bool" where
  [xid_defs]: "TransactionIdIsValid xid \<longleftrightarrow> xid \<noteq> InvalidTransactionId"

lemma invalid_not_valid [simp]: "\<not> TransactionIdIsValid InvalidTransactionId"
  by (simp add: TransactionIdIsValid_def)

definition TransactionIdIsNormal :: "TransactionId \<Rightarrow> bool" where
  [xid_defs]: "TransactionIdIsNormal xid \<longleftrightarrow> xid \<ge> FirstNormalTransactionId"

subsection \<open>64-bit transaction ids\<close>

record FullTransactionId =
  fxid_value :: uint64

definition EpochFromFullTransactionId :: "FullTransactionId \<Rightarrow> uint32" where
  "EpochFromFullTransactionId x = ucast (drop_bit 32 (fxid_value x))"

definition XidFromFullTransactionId :: "FullTransactionId \<Rightarrow> TransactionId" where
  "XidFromFullTransactionId x = ucast (fxid_value x)"

definition FullTransactionIdPrecedes :: "FullTransactionId \<Rightarrow> FullTransactionId \<Rightarrow> bool" where
  "FullTransactionIdPrecedes a b \<longleftrightarrow> fxid_value a < fxid_value b"

definition FullTransactionIdFollowsOrEquals :: "FullTransactionId \<Rightarrow> FullTransactionId \<Rightarrow> bool" where
  "FullTransactionIdFollowsOrEquals a b \<longleftrightarrow> fxid_value a \<ge> fxid_value b"

definition FullTransactionIdEquals :: "FullTransactionId \<Rightarrow> FullTransactionId \<Rightarrow> bool" where
  "FullTransactionIdEquals a b \<longleftrightarrow> fxid_value a = fxid_value b"

definition FullTransactionIdPrecedesOrEquals :: "FullTransactionId \<Rightarrow> FullTransactionId \<Rightarrow> bool" where
  "FullTransactionIdPrecedesOrEquals a b \<longleftrightarrow> fxid_value a \<le> fxid_value b"

definition FullTransactionIdFollows :: "FullTransactionId \<Rightarrow> FullTransactionId \<Rightarrow> bool" where
  "FullTransactionIdFollows a b \<longleftrightarrow> fxid_value a > fxid_value b"

definition U64FromFullTransactionId :: "FullTransactionId \<Rightarrow> uint64" where
  "U64FromFullTransactionId x = fxid_value x"

definition FullTransactionIdFromU64 :: "uint64 \<Rightarrow> FullTransactionId" where
  "FullTransactionIdFromU64 v = \<lparr> fxid_value = v \<rparr>"

definition FullTransactionIdIsValid :: "FullTransactionId \<Rightarrow> bool" where
  "FullTransactionIdIsValid x \<longleftrightarrow> TransactionIdIsValid (XidFromFullTransactionId x)"

definition FullTransactionIdFromEpochAndXid :: "uint32 \<Rightarrow> TransactionId \<Rightarrow> FullTransactionId" where
  "FullTransactionIdFromEpochAndXid epoch xid =
     \<lparr> fxid_value = push_bit 32 (ucast epoch) OR ucast xid \<rparr>"

definition FirstNormalFullTransactionId :: FullTransactionId where
  "FirstNormalFullTransactionId = FullTransactionIdFromEpochAndXid 0 FirstNormalTransactionId"

text \<open>
  The loops of \<open>FullTransactionIdAdvance\<close> and \<open>FullTransactionIdRetreat\<close> step over the ids
  whose low 32 bits are special: at most three steps, since only 0, 1 and 2 are special.
\<close>

fun fxid_skip_up :: "nat \<Rightarrow> uint64 \<Rightarrow> uint64" where
  "fxid_skip_up 0 v = v"
| "fxid_skip_up (Suc n) v =
     (if (ucast v :: TransactionId) < FirstNormalTransactionId then fxid_skip_up n (v + 1) else v)"

fun fxid_skip_down :: "nat \<Rightarrow> uint64 \<Rightarrow> uint64" where
  "fxid_skip_down 0 v = v"
| "fxid_skip_down (Suc n) v =
     (if (ucast v :: TransactionId) < FirstNormalTransactionId then fxid_skip_down n (v - 1) else v)"

definition FullTransactionIdAdvance :: "FullTransactionId \<Rightarrow> FullTransactionId" where
  "FullTransactionIdAdvance dest =
     (let d = \<lparr> fxid_value = fxid_value dest + 1 \<rparr>
      in if FullTransactionIdPrecedes d FirstNormalFullTransactionId then d
         else \<lparr> fxid_value = fxid_skip_up 3 (fxid_value d) \<rparr>)"

definition FullTransactionIdRetreat :: "FullTransactionId \<Rightarrow> FullTransactionId" where
  "FullTransactionIdRetreat dest =
     (let d = \<lparr> fxid_value = fxid_value dest - 1 \<rparr>
      in if FullTransactionIdPrecedes d FirstNormalFullTransactionId then d
         else \<lparr> fxid_value = fxid_skip_down 3 (fxid_value d) \<rparr>)"

subsection \<open>32-bit transaction ids\<close>

definition TransactionIdAdvance :: "TransactionId \<Rightarrow> TransactionId" where
  "TransactionIdAdvance dest =
     (let d = dest + 1 in if d < FirstNormalTransactionId then FirstNormalTransactionId else d)"

text \<open>
  The \<open>do\<close>-\<open>while\<close> loop of \<open>TransactionIdRetreat\<close>, and the \<open>while\<close> loop of
  \<open>TransactionIdRetreatedBy\<close>: they run while the id is special, so at most three times more.
\<close>

fun xid_skip_down :: "nat \<Rightarrow> TransactionId \<Rightarrow> TransactionId" where
  "xid_skip_down 0 xid = xid"
| "xid_skip_down (Suc n) xid =
     (if xid < FirstNormalTransactionId then xid_skip_down n (xid - 1) else xid)"

definition TransactionIdRetreat :: "TransactionId \<Rightarrow> TransactionId" where
  "TransactionIdRetreat dest = xid_skip_down 3 (dest - 1)"

definition TransactionIdRetreatedBy :: "TransactionId \<Rightarrow> uint32 \<Rightarrow> TransactionId" where
  "TransactionIdRetreatedBy xid amount = xid_skip_down 3 (xid - amount)"

definition TransactionIdPrecedes :: "TransactionId \<Rightarrow> TransactionId \<Rightarrow> bool" where
  "TransactionIdPrecedes id1 id2 =
     (if \<not> TransactionIdIsNormal id1 \<or> \<not> TransactionIdIsNormal id2 then id1 < id2
      else sint (id1 - id2) < 0)"

definition TransactionIdPrecedesOrEquals :: "TransactionId \<Rightarrow> TransactionId \<Rightarrow> bool" where
  "TransactionIdPrecedesOrEquals id1 id2 =
     (if \<not> TransactionIdIsNormal id1 \<or> \<not> TransactionIdIsNormal id2 then id1 \<le> id2
      else sint (id1 - id2) \<le> 0)"

definition TransactionIdFollows :: "TransactionId \<Rightarrow> TransactionId \<Rightarrow> bool" where
  "TransactionIdFollows id1 id2 =
     (if \<not> TransactionIdIsNormal id1 \<or> \<not> TransactionIdIsNormal id2 then id1 > id2
      else sint (id1 - id2) > 0)"

definition TransactionIdFollowsOrEquals :: "TransactionId \<Rightarrow> TransactionId \<Rightarrow> bool" where
  "TransactionIdFollowsOrEquals id1 id2 =
     (if \<not> TransactionIdIsNormal id1 \<or> \<not> TransactionIdIsNormal id2 then id1 \<ge> id2
      else sint (id1 - id2) \<ge> 0)"

definition NormalTransactionIdPrecedes :: "TransactionId \<Rightarrow> TransactionId \<Rightarrow> bool" where
  "NormalTransactionIdPrecedes id1 id2 \<longleftrightarrow> sint (id1 - id2) < 0"

definition NormalTransactionIdFollows :: "TransactionId \<Rightarrow> TransactionId \<Rightarrow> bool" where
  "NormalTransactionIdFollows id1 id2 \<longleftrightarrow> sint (id1 - id2) > 0"

definition NormalTransactionIdOlder :: "TransactionId \<Rightarrow> TransactionId \<Rightarrow> TransactionId" where
  "NormalTransactionIdOlder a b = (if NormalTransactionIdPrecedes a b then a else b)"

definition FullTransactionIdNewer :: "FullTransactionId \<Rightarrow> FullTransactionId \<Rightarrow> FullTransactionId" where
  "FullTransactionIdNewer a b =
     (if \<not> FullTransactionIdIsValid a then b
      else if \<not> FullTransactionIdIsValid b then a
      else if FullTransactionIdFollows a b then a else b)"

definition TransactionIdOlder :: "TransactionId \<Rightarrow> TransactionId \<Rightarrow> TransactionId" where
  "TransactionIdOlder a b =
     (if \<not> TransactionIdIsValid a then b
      else if \<not> TransactionIdIsValid b then a
      else if TransactionIdPrecedes a b then a else b)"

text \<open>\<open>TransactionIdLatest\<close> scans the array of child ids from its end.\<close>

definition TransactionIdLatest :: "TransactionId \<Rightarrow> TransactionId list \<Rightarrow> TransactionId" where
  "TransactionIdLatest mainxid xids =
     foldl (\<lambda>result x. if TransactionIdPrecedes result x then x else result) mainxid (rev xids)"

subsection \<open>Half circles\<close>

definition xid_window :: "TransactionId \<Rightarrow> TransactionId set" where
  "xid_window b = {x. TransactionIdIsNormal x \<and> unat (x - b) < 2147483648}"

lemma window_normal: "x \<in> xid_window b \<Longrightarrow> TransactionIdIsNormal x"
  by (simp add: xid_window_def)

lemma sint_window:
  assumes "x \<in> xid_window b" and "y \<in> xid_window b"
  shows "sint (x - y) = int (unat (x - b)) - int (unat (y - b))"
proof -
  have "x - y = (x - b) - (y - b)" by simp
  with assms show ?thesis
    by (simp only: sint_diff_word32 xid_window_def mem_Collect_eq)
qed

lemma precedes_window:
  assumes "x \<in> xid_window b" and "y \<in> xid_window b"
  shows "TransactionIdPrecedes x y \<longleftrightarrow> unat (x - b) < unat (y - b)"
  using assms by (simp add: TransactionIdPrecedes_def sint_window [OF assms] window_normal
      uint_less_unat uint_le_unat)

lemma precedes_or_equals_window:
  assumes "x \<in> xid_window b" and "y \<in> xid_window b"
  shows "TransactionIdPrecedesOrEquals x y \<longleftrightarrow> unat (x - b) \<le> unat (y - b)"
  using assms by (simp add: TransactionIdPrecedesOrEquals_def sint_window [OF assms] window_normal
      uint_less_unat uint_le_unat)

lemma follows_or_equals_window:
  assumes "x \<in> xid_window b" and "y \<in> xid_window b"
  shows "TransactionIdFollowsOrEquals x y \<longleftrightarrow> unat (y - b) \<le> unat (x - b)"
  using assms by (simp add: TransactionIdFollowsOrEquals_def sint_window [OF assms] window_normal
      uint_less_unat uint_le_unat)

text \<open>On a half circle the comparison is a strict linear order, so sorted id arrays can be searched.\<close>

interpretation xid_order: search_order TransactionIdPrecedes "xid_window b" for b
proof unfold_locales
  fix x y assume "x \<in> xid_window b" "y \<in> xid_window b" "x \<noteq> y"
  moreover from this have "unat (x - b) \<noteq> unat (y - b)"
    by (simp flip: word_unat_eq_iff)
  ultimately show "TransactionIdPrecedes x y \<or> TransactionIdPrecedes y x"
    by (auto simp: precedes_window)
qed (auto simp: precedes_window)

lemma precedes_not_follows:
  "TransactionIdFollowsOrEquals x y \<longleftrightarrow> \<not> TransactionIdPrecedes x y"
  by (auto simp: TransactionIdFollowsOrEquals_def TransactionIdPrecedes_def)

lemma precedes_irrefl [simp]: "\<not> TransactionIdPrecedes x x"
  by (simp add: TransactionIdPrecedes_def)

subsection \<open>Agreement with the 64-bit order\<close>

lemma sint_xid_difference:
  assumes "\<bar>uint (fxid_value a) - uint (fxid_value b)\<bar> < 2147483648"
  shows "sint (XidFromFullTransactionId a - XidFromFullTransactionId b)
         = uint (fxid_value a) - uint (fxid_value b)"
proof -
  let ?d = "uint (fxid_value a) - uint (fxid_value b)"
  have "uint (XidFromFullTransactionId a - XidFromFullTransactionId b) = ?d mod 4294967296"
    by (simp add: XidFromFullTransactionId_def uint_word_ariths unsigned_ucast_eq take_bit_eq_mod
        mod_diff_eq)
  moreover have "?d mod 4294967296 = (if 0 \<le> ?d then ?d else ?d + 4294967296)"
  proof (cases "0 \<le> ?d")
    case True
    with assms show ?thesis by (simp add: mod_pos_pos_trivial)
  next
    case False
    have "?d mod 4294967296 = (?d + 4294967296) mod 4294967296" by simp
    also have "\<dots> = ?d + 4294967296"
      using assms False by (intro mod_pos_pos_trivial) linarith+
    finally show ?thesis using False by simp
  qed
  ultimately show ?thesis
    using assms by (auto simp: sint_word32 split: if_splits)
qed

lemma precedes_full:
  assumes "TransactionIdIsNormal (XidFromFullTransactionId a)"
    and "TransactionIdIsNormal (XidFromFullTransactionId b)"
    and "\<bar>uint (fxid_value a) - uint (fxid_value b)\<bar> < 2 ^ 31"
  shows "TransactionIdPrecedes (XidFromFullTransactionId a) (XidFromFullTransactionId b)
         \<longleftrightarrow> FullTransactionIdPrecedes a b"
proof -
  have "sint (XidFromFullTransactionId a - XidFromFullTransactionId b)
        = uint (fxid_value a) - uint (fxid_value b)"
    using assms(3) by (intro sint_xid_difference) simp
  with assms(1,2) show ?thesis
    by (simp add: TransactionIdPrecedes_def FullTransactionIdPrecedes_def word_less_def)
qed

text \<open>
  C38: for two normal 32-bit ids taken from 64-bit ids that are less than \<open>2 ^ 31\<close> apart,
  \<open>TransactionIdPrecedes\<close> on the 32-bit ids is the order of the 64-bit ids: comparing modulo
  \<open>2 ^ 32\<close> loses nothing inside half the id space, across any number of wraparounds.
\<close>

theorem TransactionIdPrecedes_full:
  assumes "TransactionIdIsNormal (XidFromFullTransactionId a)"
    and "TransactionIdIsNormal (XidFromFullTransactionId b)"
    and "\<bar>uint (fxid_value a) - uint (fxid_value b)\<bar> < 2 ^ 31"
  shows "TransactionIdPrecedes (XidFromFullTransactionId a) (XidFromFullTransactionId b)
         \<longleftrightarrow> FullTransactionIdPrecedes a b"
  using assms by (rule precedes_full)

theorem TransactionIdPrecedes_full_witness:
  "TransactionIdPrecedes (XidFromFullTransactionId \<lparr> fxid_value = 0x5FFFFFFFF \<rparr>)
     (XidFromFullTransactionId \<lparr> fxid_value = 0x600000003 \<rparr>)"
  using TransactionIdPrecedes_full
      [of "\<lparr> fxid_value = 0x5FFFFFFFF \<rparr>" "\<lparr> fxid_value = 0x600000003 \<rparr>"]
  by (simp add: XidFromFullTransactionId_def FullTransactionIdPrecedes_def TransactionIdIsNormal_def
      FirstNormalTransactionId_def)

subsection \<open>Advancing and retreating\<close>

lemma special_cases: "x < FirstNormalTransactionId \<longleftrightarrow> x = 0 \<or> x = 1 \<or> x = 2"
proof
  assume "x < FirstNormalTransactionId"
  then have "unat x < 3"
    by (simp add: FirstNormalTransactionId_def word_less_nat_alt)
  then have "unat x = 0 \<or> unat x = 1 \<or> unat x = 2" by linarith
  then show "x = 0 \<or> x = 1 \<or> x = 2"
    by (simp add: word_unat_eq_iff)
qed (auto simp: FirstNormalTransactionId_def)

lemma not_normal_iff: "\<not> TransactionIdIsNormal x \<longleftrightarrow> x = 0 \<or> x = 1 \<or> x = 2"
  by (simp add: TransactionIdIsNormal_def not_le special_cases)

lemma normal_valid: "TransactionIdIsNormal x \<Longrightarrow> TransactionIdIsValid x"
  by (auto simp: xid_defs)

lemma TransactionIdAdvance_normal: "TransactionIdIsNormal (TransactionIdAdvance x)"
  by (auto simp: TransactionIdAdvance_def TransactionIdIsNormal_def Let_def not_less)

text \<open>The three units of fuel of the skipping loops are enough: the result is never special.\<close>

lemma xid_skip_down_normal: "TransactionIdIsNormal (xid_skip_down 3 x)"
proof (cases "x < FirstNormalTransactionId")
  case False
  then show ?thesis by (simp add: numeral_3_eq_3 TransactionIdIsNormal_def)
next
  case True
  then show ?thesis
    unfolding special_cases numeral_3_eq_3
    by (auto simp: TransactionIdIsNormal_def FirstNormalTransactionId_def)
qed

lemma ucast_add_down: "(ucast (v + w) :: 32 word) = ucast (v :: 64 word) + ucast w"
proof -
  have "(uint v + uint w) mod 18446744073709551616 mod 4294967296 = (uint v + uint w) mod 4294967296"
    by (rule mod_mod_cancel) simp
  then show ?thesis
    by (simp add: word_uint_eq_iff uint_word_ariths unsigned_ucast_eq take_bit_eq_mod mod_simps)
qed

lemma fxid_skip_up_normal: "TransactionIdIsNormal (ucast (fxid_skip_up 3 v))"
proof (cases "(ucast v :: TransactionId) < FirstNormalTransactionId")
  case False
  then show ?thesis by (simp add: numeral_3_eq_3 TransactionIdIsNormal_def)
next
  case True
  then show ?thesis
    unfolding special_cases numeral_3_eq_3
    by (auto simp: TransactionIdIsNormal_def FirstNormalTransactionId_def
        ucast_add_down)
qed

lemma fxid_skip_up_value:
  assumes "uint v < 2 ^ 64 - int n"
  shows "uint v \<le> uint (fxid_skip_up n v) \<and> uint (fxid_skip_up n v) \<le> uint v + int n"
  using assms
proof (induction n arbitrary: v)
  case 0
  then show ?case by simp
next
  case (Suc n)
  have "uint (v + 1) = uint v + 1"
    using Suc.prems by (simp add: uint_word_ariths)
  with Suc.IH [of "v + 1"] Suc.prems show ?case by auto
qed

lemma full_advance_moves:
  assumes "uint (fxid_value a) < 2 ^ 64 - 5"
  shows "FullTransactionIdPrecedes a (FullTransactionIdAdvance a)
    \<and> uint (fxid_value (FullTransactionIdAdvance a)) \<le> uint (fxid_value a) + 4
    \<and> (FullTransactionIdFollowsOrEquals (FullTransactionIdAdvance a) FirstNormalFullTransactionId
       \<longrightarrow> TransactionIdIsNormal (XidFromFullTransactionId (FullTransactionIdAdvance a)))"
proof -
  have s: "uint (fxid_value a + 1) = uint (fxid_value a) + 1"
    using assms by (simp add: uint_word_ariths)
  then have "uint (fxid_value a + 1) < 2 ^ 64 - int 3"
    using assms by simp
  from fxid_skip_up_value [OF this] s fxid_skip_up_normal [of "fxid_value a + 1"]
  show ?thesis
    by (auto simp: FullTransactionIdAdvance_def Let_def FullTransactionIdPrecedes_def word_less_def
        FullTransactionIdFollowsOrEquals_def XidFromFullTransactionId_def word_le_def)
qed

text \<open>
  Away from the end of the 64-bit id space, advancing a full transaction id moves it
  forward by at least one and at most four, and past the bootstrap ids the result never has
  a special 32-bit id.
\<close>

theorem FullTransactionIdAdvance_moves:
  assumes "uint (fxid_value a) < 2 ^ 64 - 5"
  shows "FullTransactionIdPrecedes a (FullTransactionIdAdvance a)
    \<and> uint (fxid_value (FullTransactionIdAdvance a)) \<le> uint (fxid_value a) + 4
    \<and> (FullTransactionIdFollowsOrEquals (FullTransactionIdAdvance a) FirstNormalFullTransactionId
       \<longrightarrow> TransactionIdIsNormal (XidFromFullTransactionId (FullTransactionIdAdvance a)))"
  using assms by (rule full_advance_moves)

theorem FullTransactionIdAdvance_moves_witness:
  "FullTransactionIdPrecedes \<lparr> fxid_value = 0x4FFFFFFFF \<rparr>
     (FullTransactionIdAdvance \<lparr> fxid_value = 0x4FFFFFFFF \<rparr>)"
  using FullTransactionIdAdvance_moves [of "\<lparr> fxid_value = 0x4FFFFFFFF \<rparr>"] by simp

subsection \<open>The latest of a set of ids\<close>

lemma foldl_latest:
  fixes xs :: "TransactionId list"
  assumes "set (m # xs) \<subseteq> xid_window b"
  defines "r \<equiv> foldl (\<lambda>result x. if TransactionIdPrecedes result x then x else result) m xs"
  shows "r \<in> set (m # xs) \<and> (\<forall>x \<in> set (m # xs). \<not> TransactionIdPrecedes r x)"
  using assms(1) unfolding r_def
proof (induction xs arbitrary: m)
  case Nil
  then show ?case by simp
next
  case (Cons x xs)
  let ?n = "if TransactionIdPrecedes m x then x else m"
  from Cons.prems have sub: "set (?n # xs) \<subseteq> xid_window b" by auto
  let ?r = "foldl (\<lambda>result x. if TransactionIdPrecedes result x then x else result) ?n xs"
  from Cons.IH [OF sub] have r: "?r \<in> set (?n # xs)" "\<forall>x \<in> set (?n # xs). \<not> TransactionIdPrecedes ?r x"
    by blast+
  then have "?r \<in> xid_window b" using sub by blast
  then have "\<not> TransactionIdPrecedes ?r m" "\<not> TransactionIdPrecedes ?r x"
    using r(2) Cons.prems by (auto simp: precedes_window split: if_splits)
  with r show ?case by (auto split: if_splits)
qed

text \<open>
  When a transaction and its children lie on one half circle, \<open>TransactionIdLatest\<close>
  returns one of them that precedes none of the others.
\<close>

theorem TransactionIdLatest_maximal:
  assumes "set (mainxid # xids) \<subseteq> xid_window b"
  shows "TransactionIdLatest mainxid xids \<in> set (mainxid # xids)
    \<and> (\<forall>x \<in> set (mainxid # xids). TransactionIdFollowsOrEquals (TransactionIdLatest mainxid xids) x)"
  using foldl_latest [of mainxid "rev xids" b] assms
  by (auto simp: TransactionIdLatest_def precedes_not_follows)

theorem TransactionIdLatest_maximal_witness:
  "TransactionIdFollowsOrEquals (TransactionIdLatest 0xFFFFFFF0 [7, 3, 9]) 7"
proof -
  have "set (0xFFFFFFF0 # [7, 3, 9]) \<subseteq> xid_window 0xFFFFFFF0"
    by (simp add: xid_window_def xid_defs)
  from TransactionIdLatest_maximal [OF this] show ?thesis by simp
qed

subsection \<open>Epochs\<close>

lemma epoch_xid_roundtrip:
  "FullTransactionIdFromEpochAndXid (EpochFromFullTransactionId a) (XidFromFullTransactionId a) = a"
proof -
  have "push_bit 32 (ucast (ucast (drop_bit 32 v) :: 32 word)) OR ucast (ucast v :: 32 word) = v" for v :: uint64
    by (rule bit_word_eqI)
      (auto simp: bit_or_iff bit_push_bit_iff bit_ucast_iff bit_drop_bit_eq)
  then show ?thesis
    by (simp add: FullTransactionIdFromEpochAndXid_def EpochFromFullTransactionId_def
        XidFromFullTransactionId_def)
qed

lemma uint_xid: "uint (XidFromFullTransactionId a) = uint (fxid_value a) mod 4294967296"
  by (simp add: XidFromFullTransactionId_def unsigned_ucast_eq take_bit_eq_mod)

lemma uint_epoch: "uint (EpochFromFullTransactionId a) = uint (fxid_value a) div 4294967296"
proof -
  have "uint (fxid_value a) < 18446744073709551616"
    using uint_bounded [of "fxid_value a"] by simp
  then have "uint (fxid_value a) div 4294967296 < 4294967296"
    by (simp add: div_less_iff_less_mult)
  moreover have "0 \<le> uint (fxid_value a) div 4294967296"
    by (simp add: pos_imp_zdiv_nonneg_iff)
  moreover have "uint (drop_bit 32 (fxid_value a)) = uint (fxid_value a) div 4294967296"
    unfolding unsigned_drop_bit_eq using \<open>uint (fxid_value a) < _\<close>
    by (simp add: drop_bit_eq_div take_bit_int_eq_self)
  ultimately show ?thesis
    by (simp add: EpochFromFullTransactionId_def unsigned_ucast_eq take_bit_eq_mod)
qed

text \<open>
  A full transaction id is determined by its epoch and its 32-bit id, and any epoch and id
  make a full id with these parts.
\<close>

theorem FullTransactionId_epoch_xid:
  "FullTransactionIdFromEpochAndXid (EpochFromFullTransactionId a) (XidFromFullTransactionId a) = a
   \<and> EpochFromFullTransactionId (FullTransactionIdFromEpochAndXid e x) = e
   \<and> XidFromFullTransactionId (FullTransactionIdFromEpochAndXid e x) = x"
proof (intro conjI)
  show "EpochFromFullTransactionId (FullTransactionIdFromEpochAndXid e x) = e"
    unfolding FullTransactionIdFromEpochAndXid_def EpochFromFullTransactionId_def
    by (rule bit_word_eqI) (auto simp: bit_simps dest: bit_imp_le_length)
  show "XidFromFullTransactionId (FullTransactionIdFromEpochAndXid e x) = x"
    unfolding FullTransactionIdFromEpochAndXid_def XidFromFullTransactionId_def
    by (rule bit_word_eqI) (auto simp: bit_simps)
qed (rule epoch_xid_roundtrip)

text \<open>On normal ids the 64-bit and the 32-bit advance agree.\<close>

lemma xid_advance:
  assumes "TransactionIdIsNormal (XidFromFullTransactionId a)" and "uint (fxid_value a) < 2 ^ 64 - 5"
  shows "XidFromFullTransactionId (FullTransactionIdAdvance a) = TransactionIdAdvance (XidFromFullTransactionId a)"
proof -
  let ?x = "XidFromFullTransactionId a"
  have x: "(ucast (fxid_value a + 1) :: TransactionId) = ?x + 1"
    by (simp add: ucast_add_down XidFromFullTransactionId_def)
  have "3 \<le> uint ?x"
    using assms(1) by (simp add: TransactionIdIsNormal_def FirstNormalTransactionId_def word_le_def)
  moreover have "uint ?x \<le> uint (fxid_value a)"
    unfolding uint_xid by (rule zmod_le_nonneg_dividend) simp
  moreover have "uint (fxid_value a + 1) = uint (fxid_value a) + 1"
    using assms(2) by (simp add: uint_word_ariths)
  ultimately have big: "\<not> FullTransactionIdPrecedes \<lparr>fxid_value = fxid_value a + 1\<rparr> FirstNormalFullTransactionId"
    by (simp add: FullTransactionIdPrecedes_def FirstNormalFullTransactionId_def word_less_def
        FullTransactionIdFromEpochAndXid_def FirstNormalTransactionId_def)
  have "?x \<noteq> 0" "?x \<noteq> 1"
    using assms(1) not_normal_iff by blast+
  then have "?x + 1 \<noteq> 1" "?x + 1 \<noteq> 2"
    by (auto simp: eq_diff_eq [symmetric])
  then have sp: "?x + 1 < FirstNormalTransactionId \<longleftrightarrow> ?x + 1 = 0"
    by (auto simp: special_cases)
  show ?thesis
  proof (cases "?x + 1 = 0")
    case True
    then have "?x = - 1" by (simp add: eq_neg_iff_add_eq_0)
    then have "(ucast (fxid_value a) :: TransactionId) = - 1"
      by (simp add: XidFromFullTransactionId_def)
    with big show ?thesis
      unfolding FullTransactionIdAdvance_def Let_def numeral_3_eq_3
      by (simp add: XidFromFullTransactionId_def TransactionIdAdvance_def Let_def ucast_add_down
          FirstNormalTransactionId_def)
  next
    case False
    with x big sp show ?thesis
      unfolding FullTransactionIdAdvance_def Let_def numeral_3_eq_3
      by (simp add: TransactionIdAdvance_def Let_def XidFromFullTransactionId_def)
  qed
qed

end
