(* ===== verification/CommitLog.thy ===== *)
theory CommitLog
  imports TransactionIds
begin

section \<open>The commit log\<close>

text \<open>
  The commit log of \<open>src/backend/access/transam/clog.c\<close>: two status bits per transaction id,
  packed four to a byte on pages of \<open>BLCKSZ\<close> bytes, and the routines that set the status of a
  transaction tree page by page. A page is found by its number: the slot
  \<open>SimpleLruReadPage\<close> returns for a page is identified with the page, and the reading and
  writing of pages by \<open>slru.c\<close> is not modelled. Each page update runs under the exclusive
  \<open>XactSLRULock\<close>, so an onlooker sees the states between page updates and no others.
\<close>

subsection \<open>Layout\<close>

definition BLCKSZ :: nat where
  "BLCKSZ = 8192"

definition CLOG_BITS_PER_XACT :: nat where
  "CLOG_BITS_PER_XACT = 2"

definition CLOG_XACTS_PER_BYTE :: nat where
  "CLOG_XACTS_PER_BYTE = 4"

definition CLOG_XACTS_PER_PAGE :: nat where
  "CLOG_XACTS_PER_PAGE = BLCKSZ * CLOG_XACTS_PER_BYTE"

definition CLOG_XACT_BITMASK :: uint8 where
  "CLOG_XACT_BITMASK = push_bit CLOG_BITS_PER_XACT 1 - 1"

definition CLOG_XACTS_PER_LSN_GROUP :: nat where
  "CLOG_XACTS_PER_LSN_GROUP = 32"

definition TransactionIdToPage :: "TransactionId \<Rightarrow> nat" where
  "TransactionIdToPage xid = unat xid div CLOG_XACTS_PER_PAGE"

definition TransactionIdToPgIndex :: "TransactionId \<Rightarrow> nat" where
  "TransactionIdToPgIndex xid = unat xid mod CLOG_XACTS_PER_PAGE"

definition TransactionIdToByte :: "TransactionId \<Rightarrow> nat" where
  "TransactionIdToByte xid = TransactionIdToPgIndex xid div CLOG_XACTS_PER_BYTE"

definition TransactionIdToBIndex :: "TransactionId \<Rightarrow> nat" where
  "TransactionIdToBIndex xid = unat xid mod CLOG_XACTS_PER_BYTE"

definition GetLSNIndex :: "TransactionId \<Rightarrow> nat" where
  "GetLSNIndex xid = (unat xid mod CLOG_XACTS_PER_PAGE) div CLOG_XACTS_PER_LSN_GROUP"

lemmas clog_layout = BLCKSZ_def CLOG_BITS_PER_XACT_def CLOG_XACTS_PER_BYTE_def
  CLOG_XACTS_PER_PAGE_def CLOG_XACTS_PER_LSN_GROUP_def

type_synonym XidStatus = uint8

definition TRANSACTION_STATUS_IN_PROGRESS :: XidStatus where
  "TRANSACTION_STATUS_IN_PROGRESS = 0"

definition TRANSACTION_STATUS_COMMITTED :: XidStatus where
  "TRANSACTION_STATUS_COMMITTED = 1"

definition TRANSACTION_STATUS_ABORTED :: XidStatus where
  "TRANSACTION_STATUS_ABORTED = 2"

definition TRANSACTION_STATUS_SUB_COMMITTED :: XidStatus where
  "TRANSACTION_STATUS_SUB_COMMITTED = 3"

lemmas status_defs = TRANSACTION_STATUS_IN_PROGRESS_def TRANSACTION_STATUS_COMMITTED_def
  TRANSACTION_STATUS_ABORTED_def TRANSACTION_STATUS_SUB_COMMITTED_def

subsection \<open>State\<close>

record XactSlru =
  page_buffer :: "nat \<Rightarrow> nat \<Rightarrow> uint8"
  group_lsn :: "nat \<Rightarrow> nat \<Rightarrow> XLogRecPtr"
  page_dirty :: "nat \<Rightarrow> bool"
  latest_page_number :: nat

subsection \<open>Reading and writing the status bits of one transaction\<close>

definition TransactionIdSetStatusBit ::
  "bool \<Rightarrow> TransactionId \<Rightarrow> XidStatus \<Rightarrow> XLogRecPtr \<Rightarrow> nat \<Rightarrow> XactSlru \<Rightarrow> XactSlru" where
  "TransactionIdSetStatusBit InRecovery xid status lsn pageno s =
     (let byteno = TransactionIdToByte xid;
          bshift = TransactionIdToBIndex xid * CLOG_BITS_PER_XACT;
          curval = drop_bit bshift (page_buffer s pageno byteno) AND CLOG_XACT_BITMASK
      in if InRecovery \<and> status = TRANSACTION_STATUS_SUB_COMMITTED
            \<and> curval = TRANSACTION_STATUS_COMMITTED
         then s
         else
           (let byteval = page_buffer s pageno byteno;
                byteval = byteval AND NOT (push_bit bshift CLOG_XACT_BITMASK);
                byteval = byteval OR push_bit bshift status;
                s1 = s\<lparr>page_buffer := (page_buffer s)(pageno := (page_buffer s pageno)(byteno := byteval))\<rparr>
            in if lsn \<noteq> 0 \<and> group_lsn s1 pageno (GetLSNIndex xid) < lsn
               then s1\<lparr>group_lsn := (group_lsn s1)(pageno := (group_lsn s1 pageno)(GetLSNIndex xid := lsn))\<rparr>
               else s1))"

definition TransactionIdGetStatus :: "XactSlru \<Rightarrow> TransactionId \<Rightarrow> XidStatus \<times> XLogRecPtr" where
  "TransactionIdGetStatus s xid =
     (let pageno = TransactionIdToPage xid;
          byteno = TransactionIdToByte xid;
          bshift = TransactionIdToBIndex xid * CLOG_BITS_PER_XACT
      in (drop_bit bshift (page_buffer s pageno byteno) AND CLOG_XACT_BITMASK,
          group_lsn s pageno (GetLSNIndex xid)))"

abbreviation clog_status :: "XactSlru \<Rightarrow> TransactionId \<Rightarrow> XidStatus" where
  "clog_status s xid \<equiv> fst (TransactionIdGetStatus s xid)"

lemma CLOG_XACT_BITMASK_mask: "CLOG_XACT_BITMASK = mask 2"
  by (simp add: CLOG_XACT_BITMASK_def CLOG_BITS_PER_XACT_def mask_numeral)

text \<open>Two bits of a byte: writing a pair of bits, reading it or another pair.\<close>

lemma byte_pair_get_set:
  fixes b st :: uint8
  assumes "st AND mask 2 = st" and "k < 4"
  shows "drop_bit (k * 2) (b AND NOT (push_bit (k * 2) (mask 2)) OR push_bit (k * 2) st) AND mask 2 = st"
proof (rule bit_word_eqI)
  fix n assume "n < LENGTH(8)"
  then have n: "n < 8" by simp
  have "bit (st AND mask 2) n = bit st n" by (simp only: assms(1))
  then have st: "bit st n \<Longrightarrow> n < 2" by (simp add: bit_and_iff bit_mask_iff)
  show "bit (drop_bit (k * 2) (b AND NOT (push_bit (k * 2) (mask 2)) OR push_bit (k * 2) st) AND mask 2) n = bit st n"
    using n assms(2) st
    by (auto simp: bit_and_iff bit_or_iff bit_not_iff bit_drop_bit_eq bit_push_bit_iff bit_mask_iff)
qed

lemma byte_pair_get_other:
  fixes b st :: uint8
  assumes "st AND mask 2 = st" and "k < 4" and "j < 4" and "j \<noteq> k"
  shows "drop_bit (j * 2) (b AND NOT (push_bit (k * 2) (mask 2)) OR push_bit (k * 2) st) AND mask 2
         = drop_bit (j * 2) b AND mask 2"
proof (rule bit_word_eqI)
  fix n assume "n < LENGTH(8)"
  then have n: "n < 8" by simp
  have st: "m < 2" if "bit st m" for m
  proof -
    have "bit (st AND mask 2) m = bit st m" by (simp only: assms(1))
    with that show ?thesis by (simp add: bit_and_iff bit_mask_iff)
  qed
  show "bit (drop_bit (j * 2) (b AND NOT (push_bit (k * 2) (mask 2)) OR push_bit (k * 2) st) AND mask 2) n
        = bit (drop_bit (j * 2) b AND mask 2) n"
    using n assms(2-4) st [of "j * 2 + n - k * 2"]
    by (auto simp: bit_and_iff bit_or_iff bit_not_iff bit_drop_bit_eq bit_push_bit_iff bit_mask_iff)
qed

definition valid_status :: "XidStatus \<Rightarrow> bool" where
  "valid_status st \<longleftrightarrow> st \<in> {TRANSACTION_STATUS_IN_PROGRESS, TRANSACTION_STATUS_COMMITTED,
     TRANSACTION_STATUS_ABORTED, TRANSACTION_STATUS_SUB_COMMITTED}"

lemma valid_status_mask: "valid_status st \<Longrightarrow> st AND mask 2 = st"
  by (auto simp: valid_status_def status_defs mask_numeral)

lemma valid_status_simps [simp]:
  "valid_status TRANSACTION_STATUS_IN_PROGRESS" "valid_status TRANSACTION_STATUS_COMMITTED"
  "valid_status TRANSACTION_STATUS_ABORTED" "valid_status TRANSACTION_STATUS_SUB_COMMITTED"
  by (simp_all add: valid_status_def)

lemma status_distinct [simp]:
  "TRANSACTION_STATUS_IN_PROGRESS \<noteq> TRANSACTION_STATUS_COMMITTED"
  "TRANSACTION_STATUS_COMMITTED \<noteq> TRANSACTION_STATUS_IN_PROGRESS"
  "TRANSACTION_STATUS_IN_PROGRESS \<noteq> TRANSACTION_STATUS_ABORTED"
  "TRANSACTION_STATUS_ABORTED \<noteq> TRANSACTION_STATUS_IN_PROGRESS"
  "TRANSACTION_STATUS_IN_PROGRESS \<noteq> TRANSACTION_STATUS_SUB_COMMITTED"
  "TRANSACTION_STATUS_SUB_COMMITTED \<noteq> TRANSACTION_STATUS_IN_PROGRESS"
  "TRANSACTION_STATUS_COMMITTED \<noteq> TRANSACTION_STATUS_ABORTED"
  "TRANSACTION_STATUS_ABORTED \<noteq> TRANSACTION_STATUS_COMMITTED"
  "TRANSACTION_STATUS_COMMITTED \<noteq> TRANSACTION_STATUS_SUB_COMMITTED"
  "TRANSACTION_STATUS_SUB_COMMITTED \<noteq> TRANSACTION_STATUS_COMMITTED"
  "TRANSACTION_STATUS_ABORTED \<noteq> TRANSACTION_STATUS_SUB_COMMITTED"
  "TRANSACTION_STATUS_SUB_COMMITTED \<noteq> TRANSACTION_STATUS_ABORTED"
  by (simp_all add: status_defs)

text \<open>The page, byte and pair of bits of an id determine it.\<close>

lemma clog_position_inj:
  assumes "TransactionIdToPage x = TransactionIdToPage y" and "TransactionIdToByte x = TransactionIdToByte y"
    and "TransactionIdToBIndex x = TransactionIdToBIndex y"
  shows "x = y"
proof -
  have d: "unat z = TransactionIdToPage z * 32768 + TransactionIdToByte z * 4 + TransactionIdToBIndex z" for z
  proof -
    let ?n = "unat z"
    have a: "?n div 32768 * 32768 + ?n mod 32768 = ?n"
      by (rule div_mult_mod_eq)
    have b: "?n mod 32768 div 4 * 4 + ?n mod 32768 mod 4 = ?n mod 32768"
      by (rule div_mult_mod_eq)
    have c: "?n mod 32768 mod 4 = ?n mod 4"
      by (rule mod_mod_cancel) simp
    have "?n = ?n div 32768 * 32768 + ?n mod 32768 div 4 * 4 + ?n mod 4"
      using a b unfolding c by linarith
    then show ?thesis
      unfolding TransactionIdToPage_def TransactionIdToByte_def TransactionIdToBIndex_def
        TransactionIdToPgIndex_def clog_layout by simp
  qed
  have "unat x = unat y"
    using d [of x] d [of y] assms by simp
  then show ?thesis by (simp add: word_unat_eq_iff)
qed

lemma clog_status_set:
  assumes "valid_status st"
  shows "clog_status (TransactionIdSetStatusBit r x st lsn (TransactionIdToPage x) s) y =
    (if y = x then (if r \<and> st = TRANSACTION_STATUS_SUB_COMMITTED \<and> clog_status s x = TRANSACTION_STATUS_COMMITTED
                    then TRANSACTION_STATUS_COMMITTED else st)
     else clog_status s y)"
proof -
  have k: "TransactionIdToBIndex z < 4" for z
    by (simp add: TransactionIdToBIndex_def CLOG_XACTS_PER_BYTE_def)
  note m = valid_status_mask [OF assms]
  show ?thesis
  proof (cases "y = x")
    case True
    then show ?thesis
      by (simp add: TransactionIdSetStatusBit_def TransactionIdGetStatus_def Let_def
          CLOG_XACT_BITMASK_mask CLOG_BITS_PER_XACT_def byte_pair_get_set [OF m k]
          del: drop_bit_and drop_bit_or)
  next
    case False
    then have "TransactionIdToBIndex y \<noteq> TransactionIdToBIndex x"
      if "TransactionIdToPage x = TransactionIdToPage y" "TransactionIdToByte x = TransactionIdToByte y"
      using that clog_position_inj by metis
    with False show ?thesis
      by (auto simp: TransactionIdSetStatusBit_def TransactionIdGetStatus_def Let_def
          CLOG_XACT_BITMASK_mask CLOG_BITS_PER_XACT_def byte_pair_get_other [OF m k k]
          simp del: drop_bit_and drop_bit_or)
  qed
qed

subsection \<open>Updating the entries of one page\<close>

definition TransactionIdSetPageStatusInternal ::
  "bool \<Rightarrow> TransactionId \<Rightarrow> TransactionId list \<Rightarrow> XidStatus \<Rightarrow> XLogRecPtr \<Rightarrow> nat \<Rightarrow> XactSlru \<Rightarrow> XactSlru" where
  "TransactionIdSetPageStatusInternal InRecovery xid subxids status lsn pageno s =
     (let s1 = (if TransactionIdIsValid xid then
                  (let s0 = (if status = TRANSACTION_STATUS_COMMITTED then
                               foldl (\<lambda>s x. TransactionIdSetStatusBit InRecovery x
                                        TRANSACTION_STATUS_SUB_COMMITTED lsn pageno s) s subxids
                             else s)
                   in TransactionIdSetStatusBit InRecovery xid status lsn pageno s0)
                else s);
          s2 = foldl (\<lambda>s x. TransactionIdSetStatusBit InRecovery x status lsn pageno s) s1 subxids
      in s2\<lparr>page_dirty := (page_dirty s2)(pageno := True)\<rparr>)"

text \<open>
  The fields of a backend's \<open>PGPROC\<close> entry the commit log uses, and one entry of the list of
  processes waiting for a group update. \<open>clog_lock\<close> says how the attempt to get
  \<open>XactSLRULock\<close> goes: it is free, or the group update does the work with this backend's entry
  between the entries \<open>before\<close> and \<open>after\<close> of the list the leader walks, or the group refuses.
\<close>

record PGPROC =
  proc_xid :: TransactionId
  proc_subxids :: "TransactionId list"
  proc_suboverflowed :: bool

record clog_group_member =
  clogGroupMemberXid :: TransactionId
  clogGroupMemberSubxids :: "TransactionId list"
  clogGroupMemberXidStatus :: XidStatus
  clogGroupMemberLsn :: XLogRecPtr
  clogGroupMemberPage :: nat

datatype clog_lock = LockFree | GroupWalk "clog_group_member list" "clog_group_member list" | GroupRefused

definition THRESHOLD_SUBTRANS_CLOG_OPT :: nat where
  "THRESHOLD_SUBTRANS_CLOG_OPT = 5"

definition group_member_update :: "bool \<Rightarrow> XactSlru \<Rightarrow> clog_group_member \<Rightarrow> XactSlru" where
  "group_member_update InRecovery s m =
     TransactionIdSetPageStatusInternal InRecovery (clogGroupMemberXid m) (clogGroupMemberSubxids m)
       (clogGroupMemberXidStatus m) (clogGroupMemberLsn m) (clogGroupMemberPage m) s"

definition TransactionGroupUpdateXidStatus ::
  "bool \<Rightarrow> PGPROC \<Rightarrow> clog_group_member list \<Rightarrow> clog_group_member list \<Rightarrow>
   TransactionId \<Rightarrow> XidStatus \<Rightarrow> XLogRecPtr \<Rightarrow> nat \<Rightarrow> XactSlru \<Rightarrow> XactSlru" where
  "TransactionGroupUpdateXidStatus InRecovery proc before after xid status lsn pageno s =
     foldl (group_member_update InRecovery) s
       (before @ \<lparr> clogGroupMemberXid = xid, clogGroupMemberSubxids = proc_subxids proc,
                   clogGroupMemberXidStatus = status, clogGroupMemberLsn = lsn,
                   clogGroupMemberPage = pageno \<rparr> # after)"

definition TransactionIdSetPageStatus ::
  "bool \<Rightarrow> PGPROC \<Rightarrow> clog_lock \<Rightarrow> TransactionId \<Rightarrow> TransactionId list \<Rightarrow> XidStatus \<Rightarrow> XLogRecPtr \<Rightarrow>
   nat \<Rightarrow> bool \<Rightarrow> XactSlru \<Rightarrow> XactSlru" where
  "TransactionIdSetPageStatus InRecovery proc lk xid subxids status lsn pageno all_xact_same_page s =
     (if all_xact_same_page \<and> xid = proc_xid proc
         \<and> length subxids \<le> THRESHOLD_SUBTRANS_CLOG_OPT
         \<and> length subxids = length (proc_subxids proc)
         \<and> (length subxids = 0 \<or> subxids = take (length subxids) (proc_subxids proc))
      then (case lk of
              LockFree \<Rightarrow> TransactionIdSetPageStatusInternal InRecovery xid subxids status lsn pageno s
            | GroupWalk before after \<Rightarrow>
                TransactionGroupUpdateXidStatus InRecovery proc before after xid status lsn pageno s
            | GroupRefused \<Rightarrow>
                TransactionIdSetPageStatusInternal InRecovery xid subxids status lsn pageno s)
      else TransactionIdSetPageStatusInternal InRecovery xid subxids status lsn pageno s)"

subsection \<open>Updating a transaction tree\<close>

text \<open>
  A tree is updated page by page: the lock is taken and released for each page, so that others may read the
  log between two updates. The code that walks over the tree is modelled by the list of its calls of
  \<open>TransactionIdSetPageStatus\<close>, in order, and the update of the tree runs them one after the other.
\<close>

record page_update =
  pu_xid :: TransactionId
  pu_subxids :: "TransactionId list"
  pu_status :: XidStatus
  pu_pageno :: nat
  pu_all_xact_same_page :: bool

function set_status_by_pages :: "TransactionId list \<Rightarrow> XidStatus \<Rightarrow> page_update list" where
  "set_status_by_pages [] status = []"
| "set_status_by_pages (x # xs) status =
     (let pageno = TransactionIdToPage x;
          on_page = takeWhile (\<lambda>t. TransactionIdToPage t = pageno) (x # xs);
          rest = dropWhile (\<lambda>t. TransactionIdToPage t = pageno) (x # xs)
      in \<lparr>pu_xid = InvalidTransactionId, pu_subxids = on_page, pu_status = status, pu_pageno = pageno,
           pu_all_xact_same_page = False\<rparr> # set_status_by_pages rest status)"
  by pat_completeness auto
termination
  by (relation "measure (\<lambda>(xs, st). length xs)") (auto simp: le_imp_less_Suc length_dropWhile_le)

definition tree_page_updates :: "TransactionId \<Rightarrow> TransactionId list \<Rightarrow> XidStatus \<Rightarrow> page_update list" where
  "tree_page_updates xid subxids status =
     (let pageno = TransactionIdToPage xid;
          i = length (takeWhile (\<lambda>t. TransactionIdToPage t = pageno) subxids)
      in if i = length subxids then
           [\<lparr>pu_xid = xid, pu_subxids = subxids, pu_status = status, pu_pageno = pageno, pu_all_xact_same_page = True\<rparr>]
         else
           (if status = TRANSACTION_STATUS_COMMITTED
            then set_status_by_pages (drop i subxids) TRANSACTION_STATUS_SUB_COMMITTED else [])
           @ [\<lparr>pu_xid = xid, pu_subxids = take i subxids, pu_status = status, pu_pageno = pageno,
               pu_all_xact_same_page = False\<rparr>]
           @ set_status_by_pages (drop i subxids) status)"

definition run_page_update :: "bool \<Rightarrow> PGPROC \<Rightarrow> clog_lock \<Rightarrow> XLogRecPtr \<Rightarrow> page_update \<Rightarrow> XactSlru \<Rightarrow> XactSlru" where
  "run_page_update InRecovery proc lk lsn u s =
     TransactionIdSetPageStatus InRecovery proc lk (pu_xid u) (pu_subxids u) (pu_status u) lsn (pu_pageno u)
       (pu_all_xact_same_page u) s"

definition TransactionIdSetTreeStatus ::
  "bool \<Rightarrow> PGPROC \<Rightarrow> clog_lock \<Rightarrow> TransactionId \<Rightarrow> TransactionId list \<Rightarrow> XidStatus \<Rightarrow> XLogRecPtr \<Rightarrow>
   XactSlru \<Rightarrow> XactSlru" where
  "TransactionIdSetTreeStatus InRecovery proc lk xid subxids status lsn s =
     fold (run_page_update InRecovery proc lk lsn) (tree_page_updates xid subxids status) s"

subsection \<open>Growing the log\<close>

definition ZeroCLOGPage :: "nat \<Rightarrow> XactSlru \<Rightarrow> XactSlru" where
  "ZeroCLOGPage pageno s =
     s\<lparr>page_buffer := (page_buffer s)(pageno := (\<lambda>_. 0)),
       group_lsn := (group_lsn s)(pageno := (\<lambda>_. 0)),
       page_dirty := (page_dirty s)(pageno := True),
       latest_page_number := pageno\<rparr>"

definition ExtendCLOG :: "TransactionId \<Rightarrow> XactSlru \<Rightarrow> XactSlru" where
  "ExtendCLOG newestXact s =
     (if TransactionIdToPgIndex newestXact \<noteq> 0 \<and> newestXact \<noteq> FirstNormalTransactionId then s
      else ZeroCLOGPage (TransactionIdToPage newestXact) s)"

definition TrimCLOG :: "FullTransactionId \<Rightarrow> XactSlru \<Rightarrow> XactSlru" where
  "TrimCLOG nextXid s =
     (let xid = XidFromFullTransactionId nextXid;
          pageno = TransactionIdToPage xid
      in if TransactionIdToPgIndex xid \<noteq> 0 then
           (let byteno = TransactionIdToByte xid;
                bshift = TransactionIdToBIndex xid * CLOG_BITS_PER_XACT;
                page = page_buffer s pageno;
                page' = (\<lambda>i. if i = byteno then page i AND (push_bit bshift 1 - 1)
                             else if byteno < i \<and> i < BLCKSZ then 0 else page i)
            in s\<lparr>page_buffer := (page_buffer s)(pageno := page'),
                 page_dirty := (page_dirty s)(pageno := True)\<rparr>)
         else s)"

definition CLOGPagePrecedes :: "nat \<Rightarrow> nat \<Rightarrow> bool" where
  "CLOGPagePrecedes page1 page2 =
     (let xid1 = of_nat page1 * of_nat CLOG_XACTS_PER_PAGE + (FirstNormalTransactionId + 1);
          xid2 = of_nat page2 * of_nat CLOG_XACTS_PER_PAGE + (FirstNormalTransactionId + 1)
      in TransactionIdPrecedes xid1 xid2
         \<and> TransactionIdPrecedes xid1 (xid2 + of_nat CLOG_XACTS_PER_PAGE - 1))"

subsection \<open>What the updates do to the status of a transaction\<close>

definition new_status :: "bool \<Rightarrow> XidStatus \<Rightarrow> XidStatus \<Rightarrow> XidStatus" where
  "new_status r st cur =
     (if r \<and> st = TRANSACTION_STATUS_SUB_COMMITTED \<and> cur = TRANSACTION_STATUS_COMMITTED
      then TRANSACTION_STATUS_COMMITTED else st)"

lemma new_status_simps [simp]:
  "new_status r st (new_status r st cur) = new_status r st cur"
  "new_status r TRANSACTION_STATUS_COMMITTED cur = TRANSACTION_STATUS_COMMITTED"
  "new_status r TRANSACTION_STATUS_ABORTED cur = TRANSACTION_STATUS_ABORTED"
  by (auto simp: new_status_def)

lemma clog_status_new:
  "valid_status st \<Longrightarrow> pg = TransactionIdToPage x \<Longrightarrow>
   clog_status (TransactionIdSetStatusBit r x st lsn pg s) y =
   (if y = x then new_status r st (clog_status s x) else clog_status s y)"
  by (simp add: clog_status_set new_status_def)

lemma clog_status_foldl:
  assumes "valid_status st" and "\<forall>x \<in> set xs. TransactionIdToPage x = pg"
  shows "clog_status (foldl (\<lambda>s x. TransactionIdSetStatusBit r x st lsn pg s) s xs) y =
    (if y \<in> set xs then new_status r st (clog_status s y) else clog_status s y)"
  using assms(2)
proof (induction xs arbitrary: s)
  case Nil
  then show ?case by simp
next
  case (Cons x xs)
  then show ?case by (simp add: clog_status_new assms(1))
qed

lemma clog_status_dirty [simp]: "clog_status (s\<lparr>page_dirty := d\<rparr>) y = clog_status s y"
  by (simp add: TransactionIdGetStatus_def Let_def)

lemma clog_status_internal:
  assumes "valid_status st" and "\<forall>x \<in> set xs. TransactionIdToPage x = pg"
    and "TransactionIdIsValid xid \<Longrightarrow> TransactionIdToPage xid = pg \<and> st \<noteq> TRANSACTION_STATUS_SUB_COMMITTED"
  shows "clog_status (TransactionIdSetPageStatusInternal r xid xs st lsn pg s) y =
    (if y \<in> set xs \<or> TransactionIdIsValid xid \<and> y = xid then new_status r st (clog_status s y)
     else clog_status s y)"
  using assms
  by (auto simp: TransactionIdSetPageStatusInternal_def Let_def clog_status_foldl clog_status_new
      new_status_def)

definition member_xids :: "clog_group_member \<Rightarrow> TransactionId set" where
  "member_xids m = insert (clogGroupMemberXid m) (set (clogGroupMemberSubxids m))"

definition member_wf :: "clog_group_member \<Rightarrow> bool" where
  "member_wf m \<longleftrightarrow> TransactionIdIsValid (clogGroupMemberXid m)
     \<and> (\<forall>x \<in> member_xids m. TransactionIdToPage x = clogGroupMemberPage m)
     \<and> clogGroupMemberXidStatus m \<in> {TRANSACTION_STATUS_COMMITTED, TRANSACTION_STATUS_ABORTED}"

lemma clog_status_member:
  assumes "member_wf m"
  shows "clog_status (group_member_update r s m) y =
    (if y \<in> member_xids m then clogGroupMemberXidStatus m else clog_status s y)"
proof -
  have "valid_status (clogGroupMemberXidStatus m)"
    using assms by (auto simp: member_wf_def valid_status_def)
  then show ?thesis
    using assms unfolding group_member_update_def
    by (subst clog_status_internal) (auto simp: member_wf_def member_xids_def)
qed

lemma clog_status_members_other:
  assumes "\<forall>m \<in> set ms. member_wf m \<and> y \<notin> member_xids m"
  shows "clog_status (foldl (group_member_update r) s ms) y = clog_status s y"
  using assms by (induction ms arbitrary: s) (auto simp: clog_status_member)

text \<open>The other entries a group update walks are well formed and share no id with this tree.\<close>

definition lk_members :: "clog_lock \<Rightarrow> clog_group_member list" where
  "lk_members lk = (case lk of GroupWalk before after \<Rightarrow> before @ after | _ \<Rightarrow> [])"

definition group_ok :: "clog_lock \<Rightarrow> TransactionId set \<Rightarrow> bool" where
  "group_ok lk X \<longleftrightarrow> (\<forall>m \<in> set (lk_members lk). member_wf m \<and> member_xids m \<inter> X = {})"

definition own_xids :: "TransactionId \<Rightarrow> TransactionId list \<Rightarrow> TransactionId set" where
  "own_xids xid xs = set xs \<union> {x. TransactionIdIsValid xid \<and> x = xid}"

lemma clog_status_page:
  assumes "valid_status st" and "\<forall>x \<in> set xs. TransactionIdToPage x = pg"
    and "TransactionIdIsValid xid \<Longrightarrow> TransactionIdToPage xid = pg \<and> st \<noteq> TRANSACTION_STATUS_SUB_COMMITTED"
    and "TransactionIdIsValid xid \<or> \<not> same"
    and "group_ok lk (own_xids xid xs)"
    and "y \<in> own_xids xid xs \<or> (\<forall>m \<in> set (lk_members lk). y \<notin> member_xids m)"
  shows "clog_status (TransactionIdSetPageStatus r proc lk xid xs st lsn pg same s) y =
    (if y \<in> own_xids xid xs then new_status r st (clog_status s y) else clog_status s y)"
proof -
  have direct: "clog_status (TransactionIdSetPageStatusInternal r xid xs st lsn pg s) y =
    (if y \<in> own_xids xid xs then new_status r st (clog_status s y) else clog_status s y)" for s
    using assms(1-3) by (subst clog_status_internal) (auto simp: own_xids_def)
  have walk: "clog_status (TransactionGroupUpdateXidStatus r proc before after xid st lsn pg s) y =
    (if y \<in> own_xids xid xs then new_status r st (clog_status s y) else clog_status s y)"
    if lk: "lk = GroupWalk before after" and xs: "xs = proc_subxids proc" for before after
  proof -
    have ms: "\<forall>m \<in> set before. member_wf m \<and> y \<notin> member_xids m" "\<forall>m \<in> set after. member_wf m \<and> y \<notin> member_xids m"
      using assms(5,6) lk by (auto simp: group_ok_def lk_members_def)
    show ?thesis
      using direct [of "foldl (group_member_update r) s before"] xs
      by (simp add: TransactionGroupUpdateXidStatus_def clog_status_members_other [OF ms(2)]
          clog_status_members_other [OF ms(1)] group_member_update_def)
  qed
  show ?thesis
    using direct walk
    by (auto simp: TransactionIdSetPageStatus_def split: clog_lock.splits)
qed

text \<open>A page update by \<open>set_status_by_pages\<close> never goes through the group update.\<close>

lemma clog_status_page_subs:
  assumes "valid_status st" and "\<forall>x \<in> set xs. TransactionIdToPage x = pg"
  shows "clog_status (TransactionIdSetPageStatus r proc lk InvalidTransactionId xs st lsn pg False s) y =
    (if y \<in> set xs then new_status r st (clog_status s y) else clog_status s y)"
  using assms unfolding TransactionIdSetPageStatus_def
  by (simp only: simp_thms if_False, subst clog_status_internal) auto

lemma clog_status_main_page:
  assumes "st \<in> {TRANSACTION_STATUS_COMMITTED, TRANSACTION_STATUS_ABORTED}"
    and "TransactionIdIsValid xid" and "\<forall>x \<in> set xs. TransactionIdToPage x = TransactionIdToPage xid"
  shows "clog_status (TransactionIdSetPageStatus r proc lk xid xs st lsn (TransactionIdToPage xid) False s) y =
    (if y \<in> set (xid # xs) then st else clog_status s y)"
  using assms
  by (auto simp: TransactionIdSetPageStatus_def clog_status_internal)

lemma run_page_update_call: "run_page_update r proc lk lsn \<lparr>pu_xid = x, pu_subxids = xs, pu_status = st, pu_pageno = p,
    pu_all_xact_same_page = same\<rparr> s = TransactionIdSetPageStatus r proc lk x xs st lsn p same s"
  by (simp add: run_page_update_def)

abbreviation run_by_pages ::
  "bool \<Rightarrow> PGPROC \<Rightarrow> clog_lock \<Rightarrow> TransactionId list \<Rightarrow> XidStatus \<Rightarrow> XLogRecPtr \<Rightarrow> XactSlru \<Rightarrow> XactSlru" where
  "run_by_pages r proc lk xs st lsn s \<equiv> fold (run_page_update r proc lk lsn) (set_status_by_pages xs st) s"

lemma clog_status_by_pages:
  assumes "valid_status st"
  shows "clog_status (run_by_pages r proc lk xs st lsn s) y =
    (if y \<in> set xs then new_status r st (clog_status s y) else clog_status s y)"
  using assms
proof (induction xs st arbitrary: s rule: set_status_by_pages.induct)
  case (1 st)
  then show ?case by simp
next
  case (2 x xs st)
  let ?P = "\<lambda>t. TransactionIdToPage t = TransactionIdToPage x"
  have part: "set (x # xs) = set (takeWhile ?P (x # xs)) \<union> set (dropWhile ?P (x # xs))"
    by (metis set_append takeWhile_dropWhile_id)
  have "\<forall>t \<in> set (takeWhile ?P (x # xs)). ?P t"
    by (meson set_takeWhileD)
  from clog_status_page_subs [OF "2.prems" this] show ?case
    using part "2.prems" by (simp add: Let_def run_page_update_call "2.IH" del: takeWhile.simps dropWhile.simps)
qed

lemma length_takeWhile_all: "length (takeWhile P xs) = length xs \<longleftrightarrow> (\<forall>x \<in> set xs. P x)"
  by (induction xs) auto

text \<open>The tree update, as the code splits it: the page of the parent, or more than one page.\<close>

lemma tree_status_single:
  assumes "\<forall>t \<in> set subxids. TransactionIdToPage t = TransactionIdToPage xid"
  shows "TransactionIdSetTreeStatus r proc lk xid subxids st lsn s =
    TransactionIdSetPageStatus r proc lk xid subxids st lsn (TransactionIdToPage xid) True s"
  using assms by (simp add: TransactionIdSetTreeStatus_def tree_page_updates_def run_page_update_call Let_def length_takeWhile_all)

lemma tree_status_multi:
  assumes "\<not> (\<forall>t \<in> set subxids. TransactionIdToPage t = TransactionIdToPage xid)"
  defines "i \<equiv> length (takeWhile (\<lambda>t. TransactionIdToPage t = TransactionIdToPage xid) subxids)"
  shows "TransactionIdSetTreeStatus r proc lk xid subxids st lsn s =
    run_by_pages r proc lk (drop i subxids) st lsn
      (TransactionIdSetPageStatus r proc lk xid (take i subxids) st lsn (TransactionIdToPage xid) False
        (if st = TRANSACTION_STATUS_COMMITTED
         then run_by_pages r proc lk (drop i subxids) TRANSACTION_STATUS_SUB_COMMITTED lsn s
         else s))"
proof -
  have "i \<noteq> length subxids"
    using assms by (simp add: length_takeWhile_all)
  then show ?thesis
    by (simp add: TransactionIdSetTreeStatus_def tree_page_updates_def run_page_update_call Let_def i_def)
qed

lemma first_page_prefix:
  "t \<in> set (take (length (takeWhile P xs)) xs) \<Longrightarrow> P t"
  by (auto simp: takeWhile_eq_take [symmetric] dest: set_takeWhileD)

lemma clog_tree_status:
  fixes InRecovery :: bool and proc :: PGPROC and lsn :: XLogRecPtr and s :: XactSlru
  assumes st: "status \<in> {TRANSACTION_STATUS_COMMITTED, TRANSACTION_STATUS_ABORTED}"
    and v: "TransactionIdIsValid xid" and g: "group_ok lk (set (xid # subxids))"
  defines "s' \<equiv> TransactionIdSetTreeStatus InRecovery proc lk xid subxids status lsn s"
  shows "(\<forall>y \<in> set (xid # subxids). clog_status s' y = status)
    \<and> (\<forall>y. y \<notin> set (xid # subxids) \<longrightarrow> (\<forall>m \<in> set (lk_members lk). y \<notin> member_xids m)
         \<longrightarrow> clog_status s' y = clog_status s y)"
proof -
  have vs: "valid_status status" and ns: "status \<noteq> TRANSACTION_STATUS_SUB_COMMITTED"
    and new: "new_status r status c = status" for r c
    using st by auto
  show ?thesis
  proof (cases "\<forall>t \<in> set subxids. TransactionIdToPage t = TransactionIdToPage xid")
    case True
    have own: "own_xids xid subxids = set (xid # subxids)"
      using v by (auto simp: own_xids_def)
    have eq: "clog_status s' y = (if y \<in> set (xid # subxids) then status else clog_status s y)"
      if "y \<in> set (xid # subxids) \<or> (\<forall>m \<in> set (lk_members lk). y \<notin> member_xids m)" for y
      unfolding s'_def tree_status_single [OF True] own [symmetric] using True vs ns v g new that
      by (subst clog_status_page) (simp_all only: own simp_thms if_True if_False)
    show ?thesis by (simp add: eq del: list.set)
  next
    case False
    define i where "i = length (takeWhile (\<lambda>t. TransactionIdToPage t = TransactionIdToPage xid) subxids)"
    have part: "set subxids = set (take i subxids) \<union> set (drop i subxids)"
      by (metis append_take_drop_id set_append)
    have page: "\<forall>t \<in> set (take i subxids). TransactionIdToPage t = TransactionIdToPage xid"
      unfolding i_def by (auto dest: first_page_prefix)
    define s1 where "s1 = (if status = TRANSACTION_STATUS_COMMITTED
      then run_by_pages InRecovery proc lk (drop i subxids) TRANSACTION_STATUS_SUB_COMMITTED lsn s
      else s)"
    have s1: "clog_status s1 y = clog_status s y" if "y \<notin> set (drop i subxids)" for y
      using that by (simp add: s1_def clog_status_by_pages)
    have s': "s' = run_by_pages InRecovery proc lk (drop i subxids) status lsn
      (TransactionIdSetPageStatus InRecovery proc lk xid (take i subxids) status lsn (TransactionIdToPage xid) False s1)"
      unfolding s'_def s1_def i_def by (rule tree_status_multi [OF False])
    have "clog_status s' y = (if y \<in> set (xid # subxids) then status else clog_status s y)" for y
      unfolding s' clog_status_by_pages [OF vs] clog_status_main_page [OF st v page]
      using part s1 new by simp
    then show ?thesis by simp
  qed
qed

text \<open>A log whose pages are all zeroes, as every page is when it is created.\<close>

definition zero_clog :: XactSlru where
  "zero_clog = \<lparr>page_buffer = \<lambda>_ _. 0, group_lsn = \<lambda>_ _. 0, page_dirty = \<lambda>_. False, latest_page_number = 0\<rparr>"

text \<open>
  C32: whatever the number of commit log pages a transaction tree spreads over, and whether or
  not the group update does the work, setting the status of the tree to committed or aborted
  leaves every id of the tree with that status, and leaves the status of every other id as it
  was, but for the ids of the other backends in the same group update.
\<close>

theorem TransactionIdSetTreeStatus_status:
  assumes "status \<in> {TRANSACTION_STATUS_COMMITTED, TRANSACTION_STATUS_ABORTED}"
    and "TransactionIdIsValid xid" and "group_ok lk (set (xid # subxids))"
  shows "(\<forall>y \<in> set (xid # subxids).
           clog_status (TransactionIdSetTreeStatus InRecovery proc lk xid subxids status lsn s) y = status)
    \<and> (\<forall>y. y \<notin> set (xid # subxids) \<longrightarrow> (\<forall>m \<in> set (lk_members lk). y \<notin> member_xids m)
         \<longrightarrow> clog_status (TransactionIdSetTreeStatus InRecovery proc lk xid subxids status lsn s) y
             = clog_status s y)"
  using assms by (rule clog_tree_status)

theorem TransactionIdSetTreeStatus_status_witness:
  "clog_status (TransactionIdSetTreeStatus False \<lparr>proc_xid = 5, proc_subxids = [], proc_suboverflowed = False\<rparr>
      LockFree 5 [6, 40000] TRANSACTION_STATUS_COMMITTED 0 zero_clog) 40000
   = TRANSACTION_STATUS_COMMITTED"
  using TransactionIdSetTreeStatus_status [of TRANSACTION_STATUS_COMMITTED 5 LockFree "[6, 40000]" False
      "\<lparr>proc_xid = 5, proc_subxids = [], proc_suboverflowed = False\<rparr>" 0 zero_clog]
  by (simp add: xid_defs group_ok_def lk_members_def)

end
