(* ===== verification/SubTrans.thy ===== *)
theory SubTrans
  imports CommitLog
begin

section \<open>The subtransaction log\<close>

text \<open>
  The subtransaction log of \<open>src/backend/access/transam/subtrans.c\<close>: one 32-bit parent id per
  transaction id, \<open>BLCKSZ / 4\<close> entries to a page, and the walk from an id to its topmost
  ancestor. As for the commit log, slots are identified with page numbers. The walk is a loop
  that stops at a missing parent, at an id before \<open>TransactionXmin\<close>, or with an error at an
  entry that does not precede its child; \<open>None\<close> would mean that it does not return.
\<close>

definition SUBTRANS_XACTS_PER_PAGE :: nat where
  "SUBTRANS_XACTS_PER_PAGE = BLCKSZ div 4"

definition subtrans_page :: "TransactionId \<Rightarrow> nat" where
  "subtrans_page xid = unat xid div SUBTRANS_XACTS_PER_PAGE"

definition TransactionIdToEntry :: "TransactionId \<Rightarrow> nat" where
  "TransactionIdToEntry xid = unat xid mod SUBTRANS_XACTS_PER_PAGE"

record SubTransSlru =
  sub_buffer :: "nat \<Rightarrow> nat \<Rightarrow> TransactionId"
  sub_dirty :: "nat \<Rightarrow> bool"
  sub_latest_page :: nat

definition SubTransSetParent :: "TransactionId \<Rightarrow> TransactionId \<Rightarrow> SubTransSlru \<Rightarrow> SubTransSlru" where
  "SubTransSetParent xid parent s =
     (let pageno = subtrans_page xid; entryno = TransactionIdToEntry xid
      in if sub_buffer s pageno entryno \<noteq> parent then
           s\<lparr>sub_buffer := (sub_buffer s)(pageno := (sub_buffer s pageno)(entryno := parent)),
             sub_dirty := (sub_dirty s)(pageno := True)\<rparr>
         else s)"

definition SubTransGetParent :: "SubTransSlru \<Rightarrow> TransactionId \<Rightarrow> TransactionId" where
  "SubTransGetParent s xid =
     (if \<not> TransactionIdIsNormal xid then InvalidTransactionId
      else sub_buffer s (subtrans_page xid) (TransactionIdToEntry xid))"

datatype subtrans_error = InvalidSubtransEntry TransactionId TransactionId

partial_function (option) topmost_loop ::
  "SubTransSlru \<Rightarrow> TransactionId \<Rightarrow> TransactionId \<Rightarrow> TransactionId \<Rightarrow> (subtrans_error + TransactionId) option" where
  "topmost_loop s TransactionXmin parentXid previousXid =
     (if TransactionIdIsValid parentXid then
        (let previousXid = parentXid
         in if TransactionIdPrecedes parentXid TransactionXmin then Some (Inr previousXid)
            else (let parentXid = SubTransGetParent s parentXid
                  in if \<not> TransactionIdPrecedes parentXid previousXid
                     then Some (Inl (InvalidSubtransEntry previousXid parentXid))
                     else topmost_loop s TransactionXmin parentXid previousXid))
      else Some (Inr previousXid))"

definition SubTransGetTopmostTransaction ::
  "SubTransSlru \<Rightarrow> TransactionId \<Rightarrow> TransactionId \<Rightarrow> (subtrans_error + TransactionId) option" where
  "SubTransGetTopmostTransaction s TransactionXmin xid = topmost_loop s TransactionXmin xid xid"

definition ZeroSUBTRANSPage :: "nat \<Rightarrow> SubTransSlru \<Rightarrow> SubTransSlru" where
  "ZeroSUBTRANSPage pageno s =
     s\<lparr>sub_buffer := (sub_buffer s)(pageno := (\<lambda>_. 0)),
       sub_dirty := (sub_dirty s)(pageno := True),
       sub_latest_page := pageno\<rparr>"

definition ExtendSUBTRANS :: "TransactionId \<Rightarrow> SubTransSlru \<Rightarrow> SubTransSlru" where
  "ExtendSUBTRANS newestXact s =
     (if TransactionIdToEntry newestXact \<noteq> 0 \<and> newestXact \<noteq> FirstNormalTransactionId then s
      else ZeroSUBTRANSPage (subtrans_page newestXact) s)"

text \<open>
  \<open>StartupSUBTRANS\<close> zeroes the pages from \<open>startPage\<close> to \<open>endPage\<close>, wrapping around after the
  last page. The fuel is the number of pages, which bounds the steps from any page to any other.
\<close>

definition max_subtrans_page :: nat where
  "max_subtrans_page = subtrans_page MaxTransactionId"

fun zero_subtrans_pages :: "nat \<Rightarrow> nat \<Rightarrow> nat \<Rightarrow> SubTransSlru \<Rightarrow> SubTransSlru option" where
  "zero_subtrans_pages 0 startPage endPage s = None"
| "zero_subtrans_pages (Suc n) startPage endPage s =
     (if startPage \<noteq> endPage then
        (let s = ZeroSUBTRANSPage startPage s;
             startPage = startPage + 1;
             startPage = (if startPage > max_subtrans_page then 0 else startPage)
         in zero_subtrans_pages n startPage endPage s)
      else Some (ZeroSUBTRANSPage startPage s))"

definition StartupSUBTRANS :: "TransactionId \<Rightarrow> FullTransactionId \<Rightarrow> SubTransSlru \<Rightarrow> SubTransSlru option" where
  "StartupSUBTRANS oldestActiveXID nextXid s =
     zero_subtrans_pages (max_subtrans_page + 2) (subtrans_page oldestActiveXID)
       (subtrans_page (XidFromFullTransactionId nextXid)) s"

definition SubTransPagePrecedes :: "nat \<Rightarrow> nat \<Rightarrow> bool" where
  "SubTransPagePrecedes page1 page2 =
     (let xid1 = of_nat page1 * of_nat SUBTRANS_XACTS_PER_PAGE + (FirstNormalTransactionId + 1);
          xid2 = of_nat page2 * of_nat SUBTRANS_XACTS_PER_PAGE + (FirstNormalTransactionId + 1)
      in TransactionIdPrecedes xid1 xid2
         \<and> TransactionIdPrecedes xid1 (xid2 + of_nat SUBTRANS_XACTS_PER_PAGE - 1))"

subsection \<open>Entries\<close>

lemma subtrans_position_inj:
  assumes "subtrans_page x = subtrans_page y" and "TransactionIdToEntry x = TransactionIdToEntry y"
  shows "x = y"
proof -
  have "unat z = subtrans_page z * SUBTRANS_XACTS_PER_PAGE + TransactionIdToEntry z" for z
    unfolding subtrans_page_def TransactionIdToEntry_def by (rule div_mult_mod_eq [symmetric])
  from this [of x] this [of y] have "unat x = unat y"
    unfolding assms by simp
  then show ?thesis by (simp add: word_unat_eq_iff)
qed

lemma parent_set:
  "SubTransGetParent (SubTransSetParent xid parent s) y =
     (if y = xid \<and> TransactionIdIsNormal xid then parent else SubTransGetParent s y)"
  using subtrans_position_inj [of y xid]
  by (auto simp: SubTransGetParent_def SubTransSetParent_def Let_def)

subsection \<open>The walk to the topmost ancestor\<close>

lemma not_precedes_window:
  assumes "TransactionIdIsNormal xmin" and "TransactionIdIsValid p" and "\<not> TransactionIdPrecedes p xmin"
  shows "p \<in> xid_window xmin"
proof -
  have n: "TransactionIdIsNormal p"
  proof (rule ccontr)
    assume np: "\<not> TransactionIdIsNormal p"
    with assms(1) have "p < xmin"
      by (simp add: TransactionIdIsNormal_def not_le order.strict_trans2)
    with np assms(3) show False
      by (simp add: TransactionIdPrecedes_def)
  qed
  with assms have "0 \<le> sint (p - xmin)"
    by (simp add: TransactionIdPrecedes_def)
  then have "uint (p - xmin) < 2147483648"
    using uint_bounded [of "p - xmin"] unfolding sint_word32 by (auto split: if_splits)
  then have "unat (p - xmin) < 2147483648"
    unfolding uint_of_unat by linarith
  with n show ?thesis by (simp add: xid_window_def)
qed

lemma window_self: "TransactionIdIsNormal b \<Longrightarrow> b \<in> xid_window b"
  by (simp add: xid_window_def)

definition parent_link :: "SubTransSlru \<Rightarrow> TransactionId \<Rightarrow> TransactionId \<Rightarrow> bool" where
  "parent_link s x y \<longleftrightarrow> TransactionIdIsValid y \<and> y = SubTransGetParent s x"

text \<open>
  What a walk from \<open>p\<close> may return: an ancestor with no parent or before the horizon, or the
  first entry that does not precede its child.
\<close>

definition topmost_result ::
  "SubTransSlru \<Rightarrow> TransactionId \<Rightarrow> TransactionId \<Rightarrow> (subtrans_error + TransactionId) option \<Rightarrow> bool" where
  "topmost_result s xmin p r \<longleftrightarrow>
     (\<exists>top. r = Some (Inr top) \<and> (parent_link s)\<^sup>*\<^sup>* p top
        \<and> (TransactionIdPrecedes top xmin \<or> \<not> TransactionIdIsValid (SubTransGetParent s top)))
     \<or> (\<exists>c. r = Some (Inl (InvalidSubtransEntry c (SubTransGetParent s c))) \<and> (parent_link s)\<^sup>*\<^sup>* p c
        \<and> \<not> TransactionIdPrecedes (SubTransGetParent s c) c)"

lemma topmost_result_step:
  "parent_link s p p' \<Longrightarrow> topmost_result s xmin p' r \<Longrightarrow> topmost_result s xmin p r"
  unfolding topmost_result_def by (blast intro: converse_rtranclp_into_rtranclp)

lemma topmost_loop_result:
  assumes "TransactionIdIsNormal xmin"
  shows "if TransactionIdIsValid p then topmost_result s xmin p (topmost_loop s xmin p q)
         else topmost_loop s xmin p q = Some (Inr q)"
proof (induction "if p \<in> xid_window xmin then Suc (unat (p - xmin)) else 0" arbitrary: p q rule: less_induct)
  case less
  consider (stop) "\<not> TransactionIdIsValid p" | (old) "TransactionIdIsValid p" "TransactionIdPrecedes p xmin"
    | (bad) "TransactionIdIsValid p" "\<not> TransactionIdPrecedes p xmin"
        "\<not> TransactionIdPrecedes (SubTransGetParent s p) p"
    | (up) "TransactionIdIsValid p" "\<not> TransactionIdPrecedes p xmin"
        "TransactionIdPrecedes (SubTransGetParent s p) p" by blast
  then show ?case
  proof cases
    case stop
    then show ?thesis by (subst topmost_loop.simps) auto
  next
    case old
    then show ?thesis by (subst topmost_loop.simps) (auto simp: topmost_result_def)
  next
    case bad
    then show ?thesis by (subst topmost_loop.simps) (auto simp: topmost_result_def)
  next
    case up
    let ?p' = "SubTransGetParent s p"
    have w: "p \<in> xid_window xmin"
      using assms up by (blast intro: not_precedes_window)
    then have "(if ?p' \<in> xid_window xmin then Suc (unat (?p' - xmin)) else 0)
          < (if p \<in> xid_window xmin then Suc (unat (p - xmin)) else 0)"
      using up(3) by (auto simp: precedes_window [of _ xmin])
    note IH = less.hyps [OF this, of p]
    have eq: "topmost_loop s xmin p q = topmost_loop s xmin ?p' p"
      using up by (subst topmost_loop.simps) (simp add: Let_def)
    show ?thesis
    proof (cases "TransactionIdIsValid ?p'")
      case True
      then have "parent_link s p ?p'" by (simp add: parent_link_def)
      with True IH eq up(1) show ?thesis by (auto intro: topmost_result_step)
    next
      case False
      with IH eq up(1) show ?thesis by (auto simp: topmost_result_def)
    qed
  qed
qed

text \<open>A log with no parent recorded, as after start-up.\<close>

definition zero_subtrans :: SubTransSlru where
  "zero_subtrans = \<lparr>sub_buffer = \<lambda>_ _. 0, sub_dirty = \<lambda>_. False, sub_latest_page = 0\<rparr>"

lemma zero_subtrans_parent [simp]: "SubTransGetParent zero_subtrans x = InvalidTransactionId"
  by (simp add: SubTransGetParent_def zero_subtrans_def InvalidTransactionId_def)

text \<open>
  C33: with a normal \<open>TransactionXmin\<close> the walk of \<open>SubTransGetTopmostTransaction\<close> always
  returns, even on a corrupted log: either an ancestor of the id that has no parent or is older
  than \<open>TransactionXmin\<close>, or the error naming an entry on the way that does not precede its
  child.
\<close>

theorem SubTransGetTopmostTransaction_returns:
  assumes "TransactionIdIsNormal TransactionXmin" and "TransactionIdIsValid xid"
  shows "topmost_result s TransactionXmin xid (SubTransGetTopmostTransaction s TransactionXmin xid)"
  using topmost_loop_result [OF assms(1), of xid s xid] assms(2)
  by (simp add: SubTransGetTopmostTransaction_def)

theorem SubTransGetTopmostTransaction_returns_witness:
  "topmost_result (SubTransSetParent 8 5 zero_subtrans) 4 8
     (SubTransGetTopmostTransaction (SubTransSetParent 8 5 zero_subtrans) 4 8)"
  by (rule SubTransGetTopmostTransaction_returns) (simp_all add: xid_defs)

end
