(* ===== verification/TransactionStatus.thy ===== *)
theory TransactionStatus
  imports SubTrans
begin

section \<open>Transaction status lookups\<close>

text \<open>
  The lookups and tree updates of \<open>src/backend/access/transam/transam.c\<close>: the one-entry
  status cache, \<open>TransactionIdDidCommit\<close> and \<open>TransactionIdDidAbort\<close>, which follow
  sub-committed ids to their parents, and the entry points that commit or abort a tree. The
  result \<open>None\<close> of a lookup would mean that it does not return. The lemmas show that the cache
  is transparent, that lookups return on an uncorrupted subtransaction log, and that the commit
  of a tree spread over several commit log pages is atomic for onlookers.
\<close>

record TransamCache =
  cachedFetchXid :: TransactionId
  cachedFetchXidStatus :: XidStatus
  cachedCommitLSN :: XLogRecPtr

definition TransactionLogFetch ::
  "XactSlru \<Rightarrow> TransactionId \<Rightarrow> TransamCache \<Rightarrow> XidStatus \<times> TransamCache" where
  "TransactionLogFetch s transactionId c =
     (if transactionId = cachedFetchXid c then (cachedFetchXidStatus c, c)
      else if \<not> TransactionIdIsNormal transactionId then
        (if transactionId = BootstrapTransactionId then (TRANSACTION_STATUS_COMMITTED, c)
         else if transactionId = FrozenTransactionId then (TRANSACTION_STATUS_COMMITTED, c)
         else (TRANSACTION_STATUS_ABORTED, c))
      else
        (let (xidstatus, xidlsn) = TransactionIdGetStatus s transactionId
         in if xidstatus \<noteq> TRANSACTION_STATUS_IN_PROGRESS \<and> xidstatus \<noteq> TRANSACTION_STATUS_SUB_COMMITTED
            then (xidstatus, c\<lparr>cachedFetchXid := transactionId, cachedFetchXidStatus := xidstatus,
                               cachedCommitLSN := xidlsn\<rparr>)
            else (xidstatus, c)))"

partial_function (option) TransactionIdDidCommit ::
  "XactSlru \<Rightarrow> SubTransSlru \<Rightarrow> TransactionId \<Rightarrow> TransactionId \<Rightarrow> TransamCache \<Rightarrow> (bool \<times> TransamCache) option" where
  "TransactionIdDidCommit s sub TransactionXmin transactionId c =
     (let xidstatus = fst (TransactionLogFetch s transactionId c);
          c' = snd (TransactionLogFetch s transactionId c)
      in if xidstatus = TRANSACTION_STATUS_COMMITTED then Some (True, c')
         else if xidstatus = TRANSACTION_STATUS_SUB_COMMITTED then
           (if TransactionIdPrecedes transactionId TransactionXmin then Some (False, c')
            else if \<not> TransactionIdIsValid (SubTransGetParent sub transactionId) then Some (False, c')
            else TransactionIdDidCommit s sub TransactionXmin (SubTransGetParent sub transactionId) c')
         else Some (False, c'))"

partial_function (option) TransactionIdDidAbort ::
  "XactSlru \<Rightarrow> SubTransSlru \<Rightarrow> TransactionId \<Rightarrow> TransactionId \<Rightarrow> TransamCache \<Rightarrow> (bool \<times> TransamCache) option" where
  "TransactionIdDidAbort s sub TransactionXmin transactionId c =
     (let xidstatus = fst (TransactionLogFetch s transactionId c);
          c' = snd (TransactionLogFetch s transactionId c)
      in if xidstatus = TRANSACTION_STATUS_ABORTED then Some (True, c')
         else if xidstatus = TRANSACTION_STATUS_SUB_COMMITTED then
           (if TransactionIdPrecedes transactionId TransactionXmin then Some (True, c')
            else if \<not> TransactionIdIsValid (SubTransGetParent sub transactionId) then Some (True, c')
            else TransactionIdDidAbort s sub TransactionXmin (SubTransGetParent sub transactionId) c')
         else Some (False, c'))"

definition TransactionIdCommitTree ::
  "bool \<Rightarrow> PGPROC \<Rightarrow> clog_lock \<Rightarrow> TransactionId \<Rightarrow> TransactionId list \<Rightarrow> XactSlru \<Rightarrow> XactSlru" where
  "TransactionIdCommitTree InRecovery proc lk xid xids s =
     TransactionIdSetTreeStatus InRecovery proc lk xid xids TRANSACTION_STATUS_COMMITTED 0 s"

definition TransactionIdAsyncCommitTree ::
  "bool \<Rightarrow> PGPROC \<Rightarrow> clog_lock \<Rightarrow> TransactionId \<Rightarrow> TransactionId list \<Rightarrow> XLogRecPtr \<Rightarrow> XactSlru \<Rightarrow> XactSlru" where
  "TransactionIdAsyncCommitTree InRecovery proc lk xid xids lsn s =
     TransactionIdSetTreeStatus InRecovery proc lk xid xids TRANSACTION_STATUS_COMMITTED lsn s"

definition TransactionIdAbortTree ::
  "bool \<Rightarrow> PGPROC \<Rightarrow> clog_lock \<Rightarrow> TransactionId \<Rightarrow> TransactionId list \<Rightarrow> XactSlru \<Rightarrow> XactSlru" where
  "TransactionIdAbortTree InRecovery proc lk xid xids s =
     TransactionIdSetTreeStatus InRecovery proc lk xid xids TRANSACTION_STATUS_ABORTED 0 s"

definition TransactionIdGetCommitLSN :: "XactSlru \<Rightarrow> TransactionId \<Rightarrow> TransamCache \<Rightarrow> XLogRecPtr" where
  "TransactionIdGetCommitLSN s xid c =
     (if xid = cachedFetchXid c then cachedCommitLSN c
      else if \<not> TransactionIdIsNormal xid then 0
      else snd (TransactionIdGetStatus s xid))"

subsection \<open>The cache is transparent\<close>

definition final_status :: "XidStatus \<Rightarrow> bool" where
  "final_status st \<longleftrightarrow> st \<in> {TRANSACTION_STATUS_COMMITTED, TRANSACTION_STATUS_ABORTED}"

text \<open>The cache is empty, as at backend start, or holds a final status that agrees with the log.\<close>

definition cache_ok :: "XactSlru \<Rightarrow> TransamCache \<Rightarrow> bool" where
  "cache_ok s c \<longleftrightarrow> (if cachedFetchXid c = InvalidTransactionId
     then cachedFetchXidStatus c = TRANSACTION_STATUS_IN_PROGRESS
     else TransactionIdIsNormal (cachedFetchXid c) \<and> final_status (cachedFetchXidStatus c)
          \<and> clog_status s (cachedFetchXid c) = cachedFetchXidStatus c)"

definition empty_cache :: TransamCache where
  "empty_cache = \<lparr>cachedFetchXid = 0, cachedFetchXidStatus = 0, cachedCommitLSN = 0\<rparr>"

lemma cache_ok_empty: "cache_ok s empty_cache"
  by (simp add: cache_ok_def empty_cache_def xid_defs status_defs)

definition true_status :: "XactSlru \<Rightarrow> TransactionId \<Rightarrow> XidStatus" where
  "true_status s xid =
     (if TransactionIdIsNormal xid then clog_status s xid
      else if xid = BootstrapTransactionId \<or> xid = FrozenTransactionId then TRANSACTION_STATUS_COMMITTED
      else TRANSACTION_STATUS_ABORTED)"

lemma clog_status_range: "valid_status (clog_status s x)"
proof -
  define w where "w = drop_bit (TransactionIdToBIndex x * CLOG_BITS_PER_XACT)
    (page_buffer s (TransactionIdToPage x) (TransactionIdToByte x))"
  have "w AND CLOG_XACT_BITMASK = take_bit 2 w"
    by (simp add: CLOG_XACT_BITMASK_mask take_bit_eq_mask and.commute)
  moreover have "unat (take_bit 2 w) < 4"
    unfolding unsigned_take_bit_eq by (simp add: take_bit_eq_mod)
  ultimately have "unat (clog_status s x) < 4"
    by (simp add: TransactionIdGetStatus_def Let_def w_def)
  then have "unat (clog_status s x) = 0 \<or> unat (clog_status s x) = 1 \<or> unat (clog_status s x) = 2
      \<or> unat (clog_status s x) = 3" by linarith
  then show ?thesis
    by (simp add: valid_status_def status_defs word_unat_eq_iff)
qed

lemma TransactionLogFetch_transparent:
  assumes "cache_ok s c" and "TransactionIdIsValid xid"
  shows "fst (TransactionLogFetch s xid c) = true_status s xid \<and> cache_ok s (snd (TransactionLogFetch s xid c))"
proof (cases "xid = cachedFetchXid c")
  case True
  with assms show ?thesis
    by (simp add: TransactionLogFetch_def true_status_def cache_ok_def TransactionIdIsValid_def)
next
  case miss: False
  show ?thesis
  proof (cases "TransactionIdIsNormal xid")
    case False
    with miss assms(1) show ?thesis
      by (simp add: TransactionLogFetch_def true_status_def)
  next
    case True
    obtain st l where g: "TransactionIdGetStatus s xid = (st, l)" by fastforce
    then have "valid_status st" using clog_status_range [of s xid] by simp
    moreover have "xid \<noteq> InvalidTransactionId" using assms(2) by (simp add: TransactionIdIsValid_def)
    ultimately show ?thesis
      using miss True g assms(1)
      by (auto simp: TransactionLogFetch_def true_status_def cache_ok_def final_status_def
          valid_status_def)
  qed
qed

lemma sub_committed_normal:
  "true_status s xid = TRANSACTION_STATUS_SUB_COMMITTED \<Longrightarrow> TransactionIdIsNormal xid"
  by (auto simp: true_status_def split: if_splits)

subsection \<open>What the lookups answer\<close>

text \<open>
  A transaction counts as committed if the log says so, or if it is sub-committed, not before
  the horizon, and its parent counts as committed.
\<close>

inductive did_commit :: "XactSlru \<Rightarrow> SubTransSlru \<Rightarrow> TransactionId \<Rightarrow> TransactionId \<Rightarrow> bool"
  for s sub xmin where
  marked: "true_status s x = TRANSACTION_STATUS_COMMITTED \<Longrightarrow> did_commit s sub xmin x"
| by_parent: "true_status s x = TRANSACTION_STATUS_SUB_COMMITTED \<Longrightarrow> \<not> TransactionIdPrecedes x xmin \<Longrightarrow>
    TransactionIdIsValid (SubTransGetParent sub x) \<Longrightarrow> did_commit s sub xmin (SubTransGetParent sub x) \<Longrightarrow>
    did_commit s sub xmin x"

inductive_simps did_commit_iff: "did_commit s sub xmin x"

definition subtrans_ok :: "SubTransSlru \<Rightarrow> bool" where
  "subtrans_ok sub \<longleftrightarrow> (\<forall>x. TransactionIdIsNormal x \<longrightarrow> TransactionIdIsValid (SubTransGetParent sub x)
     \<longrightarrow> TransactionIdPrecedes (SubTransGetParent sub x) x)"

lemma TransactionIdDidCommit_spec:
  assumes "TransactionIdIsNormal xmin" and "subtrans_ok sub" and "cache_ok s c" and "TransactionIdIsValid x"
  shows "\<exists>c'. TransactionIdDidCommit s sub xmin x c = Some (did_commit s sub xmin x, c') \<and> cache_ok s c'"
  using assms(3,4)
proof (induction "if x \<in> xid_window xmin then Suc (unat (x - xmin)) else 0" arbitrary: x c rule: less_induct)
  case less
  note f = TransactionLogFetch_transparent [OF less.prems]
  let ?p = "SubTransGetParent sub x"
  show ?case
  proof (cases "true_status s x = TRANSACTION_STATUS_SUB_COMMITTED \<and> \<not> TransactionIdPrecedes x xmin
      \<and> TransactionIdIsValid ?p")
    case False
    then show ?thesis
      using f by (subst TransactionIdDidCommit.simps) (auto simp: Let_def did_commit_iff [of s sub xmin x])
  next
    case True
    have "x \<in> xid_window xmin"
      using assms(1) less.prems(2) True by (blast intro: not_precedes_window)
    moreover have "TransactionIdPrecedes ?p x"
      using assms(2) True sub_committed_normal by (auto simp: subtrans_ok_def)
    ultimately have m: "(if ?p \<in> xid_window xmin then Suc (unat (?p - xmin)) else 0)
        < (if x \<in> xid_window xmin then Suc (unat (x - xmin)) else 0)"
      by (auto simp: precedes_window [of _ xmin])
    have "did_commit s sub xmin x = did_commit s sub xmin ?p"
      using True by (simp add: did_commit_iff [of s sub xmin x])
    moreover have "TransactionIdDidCommit s sub xmin x c
        = TransactionIdDidCommit s sub xmin ?p (snd (TransactionLogFetch s x c))"
      using f True by (subst TransactionIdDidCommit.simps) (simp add: Let_def)
    ultimately show ?thesis
      using less.hyps [OF m conjunct2 [OF f]] True by simp
  qed
qed

text \<open>
  A transaction counts as aborted if the log says so, or if it is sub-committed and either before
  the horizon or without a parent, so that its parent must have gone without committing it, or if
  it is sub-committed and its parent counts as aborted.
\<close>

inductive did_abort :: "XactSlru \<Rightarrow> SubTransSlru \<Rightarrow> TransactionId \<Rightarrow> TransactionId \<Rightarrow> bool"
  for s sub xmin where
  abort_marked: "true_status s x = TRANSACTION_STATUS_ABORTED \<Longrightarrow> did_abort s sub xmin x"
| abort_lost: "true_status s x = TRANSACTION_STATUS_SUB_COMMITTED \<Longrightarrow>
    TransactionIdPrecedes x xmin \<or> \<not> TransactionIdIsValid (SubTransGetParent sub x) \<Longrightarrow> did_abort s sub xmin x"
| abort_by_parent: "true_status s x = TRANSACTION_STATUS_SUB_COMMITTED \<Longrightarrow> \<not> TransactionIdPrecedes x xmin \<Longrightarrow>
    TransactionIdIsValid (SubTransGetParent sub x) \<Longrightarrow> did_abort s sub xmin (SubTransGetParent sub x) \<Longrightarrow>
    did_abort s sub xmin x"

inductive_simps did_abort_iff: "did_abort s sub xmin x"

lemma TransactionIdDidAbort_spec:
  assumes "TransactionIdIsNormal xmin" and "subtrans_ok sub" and "cache_ok s c" and "TransactionIdIsValid x"
  shows "\<exists>c'. TransactionIdDidAbort s sub xmin x c = Some (did_abort s sub xmin x, c') \<and> cache_ok s c'"
  using assms(3,4)
proof (induction "if x \<in> xid_window xmin then Suc (unat (x - xmin)) else 0" arbitrary: x c rule: less_induct)
  case less
  note f = TransactionLogFetch_transparent [OF less.prems]
  let ?p = "SubTransGetParent sub x"
  show ?case
  proof (cases "true_status s x = TRANSACTION_STATUS_SUB_COMMITTED \<and> \<not> TransactionIdPrecedes x xmin
      \<and> TransactionIdIsValid ?p")
    case False
    then show ?thesis
      using f by (subst TransactionIdDidAbort.simps) (auto simp: Let_def did_abort_iff [of s sub xmin x])
  next
    case True
    have "x \<in> xid_window xmin"
      using assms(1) less.prems(2) True by (blast intro: not_precedes_window)
    moreover have "TransactionIdPrecedes ?p x"
      using assms(2) True sub_committed_normal by (auto simp: subtrans_ok_def)
    ultimately have m: "(if ?p \<in> xid_window xmin then Suc (unat (?p - xmin)) else 0)
        < (if x \<in> xid_window xmin then Suc (unat (x - xmin)) else 0)"
      by (auto simp: precedes_window [of _ xmin])
    have "did_abort s sub xmin x = did_abort s sub xmin ?p"
      using True by (simp add: did_abort_iff [of s sub xmin x])
    moreover have "TransactionIdDidAbort s sub xmin x c
        = TransactionIdDidAbort s sub xmin ?p (snd (TransactionLogFetch s x c))"
      using f True by (subst TransactionIdDidAbort.simps) (simp add: Let_def)
    ultimately show ?thesis
      using less.hyps [OF m conjunct2 [OF f]] True by simp
  qed
qed

lemma not_commit_and_abort:
  assumes "did_commit s sub xmin x"
  shows "\<not> did_abort s sub xmin x"
  using assms
proof (induction rule: did_commit.induct)
  case (marked x)
  then show ?case using status_distinct by (simp add: did_abort_iff [of s sub xmin x])
next
  case (by_parent x)
  then show ?case using status_distinct by (simp add: did_abort_iff [of s sub xmin x])
qed

text \<open>
  C24: both lookups return for every valid id, on any commit log and any subtransaction log whose
  entries precede their children, and never answer both that a transaction committed and that it
  aborted. Each may start from a cache of its own, empty or with a final status that agrees with the
  commit log, and leaves such a cache behind.
\<close>

theorem DidCommit_DidAbort_exclusive:
  assumes "TransactionIdIsNormal xmin" and "subtrans_ok sub" and "cache_ok s c" and "cache_ok s d" and "TransactionIdIsValid x"
  shows "\<exists>committed aborted c' d'. TransactionIdDidCommit s sub xmin x c = Some (committed, c')
    \<and> TransactionIdDidAbort s sub xmin x d = Some (aborted, d') \<and> \<not> (committed \<and> aborted)
    \<and> cache_ok s c' \<and> cache_ok s d'"
  using TransactionIdDidCommit_spec [OF assms(1-3,5)] TransactionIdDidAbort_spec [OF assms(1,2,4,5)] not_commit_and_abort
  by blast

theorem DidCommit_DidAbort_exclusive_witness:
  "\<exists>committed aborted c' d'. TransactionIdDidCommit zero_clog zero_subtrans 3 5 empty_cache = Some (committed, c')
    \<and> TransactionIdDidAbort zero_clog zero_subtrans 3 5 empty_cache = Some (aborted, d') \<and> \<not> (committed \<and> aborted)
    \<and> cache_ok zero_clog c' \<and> cache_ok zero_clog d'"
  by (rule DidCommit_DidAbort_exclusive) (simp_all add: cache_ok_empty subtrans_ok_def xid_defs)

subsection \<open>Onlookers during the commit of a tree\<close>

text \<open>
  The states an onlooker can see while a list of page updates runs: before the first update, and after each of them.
\<close>

definition seen_during ::
  "bool \<Rightarrow> PGPROC \<Rightarrow> clog_lock \<Rightarrow> XLogRecPtr \<Rightarrow> page_update list \<Rightarrow> XactSlru \<Rightarrow> XactSlru set" where
  "seen_during InRecovery proc lk lsn us s = {fold (run_page_update InRecovery proc lk lsn) (take k us) s | k. True}"

lemma seen_during_Nil: "seen_during r proc lk lsn [] s = {s}"
  by (simp add: seen_during_def)

lemma seen_during_Cons: "seen_during r proc lk lsn (u # us) s
  = insert s (seen_during r proc lk lsn us (run_page_update r proc lk lsn u s))"
proof -
  have "(\<exists>k. t = fold f (take k (u # us)) s) \<longleftrightarrow> t = s \<or> (\<exists>k. t = fold f (take k us) (f u s))" for t f
  proof
    assume "\<exists>k. t = fold f (take k (u # us)) s"
    then obtain k where "t = fold f (take k (u # us)) s" ..
    then show "t = s \<or> (\<exists>k. t = fold f (take k us) (f u s))" by (cases k) auto
  next
    assume "t = s \<or> (\<exists>k. t = fold f (take k us) (f u s))"
    then show "\<exists>k. t = fold f (take k (u # us)) s"
      by (metis fold_simps(1,2) take0 take_Suc_Cons)
  qed
  then show ?thesis by (auto simp: seen_during_def)
qed

lemma seen_during_append: "seen_during r proc lk lsn (us @ vs) s
  = seen_during r proc lk lsn us s \<union> seen_during r proc lk lsn vs (fold (run_page_update r proc lk lsn) us s)"
proof (induction us arbitrary: s)
  case Nil
  have "s \<in> seen_during r proc lk lsn vs s" unfolding seen_during_def by (intro CollectI exI [of _ 0]) simp
  then show ?case by (auto simp: seen_during_Nil)
qed (simp add: seen_during_Cons)

lemma seen_during_by_pages:
  assumes "valid_status st" and "s' \<in> seen_during r proc lk lsn (set_status_by_pages xs st) s"
  shows "clog_status s' y = clog_status s y \<or> y \<in> set xs \<and> clog_status s' y = new_status r st (clog_status s y)"
  using assms
proof (induction xs st arbitrary: s rule: set_status_by_pages.induct)
  case (1 st)
  then show ?case by (simp add: seen_during_Nil)
next
  case (2 x xs st)
  let ?P = "\<lambda>t. TransactionIdToPage t = TransactionIdToPage x"
  let ?on = "takeWhile ?P (x # xs)" and ?rest = "dropWhile ?P (x # xs)"
  let ?s1 = "TransactionIdSetPageStatus r proc lk InvalidTransactionId ?on st lsn (TransactionIdToPage x) False s"
  have sub: "set ?on \<subseteq> set (x # xs)" "set ?rest \<subseteq> set (x # xs)"
    by (meson set_takeWhileD set_dropWhileD subsetI)+
  have "\<forall>t \<in> set ?on. ?P t" by (meson set_takeWhileD)
  note s1 = clog_status_page_subs [OF "2.prems"(1) this, where r = r and proc = proc and lk = lk and lsn = lsn and s = s]
  from "2.prems"(2) consider "s' = s" | "s' \<in> seen_during r proc lk lsn (set_status_by_pages ?rest st) ?s1"
    unfolding set_status_by_pages.simps(2) Let_def seen_during_Cons run_page_update_call by blast
  then show ?case
  proof cases
    case 2
    from "2.IH" [OF refl refl refl "2.prems"(1) 2] s1 [of y] sub show ?thesis
      by (auto split: if_splits)
  qed simp
qed

text \<open>
  Before the update of the parent's page no id of the tree is marked committed; from then on the
  parent is, and every child is at least sub-committed.
\<close>

definition open_phase :: "TransactionId \<Rightarrow> TransactionId list \<Rightarrow> XactSlru \<Rightarrow> bool" where
  "open_phase xid subxids s \<longleftrightarrow> clog_status s xid = TRANSACTION_STATUS_IN_PROGRESS
     \<and> (\<forall>t \<in> set subxids. clog_status s t \<in> {TRANSACTION_STATUS_IN_PROGRESS, TRANSACTION_STATUS_SUB_COMMITTED})"

definition closed_phase :: "TransactionId \<Rightarrow> TransactionId list \<Rightarrow> XactSlru \<Rightarrow> bool" where
  "closed_phase xid subxids s \<longleftrightarrow> clog_status s xid = TRANSACTION_STATUS_COMMITTED
     \<and> (\<forall>t \<in> set subxids. clog_status s t \<in> {TRANSACTION_STATUS_SUB_COMMITTED, TRANSACTION_STATUS_COMMITTED})"

lemma open_phase_not_committed:
  "open_phase xid subxids s \<Longrightarrow> t \<in> set subxids \<Longrightarrow> clog_status s t \<noteq> TRANSACTION_STATUS_COMMITTED"
  unfolding open_phase_def by (metis insert_iff singletonD status_distinct(1,10))

lemma open_phase_sub:
  assumes "open_phase xid subxids s" and "xid \<notin> set ys" and "set ys \<subseteq> set subxids"
    and "s' \<in> seen_during r proc lk lsn (set_status_by_pages ys TRANSACTION_STATUS_SUB_COMMITTED) s"
  shows "open_phase xid subxids s'"
proof -
  have upd: "clog_status s' y = clog_status s y
      \<or> y \<in> set ys \<and> clog_status s' y = new_status r TRANSACTION_STATUS_SUB_COMMITTED (clog_status s y)" for y
    using seen_during_by_pages [OF _ assms(4), of y] by simp
  have "clog_status s t \<noteq> TRANSACTION_STATUS_COMMITTED" if "t \<in> set subxids" for t
    using open_phase_not_committed [OF assms(1) that] .
  then have "clog_status s' t = clog_status s t \<or> clog_status s' t = TRANSACTION_STATUS_SUB_COMMITTED"
    if "t \<in> set subxids" for t
    using upd [of t] that by (auto simp: new_status_def)
  moreover have "clog_status s' xid = clog_status s xid"
    using upd [of xid] assms(2) by simp
  ultimately show ?thesis
    using assms(1) unfolding open_phase_def by (metis insert_iff)
qed

lemma closed_phase_by_pages:
  assumes "closed_phase xid subxids s"
    and "s' \<in> seen_during r proc lk lsn (set_status_by_pages ys TRANSACTION_STATUS_COMMITTED) s"
  shows "closed_phase xid subxids s'"
proof -
  have "clog_status s' y = clog_status s y \<or> clog_status s' y = TRANSACTION_STATUS_COMMITTED" for y
    using seen_during_by_pages [OF _ assms(2), of y] by auto
  with assms(1) show ?thesis
    unfolding closed_phase_def by (metis insert_iff)
qed

lemma sub_committed_by_pages:
  assumes "t \<in> set ys" and "clog_status s t \<noteq> TRANSACTION_STATUS_COMMITTED"
  shows "clog_status (run_by_pages r proc lk ys TRANSACTION_STATUS_SUB_COMMITTED lsn s) t
         = TRANSACTION_STATUS_SUB_COMMITTED"
  using assms by (simp add: clog_status_by_pages new_status_def)

lemma tree_update_phases:
  assumes op: "open_phase xid subxids s" and v: "TransactionIdIsValid xid" and nin: "xid \<notin> set subxids"
    and g: "group_ok lk (set (xid # subxids))"
    and s': "s' \<in> seen_during r proc lk lsn (tree_page_updates xid subxids TRANSACTION_STATUS_COMMITTED) s"
  shows "open_phase xid subxids s' \<or> closed_phase xid subxids s'"
proof (cases "\<forall>t \<in> set subxids. TransactionIdToPage t = TransactionIdToPage xid")
  case True
  then have "s' = s \<or> s' = TransactionIdSetTreeStatus r proc lk xid subxids TRANSACTION_STATUS_COMMITTED lsn s"
    using s' by (auto simp: tree_page_updates_def Let_def length_takeWhile_all seen_during_Cons seen_during_Nil
        TransactionIdSetTreeStatus_def)
  moreover have "closed_phase xid subxids
      (TransactionIdSetTreeStatus r proc lk xid subxids TRANSACTION_STATUS_COMMITTED lsn s)"
    using clog_tree_status [of TRANSACTION_STATUS_COMMITTED xid lk subxids] v g
    by (simp add: closed_phase_def)
  ultimately show ?thesis using op by blast
next
  case False
  define i where "i = length (takeWhile (\<lambda>t. TransactionIdToPage t = TransactionIdToPage xid) subxids)"
  have i: "i \<noteq> length subxids" using False by (simp add: i_def length_takeWhile_all)
  have part: "set subxids = set (take i subxids) \<union> set (drop i subxids)"
    by (metis append_take_drop_id set_append)
  have page: "\<forall>t \<in> set (take i subxids). TransactionIdToPage t = TransactionIdToPage xid"
    unfolding i_def by (auto dest: first_page_prefix)
  let ?sub = "set_status_by_pages (drop i subxids) TRANSACTION_STATUS_SUB_COMMITTED"
    and ?rest = "set_status_by_pages (drop i subxids) TRANSACTION_STATUS_COMMITTED"
  define s1 where "s1 = run_by_pages r proc lk (drop i subxids) TRANSACTION_STATUS_SUB_COMMITTED lsn s"
  define s2 where "s2 = TransactionIdSetPageStatus r proc lk xid (take i subxids)
    TRANSACTION_STATUS_COMMITTED lsn (TransactionIdToPage xid) False s1"
  have s2: "clog_status s2 y = (if y \<in> set (xid # take i subxids) then TRANSACTION_STATUS_COMMITTED
      else clog_status s1 y)" for y
    unfolding s2_def using clog_status_main_page [OF _ v page] by blast
  have "clog_status s1 t = TRANSACTION_STATUS_SUB_COMMITTED" if "t \<in> set (drop i subxids)" for t
    unfolding s1_def
    by (rule sub_committed_by_pages [OF that open_phase_not_committed [OF op]]) (use that part in simp)
  then have closed: "closed_phase xid subxids s2"
    using part by (auto simp: closed_phase_def s2)
  have "seen_during r proc lk lsn (tree_page_updates xid subxids TRANSACTION_STATUS_COMMITTED) s
      = seen_during r proc lk lsn ?sub s \<union> insert s1 (seen_during r proc lk lsn ?rest s2)"
    using i by (simp add: tree_page_updates_def Let_def i_def [symmetric] seen_during_append seen_during_Cons
        run_page_update_call s2_def s1_def)
  moreover have "s1 \<in> seen_during r proc lk lsn ?sub s"
    unfolding seen_during_def s1_def by (intro CollectI exI [of _ "length ?sub"]) simp
  ultimately consider "s' \<in> seen_during r proc lk lsn ?sub s" | "s' \<in> seen_during r proc lk lsn ?rest s2"
    using s' by blast
  then show ?thesis
  proof cases
    case 1
    have "xid \<notin> set (drop i subxids)" "set (drop i subxids) \<subseteq> set subxids"
      using nin part by auto
    from open_phase_sub [OF op this 1] show ?thesis ..
  next
    case 2
    from closed_phase_by_pages [OF closed 2] show ?thesis ..
  qed
qed

definition tree_ok :: "SubTransSlru \<Rightarrow> TransactionId \<Rightarrow> TransactionId \<Rightarrow> TransactionId \<Rightarrow> TransactionId list \<Rightarrow> bool" where
  "tree_ok sub xmin b xid subxids \<longleftrightarrow> set (xid # subxids) \<subseteq> xid_window b
     \<and> (\<forall>t \<in> set subxids. SubTransGetParent sub t \<in> set (xid # subxids)
          \<and> TransactionIdPrecedes (SubTransGetParent sub t) t \<and> \<not> TransactionIdPrecedes t xmin)"

lemma tree_ok_window: "tree_ok sub xmin b xid subxids \<Longrightarrow> y \<in> set (xid # subxids) \<Longrightarrow> y \<in> xid_window b"
  unfolding tree_ok_def by blast

lemma tree_ok_parent:
  assumes "tree_ok sub xmin b xid subxids" and "t \<in> set subxids"
  shows "SubTransGetParent sub t \<in> set (xid # subxids)" "TransactionIdPrecedes (SubTransGetParent sub t) t"
    "\<not> TransactionIdPrecedes t xmin"
  using assms unfolding tree_ok_def by blast+

lemma true_status_window: "x \<in> xid_window b \<Longrightarrow> true_status s x = clog_status s x"
  by (simp add: true_status_def window_normal)

lemma open_phase_uncommitted:
  assumes "tree_ok sub xmin b xid subxids" and "open_phase xid subxids s"
    and "did_commit s sub xmin y" and "y \<in> set (xid # subxids)"
  shows False
  using assms(3,4)
proof (induction rule: did_commit.induct)
  case (marked x)
  with assms(1,2) show ?case
    by (fastforce simp: tree_ok_def open_phase_def true_status_window)
next
  case (by_parent x)
  with assms(1,2) have "x \<in> set subxids"
    by (auto simp: tree_ok_def open_phase_def true_status_window)
  with assms(1) have "SubTransGetParent sub x \<in> set (xid # subxids)"
    by (simp add: tree_ok_def)
  with by_parent.IH show ?case .
qed

lemma closed_phase_committed:
  assumes "tree_ok sub xmin b xid subxids" and "closed_phase xid subxids s" and "y \<in> set (xid # subxids)"
  shows "did_commit s sub xmin y"
  using assms(3)
proof (induction "unat (y - b)" arbitrary: y rule: less_induct)
  case less
  let ?p = "SubTransGetParent sub y"
  note w = tree_ok_window [OF assms(1) less.prems]
  consider "clog_status s y = TRANSACTION_STATUS_COMMITTED"
    | "clog_status s y = TRANSACTION_STATUS_SUB_COMMITTED" "y \<in> set subxids"
    using less.prems assms(2) by (auto simp: closed_phase_def)
  then show ?case
  proof cases
    case 1
    show ?thesis
      by (rule did_commit.marked) (use 1 true_status_window [OF w] in simp)
  next
    case 2
    note p = tree_ok_parent [OF assms(1) 2(2)]
    note wp = tree_ok_window [OF assms(1) p(1)]
    have "unat (?p - b) < unat (y - b)"
      using p(2) precedes_window [OF wp w] by blast
    from less.hyps [OF this p(1)] have "did_commit s sub xmin ?p" .
    then show ?thesis
      using 2(1) true_status_window [OF w] normal_valid [OF window_normal [OF wp]] p(3)
      by (simp add: did_commit.by_parent)
  qed
qed

text \<open>
  C31: the commit of a transaction tree is atomic for onlookers, even when the tree spreads over
  several commit log pages that are updated one after the other. After any number \<open>k\<close> of the page
  updates of \<open>TransactionIdSetTreeStatus\<close>, \<open>TransactionIdDidCommit\<close> gives one and the same answer for the
  parent and for all its subtransactions, to any reader whose cache agrees with the log; before the
  first page update the answer is no, after the last it is yes.
\<close>

theorem TransactionIdAsyncCommitTree_atomic:
  assumes updates_def: "updates = tree_page_updates xid subxids TRANSACTION_STATUS_COMMITTED"
    and s'_def: "s' = fold (run_page_update InRecovery proc lk lsn) (take k updates) s"
    and "TransactionIdIsNormal xmin" and "subtrans_ok sub" and "cache_ok s' c"
    and "tree_ok sub xmin b xid subxids" and "xid \<notin> set subxids" and "open_phase xid subxids s"
    and "group_ok lk (set (xid # subxids))"
  shows "\<exists>answer. (\<forall>t \<in> set (xid # subxids). \<exists>c'. TransactionIdDidCommit s' sub xmin t c = Some (answer, c'))
    \<and> (k = 0 \<longrightarrow> \<not> answer)
    \<and> (length updates \<le> k \<longrightarrow> answer \<and> s' = TransactionIdAsyncCommitTree InRecovery proc lk xid subxids lsn s)"
proof -
  have norm: "TransactionIdIsValid t" if "t \<in> set (xid # subxids)" for t
    using assms(6) that by (auto simp: tree_ok_def intro: normal_valid window_normal)
  have "s' \<in> seen_during InRecovery proc lk lsn updates s" by (auto simp: seen_during_def s'_def)
  then have phases: "open_phase xid subxids s' \<or> closed_phase xid subxids s'"
    using tree_update_phases [OF assms(8) _ assms(7,9)] norm by (simp add: updates_def)
  have ans: "\<exists>c'. TransactionIdDidCommit s' sub xmin t c = Some (closed_phase xid subxids s', c')"
    if t: "t \<in> set (xid # subxids)" for t
  proof -
    have "did_commit s' sub xmin t = closed_phase xid subxids s'"
      using phases open_phase_uncommitted [OF assms(6) _ _ t] closed_phase_committed [OF assms(6) _ t]
      by (auto simp: open_phase_def closed_phase_def)
    with TransactionIdDidCommit_spec [OF assms(3-5) norm [OF t]] show ?thesis by auto
  qed
  have "\<not> closed_phase xid subxids s"
    using assms(8) by (simp add: open_phase_def closed_phase_def)
  then have "\<not> closed_phase xid subxids s'" if "k = 0" using that by (simp add: s'_def)
  moreover have all: "s' = TransactionIdAsyncCommitTree InRecovery proc lk xid subxids lsn s" if "length updates \<le> k"
    using that by (simp add: s'_def updates_def TransactionIdAsyncCommitTree_def TransactionIdSetTreeStatus_def)
  moreover have "closed_phase xid subxids (TransactionIdAsyncCommitTree InRecovery proc lk xid subxids lsn s)"
    using clog_tree_status [of TRANSACTION_STATUS_COMMITTED xid lk subxids InRecovery proc lsn s] norm assms(9)
    by (simp add: closed_phase_def TransactionIdAsyncCommitTree_def)
  ultimately show ?thesis
    using ans by (intro exI [of _ "closed_phase xid subxids s'"]) auto
qed

theorem TransactionIdAsyncCommitTree_atomic_witness:
  "\<exists>answer. \<forall>t \<in> {5, 6, 40000}. \<exists>c'. TransactionIdDidCommit
      (fold (run_page_update False \<lparr>proc_xid = 5, proc_subxids = [], proc_suboverflowed = False\<rparr> LockFree 0)
        (take 2 (tree_page_updates 5 [6, 40000] TRANSACTION_STATUS_COMMITTED)) zero_clog)
      (SubTransSetParent 40000 5 (SubTransSetParent 6 5 zero_subtrans)) 3 t empty_cache = Some (answer, c')"
proof -
  let ?sub = "SubTransSetParent 40000 5 (SubTransSetParent 6 5 zero_subtrans)"
  have parents: "SubTransGetParent ?sub x = (if x = 40000 \<or> x = 6 then 5 else 0)" for x
    by (simp add: parent_set xid_defs)
  have "TransactionIdIsNormal 3" by (simp add: xid_defs)
  moreover have "subtrans_ok ?sub"
    by (auto simp: subtrans_ok_def parents xid_defs TransactionIdPrecedes_def)
  moreover have "tree_ok ?sub 3 3 5 [6, 40000]"
    by (simp add: tree_ok_def parents xid_window_def xid_defs TransactionIdPrecedes_def)
  moreover have "open_phase 5 [6, 40000] zero_clog"
    by (simp add: open_phase_def TransactionIdGetStatus_def Let_def zero_clog_def status_defs)
  moreover have "group_ok LockFree (set (5 # [6, 40000]))"
    by (simp add: group_ok_def lk_members_def)
  ultimately show ?thesis
    using TransactionIdAsyncCommitTree_atomic [OF refl refl, where b = 3 and k = 2 and xid = 5 and subxids = "[6, 40000]" and sub = ?sub
        and xmin = 3 and s = zero_clog and lk = LockFree and lsn = 0 and InRecovery = False and c = empty_cache
        and proc = "\<lparr>proc_xid = 5, proc_subxids = [], proc_suboverflowed = False\<rparr>"] cache_ok_empty
    by fastforce
qed

end
