(* ===== verification/ItemPointer.thy ===== *)
theory ItemPointer
  imports CommitLog
begin

section \<open>Item pointers\<close>

text \<open>
  Block numbers, offset numbers and item pointers (TIDs), from \<open>src/include/storage/block.h\<close>,
  \<open>off.h\<close>, \<open>itemptr.h\<close> and \<open>src/backend/storage/page/itemptr.c\<close>. A block number is stored as two
  16-bit halves. The comparison makes item pointers a linear order; the index of an item pointer
  among all \<open>2 ^ 48\<close> is the abstraction that the comparison and the steps are proved against.
\<close>

subsection \<open>Block numbers and offset numbers\<close>

type_synonym BlockNumber = uint32
type_synonym OffsetNumber = uint16

definition InvalidBlockNumber :: BlockNumber where
  "InvalidBlockNumber = 0xFFFFFFFF"

definition MaxBlockNumber :: BlockNumber where
  "MaxBlockNumber = 0xFFFFFFFE"

datatype BlockIdData = BlockIdData (bi_hi: uint16) (bi_lo: uint16)

definition BlockNumberIsValid :: "BlockNumber \<Rightarrow> bool" where
  "BlockNumberIsValid blockNumber \<longleftrightarrow> blockNumber \<noteq> InvalidBlockNumber"

definition BlockIdSet :: "BlockNumber \<Rightarrow> BlockIdData" where
  "BlockIdSet blockNumber = BlockIdData (ucast (drop_bit 16 blockNumber)) (ucast (blockNumber AND 0xFFFF))"

definition BlockIdEquals :: "BlockIdData \<Rightarrow> BlockIdData \<Rightarrow> bool" where
  "BlockIdEquals blockId1 blockId2 \<longleftrightarrow> bi_hi blockId1 = bi_hi blockId2 \<and> bi_lo blockId1 = bi_lo blockId2"

definition BlockIdGetBlockNumber :: "BlockIdData \<Rightarrow> BlockNumber" where
  "BlockIdGetBlockNumber blockId = push_bit 16 (ucast (bi_hi blockId)) OR ucast (bi_lo blockId)"

definition InvalidOffsetNumber :: OffsetNumber where
  "InvalidOffsetNumber = 0"

definition FirstOffsetNumber :: OffsetNumber where
  "FirstOffsetNumber = 1"

definition MaxOffsetNumber :: OffsetNumber where
  "MaxOffsetNumber = of_nat (BLCKSZ div 4)"

definition OffsetNumberIsValid :: "OffsetNumber \<Rightarrow> bool" where
  "OffsetNumberIsValid offsetNumber \<longleftrightarrow> offsetNumber \<noteq> InvalidOffsetNumber \<and> offsetNumber \<le> MaxOffsetNumber"

definition OffsetNumberNext :: "OffsetNumber \<Rightarrow> OffsetNumber" where
  "OffsetNumberNext offsetNumber = 1 + offsetNumber"

definition OffsetNumberPrev :: "OffsetNumber \<Rightarrow> OffsetNumber" where
  "OffsetNumberPrev offsetNumber = - 1 + offsetNumber"

subsection \<open>Item pointers\<close>

datatype ItemPointerData = ItemPointerData (ip_blkid: BlockIdData) (ip_posid: OffsetNumber)

definition SpecTokenOffsetNumber :: OffsetNumber where
  "SpecTokenOffsetNumber = 0xFFFE"

definition MovedPartitionsOffsetNumber :: OffsetNumber where
  "MovedPartitionsOffsetNumber = 0xFFFD"

definition MovedPartitionsBlockNumber :: BlockNumber where
  "MovedPartitionsBlockNumber = InvalidBlockNumber"

definition ItemPointerIsValid :: "ItemPointerData \<Rightarrow> bool" where
  "ItemPointerIsValid pointer \<longleftrightarrow> ip_posid pointer \<noteq> 0"

definition ItemPointerGetBlockNumberNoCheck :: "ItemPointerData \<Rightarrow> BlockNumber" where
  "ItemPointerGetBlockNumberNoCheck pointer = BlockIdGetBlockNumber (ip_blkid pointer)"

definition ItemPointerGetBlockNumber :: "ItemPointerData \<Rightarrow> BlockNumber" where
  "ItemPointerGetBlockNumber pointer = ItemPointerGetBlockNumberNoCheck pointer"

definition ItemPointerGetOffsetNumberNoCheck :: "ItemPointerData \<Rightarrow> OffsetNumber" where
  "ItemPointerGetOffsetNumberNoCheck pointer = ip_posid pointer"

definition ItemPointerGetOffsetNumber :: "ItemPointerData \<Rightarrow> OffsetNumber" where
  "ItemPointerGetOffsetNumber pointer = ItemPointerGetOffsetNumberNoCheck pointer"

definition ItemPointerSet :: "BlockNumber \<Rightarrow> OffsetNumber \<Rightarrow> ItemPointerData" where
  "ItemPointerSet blockNumber offNum = ItemPointerData (BlockIdSet blockNumber) offNum"

definition ItemPointerSetBlockNumber :: "ItemPointerData \<Rightarrow> BlockNumber \<Rightarrow> ItemPointerData" where
  "ItemPointerSetBlockNumber pointer blockNumber = ItemPointerData (BlockIdSet blockNumber) (ip_posid pointer)"

definition ItemPointerSetOffsetNumber :: "ItemPointerData \<Rightarrow> OffsetNumber \<Rightarrow> ItemPointerData" where
  "ItemPointerSetOffsetNumber pointer offsetNumber = ItemPointerData (ip_blkid pointer) offsetNumber"

definition ItemPointerSetInvalid :: ItemPointerData where
  "ItemPointerSetInvalid = ItemPointerData (BlockIdSet InvalidBlockNumber) InvalidOffsetNumber"

definition ItemPointerIndicatesMovedPartitions :: "ItemPointerData \<Rightarrow> bool" where
  "ItemPointerIndicatesMovedPartitions pointer \<longleftrightarrow>
     ItemPointerGetOffsetNumber pointer = MovedPartitionsOffsetNumber
     \<and> ItemPointerGetBlockNumberNoCheck pointer = MovedPartitionsBlockNumber"

definition ItemPointerSetMovedPartitions :: ItemPointerData where
  "ItemPointerSetMovedPartitions = ItemPointerSet MovedPartitionsBlockNumber MovedPartitionsOffsetNumber"

definition ItemPointerEquals :: "ItemPointerData \<Rightarrow> ItemPointerData \<Rightarrow> bool" where
  "ItemPointerEquals pointer1 pointer2 =
     (if ItemPointerGetBlockNumber pointer1 = ItemPointerGetBlockNumber pointer2
         \<and> ItemPointerGetOffsetNumber pointer1 = ItemPointerGetOffsetNumber pointer2
      then True else False)"

definition ItemPointerCompare :: "ItemPointerData \<Rightarrow> ItemPointerData \<Rightarrow> int" where
  "ItemPointerCompare arg1 arg2 =
     (let b1 = ItemPointerGetBlockNumberNoCheck arg1; b2 = ItemPointerGetBlockNumberNoCheck arg2
      in if b1 < b2 then - 1
         else if b1 > b2 then 1
         else if ItemPointerGetOffsetNumberNoCheck arg1 < ItemPointerGetOffsetNumberNoCheck arg2 then - 1
         else if ItemPointerGetOffsetNumberNoCheck arg1 > ItemPointerGetOffsetNumberNoCheck arg2 then 1
         else 0)"

definition PG_UINT16_MAX :: uint16 where
  "PG_UINT16_MAX = 0xFFFF"

definition ItemPointerInc :: "ItemPointerData \<Rightarrow> ItemPointerData" where
  "ItemPointerInc pointer =
     (let blk = ItemPointerGetBlockNumberNoCheck pointer;
          off = ItemPointerGetOffsetNumberNoCheck pointer
      in if off = PG_UINT16_MAX then
           (if blk \<noteq> InvalidBlockNumber then ItemPointerSet (blk + 1) 0 else ItemPointerSet blk off)
         else ItemPointerSet blk (off + 1))"

definition ItemPointerDec :: "ItemPointerData \<Rightarrow> ItemPointerData" where
  "ItemPointerDec pointer =
     (let blk = ItemPointerGetBlockNumberNoCheck pointer;
          off = ItemPointerGetOffsetNumberNoCheck pointer
      in if off = 0 then
           (if blk \<noteq> 0 then ItemPointerSet (blk - 1) PG_UINT16_MAX else ItemPointerSet blk off)
         else ItemPointerSet blk (off - 1))"

lemmas item_pointer_defs = ItemPointerGetBlockNumberNoCheck_def ItemPointerGetBlockNumber_def
  ItemPointerGetOffsetNumberNoCheck_def ItemPointerGetOffsetNumber_def

subsection \<open>The index of an item pointer\<close>

lemma low_half_mask: "(0xFFFF :: BlockNumber) = mask 16"
  by (simp add: mask_eq_exp_minus_1)

lemma BlockId_set_get [simp]: "BlockIdGetBlockNumber (BlockIdSet b) = b"
  by (rule bit_word_eqI) (auto simp: BlockIdGetBlockNumber_def BlockIdSet_def low_half_mask bit_simps
      dest: bit_imp_le_length)

lemma BlockId_get_set [simp]: "BlockIdSet (BlockIdGetBlockNumber i) = i"
proof (cases i)
  case (BlockIdData h l)
  have "ucast (drop_bit 16 (push_bit 16 (ucast h) OR ucast l :: BlockNumber)) = h"
    by (rule bit_word_eqI) (auto simp: bit_simps dest: bit_imp_le_length)
  moreover have "ucast ((push_bit 16 (ucast h) OR ucast l :: BlockNumber) AND 0xFFFF) = l"
    by (rule bit_word_eqI) (auto simp: low_half_mask bit_simps dest: bit_imp_le_length)
  ultimately show ?thesis by (simp add: BlockIdGetBlockNumber_def BlockIdSet_def BlockIdData)
qed

definition tid_index :: "ItemPointerData \<Rightarrow> int" where
  "tid_index p = uint (ItemPointerGetBlockNumberNoCheck p) * 65536 + uint (ItemPointerGetOffsetNumberNoCheck p)"

lemma block_ItemPointerSet [simp]: "ItemPointerGetBlockNumberNoCheck (ItemPointerSet b f) = b"
  "ItemPointerGetOffsetNumberNoCheck (ItemPointerSet b f) = f"
  by (simp_all add: ItemPointerSet_def item_pointer_defs)

lemma tid_index_range: "0 \<le> tid_index p \<and> tid_index p < 2 ^ 48"
proof -
  have "uint (ItemPointerGetBlockNumberNoCheck p) < 2 ^ 32" "uint (ItemPointerGetOffsetNumberNoCheck p) < 2 ^ 16"
    using uint_bounded [of "ItemPointerGetBlockNumberNoCheck p"]
      uint_bounded [of "ItemPointerGetOffsetNumberNoCheck p"] by simp_all
  then show ?thesis by (simp add: tid_index_def)
qed

lemma item_pointer_eqI:
  assumes "ItemPointerGetBlockNumberNoCheck p = ItemPointerGetBlockNumberNoCheck q"
    and "ItemPointerGetOffsetNumberNoCheck p = ItemPointerGetOffsetNumberNoCheck q"
  shows "p = q"
proof -
  from assms(1) have "ip_blkid p = ip_blkid q"
    unfolding item_pointer_defs by (metis BlockId_get_set)
  with assms(2) show ?thesis by (cases p, cases q) (simp add: item_pointer_defs)
qed

lemma tid_index_less:
  "tid_index p < tid_index q \<longleftrightarrow>
     ItemPointerGetBlockNumberNoCheck p < ItemPointerGetBlockNumberNoCheck q
     \<or> (ItemPointerGetBlockNumberNoCheck p = ItemPointerGetBlockNumberNoCheck q
        \<and> ItemPointerGetOffsetNumberNoCheck p < ItemPointerGetOffsetNumberNoCheck q)"
proof -
  have r: "0 \<le> uint (ItemPointerGetOffsetNumberNoCheck x)" "uint (ItemPointerGetOffsetNumberNoCheck x) < 65536" for x
    using uint_bounded [of "ItemPointerGetOffsetNumberNoCheck x"] by simp_all
  have lex: "a * 65536 + c < b * 65536 + d \<longleftrightarrow> a < b \<or> a = b \<and> c < d"
    if "0 \<le> c" "c < 65536" "0 \<le> d" "d < 65536" for a b c d :: int
    using that by (cases a b rule: linorder_cases) linarith+
  show ?thesis
    unfolding tid_index_def word_less_def word_uint_eq_iff by (rule lex [OF r r])
qed

lemma tid_index_inj: "tid_index p = tid_index q \<longleftrightarrow> p = q"
proof
  assume "tid_index p = tid_index q"
  then have "\<not> tid_index p < tid_index q" "\<not> tid_index q < tid_index p" by simp_all
  then show "p = q"
    unfolding tid_index_less by (intro item_pointer_eqI) (metis linorder_neqE)+
qed simp

lemma ItemPointerCompare_index:
  "ItemPointerCompare p q =
     (if tid_index p < tid_index q then - 1 else if tid_index q < tid_index p then 1 else 0)"
  unfolding tid_index_less ItemPointerCompare_def Let_def by (auto dest: less_imp_not_less)

lemma ItemPointerEquals_eq [simp]: "ItemPointerEquals p q \<longleftrightarrow> p = q"
  using item_pointer_eqI [of p q] by (auto simp: ItemPointerEquals_def item_pointer_defs)

subsection \<open>Item pointers are linearly ordered\<close>

instantiation ItemPointerData :: linorder
begin

definition less_eq_ItemPointerData :: "ItemPointerData \<Rightarrow> ItemPointerData \<Rightarrow> bool" where
  "p \<le> q \<longleftrightarrow> ItemPointerCompare p q \<le> 0"

definition less_ItemPointerData :: "ItemPointerData \<Rightarrow> ItemPointerData \<Rightarrow> bool" where
  "p < q \<longleftrightarrow> ItemPointerCompare p q < 0"

instance
  by standard
    (auto simp: less_eq_ItemPointerData_def less_ItemPointerData_def ItemPointerCompare_index
      tid_index_inj [symmetric] split: if_splits)

end

text \<open>
  The btree comparison of item pointers orders them by their index, the block number times
  \<open>2 ^ 16\<close> plus the offset number; it is zero exactly for equal item pointers, and swapping the
  arguments negates it.
\<close>

theorem ItemPointerCompare_order:
  "ItemPointerCompare p q = sgn (tid_index p - tid_index q)
   \<and> (ItemPointerCompare p q = 0 \<longleftrightarrow> ItemPointerEquals p q)
   \<and> ItemPointerCompare q p = - ItemPointerCompare p q"
  by (auto simp: ItemPointerCompare_index tid_index_inj [symmetric])

lemma minus_one_word32: "- 1 = (0xFFFFFFFF :: 32 word)" and minus_one_word16: "- 1 = (0xFFFF :: 16 word)"
  by simp_all

lemma uint_succ: "(w :: 'a::len word) + 1 \<noteq> 0 \<Longrightarrow> uint (w + 1) = uint w + 1"
proof -
  assume "w + 1 \<noteq> 0"
  then have "unat (w + 1) = Suc (unat w)" using unatSuc [of w] by (simp add: add.commute)
  then show ?thesis unfolding uint_of_unat by simp
qed

lemma uint_pred: "(w :: 'a::len word) \<noteq> 0 \<Longrightarrow> uint (w - 1) = uint w - 1"
  using uint_succ [of "w - 1"] by simp

lemma tid_index_Set: "tid_index (ItemPointerSet b f) = uint b * 65536 + uint f"
  by (simp add: tid_index_def)

lemma tid_index_Inc: "tid_index (ItemPointerInc p) = min (tid_index p + 1) (2 ^ 48 - 1)"
proof -
  let ?b = "ItemPointerGetBlockNumberNoCheck p" and ?f = "ItemPointerGetOffsetNumberNoCheck p"
  have i: "tid_index p = uint ?b * 65536 + uint ?f" by (simp add: tid_index_def)
  consider (max) "?f = 0xFFFF" "?b = 0xFFFFFFFF" | (carry) "?f = 0xFFFF" "?b \<noteq> 0xFFFFFFFF" | (off) "?f \<noteq> 0xFFFF"
    by blast
  then show ?thesis
  proof cases
    case max
    then show ?thesis
      by (simp add: ItemPointerInc_def PG_UINT16_MAX_def InvalidBlockNumber_def tid_index_Set i)
  next
    case carry
    then have "?b + 1 \<noteq> 0" by (metis add_diff_cancel_right' diff_0 minus_one_word32)
    then have "uint (?b + 1) = uint ?b + 1" by (rule uint_succ)
    moreover have "tid_index (ItemPointerInc p) < 2 ^ 48" using tid_index_range by blast
    ultimately show ?thesis using carry
      by (simp add: ItemPointerInc_def PG_UINT16_MAX_def InvalidBlockNumber_def tid_index_Set i)
  next
    case off
    then have "?f + 1 \<noteq> 0" by (metis add_diff_cancel_right' diff_0 minus_one_word16)
    then have "uint (?f + 1) = uint ?f + 1" by (rule uint_succ)
    moreover have "tid_index (ItemPointerInc p) < 2 ^ 48" using tid_index_range by blast
    ultimately show ?thesis using off
      by (simp add: ItemPointerInc_def PG_UINT16_MAX_def tid_index_Set i)
  qed
qed

lemma tid_index_Dec: "tid_index (ItemPointerDec p) = max (tid_index p - 1) 0"
proof -
  let ?b = "ItemPointerGetBlockNumberNoCheck p" and ?f = "ItemPointerGetOffsetNumberNoCheck p"
  have i: "tid_index p = uint ?b * 65536 + uint ?f" by (simp add: tid_index_def)
  have r: "0 \<le> tid_index (ItemPointerDec p)" using tid_index_range by blast
  show ?thesis
  proof (cases "?f = 0")
    case True
    then show ?thesis using r uint_pred [of ?b]
      by (cases "?b = 0") (simp_all add: ItemPointerDec_def PG_UINT16_MAX_def tid_index_Set i)
  next
    case False
    then show ?thesis using r uint_pred [of ?f]
      by (simp add: ItemPointerDec_def tid_index_Set i)
  qed
qed

text \<open>
  \<open>ItemPointerInc\<close> moves to the next of all item pointers and stops at the last, and
  \<open>ItemPointerDec\<close> moves to the previous one and stops at the first; so between the ends each
  undoes the other.
\<close>

theorem ItemPointer_steps:
  "tid_index (ItemPointerInc p) = min (tid_index p + 1) (2 ^ 48 - 1)
   \<and> tid_index (ItemPointerDec p) = max (tid_index p - 1) 0"
  using tid_index_Inc tid_index_Dec by blast

end
