(* ===== verification/TupleHeader.thy ===== *)
theory TupleHeader
  imports ItemPointer
begin

section \<open>Heap tuple headers\<close>

text \<open>
  The header of a heap tuple and its flag bits, from \<open>src/include/access/htup_details.h\<close>: the
  fields the visibility rules read, the \<open>t_infomask\<close> and \<open>t_infomask2\<close> flags, and the accessor
  macros. The union \<open>t_field3\<close> (command id or id of an old-style VACUUM FULL) is one 32-bit field.
  Every flag test is rewritten by the collection \<open>flag_simps\<close> to a test of one bit.
\<close>

subsection \<open>Flags\<close>

definition HEAP_HASNULL :: uint16 where
  "HEAP_HASNULL = 0x0001"

definition HEAP_HASVARWIDTH :: uint16 where
  "HEAP_HASVARWIDTH = 0x0002"

definition HEAP_HASEXTERNAL :: uint16 where
  "HEAP_HASEXTERNAL = 0x0004"

definition HEAP_HASOID_OLD :: uint16 where
  "HEAP_HASOID_OLD = 0x0008"

definition HEAP_XMAX_KEYSHR_LOCK :: uint16 where
  "HEAP_XMAX_KEYSHR_LOCK = 0x0010"

definition HEAP_COMBOCID :: uint16 where
  "HEAP_COMBOCID = 0x0020"

definition HEAP_XMAX_EXCL_LOCK :: uint16 where
  "HEAP_XMAX_EXCL_LOCK = 0x0040"

definition HEAP_XMAX_LOCK_ONLY :: uint16 where
  "HEAP_XMAX_LOCK_ONLY = 0x0080"

definition HEAP_XMIN_COMMITTED :: uint16 where
  "HEAP_XMIN_COMMITTED = 0x0100"

definition HEAP_XMIN_INVALID :: uint16 where
  "HEAP_XMIN_INVALID = 0x0200"

definition HEAP_XMAX_COMMITTED :: uint16 where
  "HEAP_XMAX_COMMITTED = 0x0400"

definition HEAP_XMAX_INVALID :: uint16 where
  "HEAP_XMAX_INVALID = 0x0800"

definition HEAP_XMAX_IS_MULTI :: uint16 where
  "HEAP_XMAX_IS_MULTI = 0x1000"

definition HEAP_UPDATED :: uint16 where
  "HEAP_UPDATED = 0x2000"

definition HEAP_MOVED_OFF :: uint16 where
  "HEAP_MOVED_OFF = 0x4000"

definition HEAP_MOVED_IN :: uint16 where
  "HEAP_MOVED_IN = 0x8000"

definition HEAP_XMAX_SHR_LOCK :: uint16 where
  "HEAP_XMAX_SHR_LOCK = HEAP_XMAX_EXCL_LOCK OR HEAP_XMAX_KEYSHR_LOCK"

definition HEAP_LOCK_MASK :: uint16 where
  "HEAP_LOCK_MASK = HEAP_XMAX_SHR_LOCK OR HEAP_XMAX_EXCL_LOCK OR HEAP_XMAX_KEYSHR_LOCK"

definition HEAP_XMIN_FROZEN :: uint16 where
  "HEAP_XMIN_FROZEN = HEAP_XMIN_COMMITTED OR HEAP_XMIN_INVALID"

definition HEAP_MOVED :: uint16 where
  "HEAP_MOVED = HEAP_MOVED_OFF OR HEAP_MOVED_IN"

definition HEAP_XMAX_BITS :: uint16 where
  "HEAP_XMAX_BITS = HEAP_XMAX_COMMITTED OR HEAP_XMAX_INVALID OR HEAP_XMAX_IS_MULTI OR HEAP_LOCK_MASK
     OR HEAP_XMAX_LOCK_ONLY"

definition HEAP_NATTS_MASK :: uint16 where
  "HEAP_NATTS_MASK = 0x07FF"

definition HEAP_KEYS_UPDATED :: uint16 where
  "HEAP_KEYS_UPDATED = 0x2000"

definition HEAP_HOT_UPDATED :: uint16 where
  "HEAP_HOT_UPDATED = 0x4000"

definition HEAP_ONLY_TUPLE :: uint16 where
  "HEAP_ONLY_TUPLE = 0x8000"

definition HEAP_XMAX_IS_LOCKED_ONLY :: "uint16 \<Rightarrow> bool" where
  "HEAP_XMAX_IS_LOCKED_ONLY infomask \<longleftrightarrow> infomask AND HEAP_XMAX_LOCK_ONLY \<noteq> 0
     \<or> infomask AND (HEAP_XMAX_IS_MULTI OR HEAP_LOCK_MASK) = HEAP_XMAX_EXCL_LOCK"

definition HEAP_LOCKED_UPGRADED :: "uint16 \<Rightarrow> bool" where
  "HEAP_LOCKED_UPGRADED infomask \<longleftrightarrow> infomask AND HEAP_XMAX_IS_MULTI \<noteq> 0
     \<and> infomask AND HEAP_XMAX_LOCK_ONLY \<noteq> 0
     \<and> infomask AND (HEAP_XMAX_EXCL_LOCK OR HEAP_XMAX_KEYSHR_LOCK) = 0"

definition HEAP_XMAX_IS_SHR_LOCKED :: "uint16 \<Rightarrow> bool" where
  "HEAP_XMAX_IS_SHR_LOCKED infomask \<longleftrightarrow> infomask AND HEAP_LOCK_MASK = HEAP_XMAX_SHR_LOCK"

definition HEAP_XMAX_IS_EXCL_LOCKED :: "uint16 \<Rightarrow> bool" where
  "HEAP_XMAX_IS_EXCL_LOCKED infomask \<longleftrightarrow> infomask AND HEAP_LOCK_MASK = HEAP_XMAX_EXCL_LOCK"

definition HEAP_XMAX_IS_KEYSHR_LOCKED :: "uint16 \<Rightarrow> bool" where
  "HEAP_XMAX_IS_KEYSHR_LOCKED infomask \<longleftrightarrow> infomask AND HEAP_LOCK_MASK = HEAP_XMAX_KEYSHR_LOCK"

subsection \<open>The header and its accessors\<close>

record HeapTupleHeader =
  t_xmin :: TransactionId
  t_xmax :: TransactionId
  t_field3 :: uint32
  t_ctid :: ItemPointerData
  t_infomask2 :: uint16
  t_infomask :: uint16

definition HeapTupleHeaderGetRawXmin :: "HeapTupleHeader \<Rightarrow> TransactionId" where
  [simp]: "HeapTupleHeaderGetRawXmin tup = t_xmin tup"

definition HeapTupleHeaderXminCommitted :: "HeapTupleHeader \<Rightarrow> bool" where
  "HeapTupleHeaderXminCommitted tup \<longleftrightarrow> t_infomask tup AND HEAP_XMIN_COMMITTED \<noteq> 0"

definition HeapTupleHeaderXminInvalid :: "HeapTupleHeader \<Rightarrow> bool" where
  "HeapTupleHeaderXminInvalid tup \<longleftrightarrow>
     t_infomask tup AND (HEAP_XMIN_COMMITTED OR HEAP_XMIN_INVALID) = HEAP_XMIN_INVALID"

definition HeapTupleHeaderXminFrozen :: "HeapTupleHeader \<Rightarrow> bool" where
  "HeapTupleHeaderXminFrozen tup \<longleftrightarrow> t_infomask tup AND HEAP_XMIN_FROZEN = HEAP_XMIN_FROZEN"

definition HeapTupleHeaderGetXmin :: "HeapTupleHeader \<Rightarrow> TransactionId" where
  "HeapTupleHeaderGetXmin tup =
     (if HeapTupleHeaderXminFrozen tup then FrozenTransactionId else HeapTupleHeaderGetRawXmin tup)"

definition HeapTupleHeaderSetXmin :: "HeapTupleHeader \<Rightarrow> TransactionId \<Rightarrow> HeapTupleHeader" where
  "HeapTupleHeaderSetXmin tup xid = tup\<lparr>t_xmin := xid\<rparr>"

definition HeapTupleHeaderSetXminCommitted :: "HeapTupleHeader \<Rightarrow> HeapTupleHeader" where
  "HeapTupleHeaderSetXminCommitted tup = tup\<lparr>t_infomask := t_infomask tup OR HEAP_XMIN_COMMITTED\<rparr>"

definition HeapTupleHeaderSetXminInvalid :: "HeapTupleHeader \<Rightarrow> HeapTupleHeader" where
  "HeapTupleHeaderSetXminInvalid tup = tup\<lparr>t_infomask := t_infomask tup OR HEAP_XMIN_INVALID\<rparr>"

definition HeapTupleHeaderSetXminFrozen :: "HeapTupleHeader \<Rightarrow> HeapTupleHeader" where
  "HeapTupleHeaderSetXminFrozen tup = tup\<lparr>t_infomask := t_infomask tup OR HEAP_XMIN_FROZEN\<rparr>"

definition HeapTupleHeaderGetRawXmax :: "HeapTupleHeader \<Rightarrow> TransactionId" where
  [simp]: "HeapTupleHeaderGetRawXmax tup = t_xmax tup"

definition HeapTupleHeaderSetXmax :: "HeapTupleHeader \<Rightarrow> TransactionId \<Rightarrow> HeapTupleHeader" where
  "HeapTupleHeaderSetXmax tup xid = tup\<lparr>t_xmax := xid\<rparr>"

definition HeapTupleHeaderGetRawCommandId :: "HeapTupleHeader \<Rightarrow> CommandId" where
  [simp]: "HeapTupleHeaderGetRawCommandId tup = t_field3 tup"

definition HeapTupleHeaderSetCmin :: "HeapTupleHeader \<Rightarrow> CommandId \<Rightarrow> HeapTupleHeader" where
  "HeapTupleHeaderSetCmin tup cid =
     tup\<lparr>t_field3 := cid, t_infomask := t_infomask tup AND NOT HEAP_COMBOCID\<rparr>"

definition HeapTupleHeaderSetCmax :: "HeapTupleHeader \<Rightarrow> CommandId \<Rightarrow> bool \<Rightarrow> HeapTupleHeader" where
  "HeapTupleHeaderSetCmax tup cid iscombo =
     tup\<lparr>t_field3 := cid,
         t_infomask := (if iscombo then t_infomask tup OR HEAP_COMBOCID
                        else t_infomask tup AND NOT HEAP_COMBOCID)\<rparr>"

definition HeapTupleHeaderGetXvac :: "HeapTupleHeader \<Rightarrow> TransactionId" where
  "HeapTupleHeaderGetXvac tup =
     (if t_infomask tup AND HEAP_MOVED \<noteq> 0 then t_field3 tup else InvalidTransactionId)"

definition HeapTupleHeaderSetXvac :: "HeapTupleHeader \<Rightarrow> TransactionId \<Rightarrow> HeapTupleHeader" where
  "HeapTupleHeaderSetXvac tup xid = tup\<lparr>t_field3 := xid\<rparr>"

definition HeapTupleHeaderIsSpeculative :: "HeapTupleHeader \<Rightarrow> bool" where
  "HeapTupleHeaderIsSpeculative tup \<longleftrightarrow>
     ItemPointerGetOffsetNumberNoCheck (t_ctid tup) = SpecTokenOffsetNumber"

definition HeapTupleHeaderGetSpeculativeToken :: "HeapTupleHeader \<Rightarrow> uint32" where
  "HeapTupleHeaderGetSpeculativeToken tup = ItemPointerGetBlockNumber (t_ctid tup)"

definition HeapTupleHeaderSetSpeculativeToken :: "HeapTupleHeader \<Rightarrow> uint32 \<Rightarrow> HeapTupleHeader" where
  "HeapTupleHeaderSetSpeculativeToken tup token =
     tup\<lparr>t_ctid := ItemPointerSet token SpecTokenOffsetNumber\<rparr>"

definition HeapTupleHeaderIndicatesMovedPartitions :: "HeapTupleHeader \<Rightarrow> bool" where
  "HeapTupleHeaderIndicatesMovedPartitions tup \<longleftrightarrow> ItemPointerIndicatesMovedPartitions (t_ctid tup)"

definition HeapTupleHeaderSetMovedPartitions :: "HeapTupleHeader \<Rightarrow> HeapTupleHeader" where
  "HeapTupleHeaderSetMovedPartitions tup = tup\<lparr>t_ctid := ItemPointerSetMovedPartitions\<rparr>"

definition HeapTupleHeaderIsHotUpdated :: "HeapTupleHeader \<Rightarrow> bool" where
  "HeapTupleHeaderIsHotUpdated tup \<longleftrightarrow> t_infomask2 tup AND HEAP_HOT_UPDATED \<noteq> 0
     \<and> t_infomask tup AND HEAP_XMAX_INVALID = 0 \<and> \<not> HeapTupleHeaderXminInvalid tup"

definition HeapTupleHeaderSetHotUpdated :: "HeapTupleHeader \<Rightarrow> HeapTupleHeader" where
  "HeapTupleHeaderSetHotUpdated tup = tup\<lparr>t_infomask2 := t_infomask2 tup OR HEAP_HOT_UPDATED\<rparr>"

definition HeapTupleHeaderClearHotUpdated :: "HeapTupleHeader \<Rightarrow> HeapTupleHeader" where
  "HeapTupleHeaderClearHotUpdated tup = tup\<lparr>t_infomask2 := t_infomask2 tup AND NOT HEAP_HOT_UPDATED\<rparr>"

definition HeapTupleHeaderIsHeapOnly :: "HeapTupleHeader \<Rightarrow> bool" where
  "HeapTupleHeaderIsHeapOnly tup \<longleftrightarrow> t_infomask2 tup AND HEAP_ONLY_TUPLE \<noteq> 0"

definition HeapTupleHeaderSetHeapOnly :: "HeapTupleHeader \<Rightarrow> HeapTupleHeader" where
  "HeapTupleHeaderSetHeapOnly tup = tup\<lparr>t_infomask2 := t_infomask2 tup OR HEAP_ONLY_TUPLE\<rparr>"

definition HeapTupleHeaderClearHeapOnly :: "HeapTupleHeader \<Rightarrow> HeapTupleHeader" where
  "HeapTupleHeaderClearHeapOnly tup = tup\<lparr>t_infomask2 := t_infomask2 tup AND NOT HEAP_ONLY_TUPLE\<rparr>"

definition HeapTupleHeaderGetNatts :: "HeapTupleHeader \<Rightarrow> uint16" where
  "HeapTupleHeaderGetNatts tup = t_infomask2 tup AND HEAP_NATTS_MASK"

definition HeapTupleHeaderSetNatts :: "HeapTupleHeader \<Rightarrow> uint16 \<Rightarrow> HeapTupleHeader" where
  "HeapTupleHeaderSetNatts tup natts =
     tup\<lparr>t_infomask2 := (t_infomask2 tup AND NOT HEAP_NATTS_MASK) OR natts\<rparr>"

definition HeapTupleHeaderHasExternal :: "HeapTupleHeader \<Rightarrow> bool" where
  "HeapTupleHeaderHasExternal tup \<longleftrightarrow> t_infomask tup AND HEAP_HASEXTERNAL \<noteq> 0"

subsection \<open>Flags as bits\<close>

lemma flag_bit:
  fixes m :: uint16
  assumes "f = push_bit k 1"
  shows "m AND f \<noteq> 0 \<longleftrightarrow> bit m k" and "m AND f = 0 \<longleftrightarrow> \<not> bit m k"
    and "m AND f = f \<longleftrightarrow> bit m k \<or> f = 0"
proof -
  have "m AND f = (if bit m k then push_bit k 1 else 0)" unfolding assms
    by (rule bit_word_eqI) (auto simp: bit_simps)
  moreover have "(push_bit k 1 :: uint16) \<noteq> 0" if "bit m k"
    using bit_imp_le_length [OF that] by (simp add: bit_eq_iff bit_simps) fastforce
  ultimately show "m AND f \<noteq> 0 \<longleftrightarrow> bit m k" "m AND f = 0 \<longleftrightarrow> \<not> bit m k"
    "m AND f = f \<longleftrightarrow> bit m k \<or> f = 0"
    using assms by auto
qed

lemma flag_values:
  "HEAP_HASNULL = push_bit 0 1"
  "HEAP_HASVARWIDTH = push_bit 1 1"
  "HEAP_HASEXTERNAL = push_bit 2 1"
  "HEAP_HASOID_OLD = push_bit 3 1"
  "HEAP_XMAX_KEYSHR_LOCK = push_bit 4 1"
  "HEAP_COMBOCID = push_bit 5 1"
  "HEAP_XMAX_EXCL_LOCK = push_bit 6 1"
  "HEAP_XMAX_LOCK_ONLY = push_bit 7 1"
  "HEAP_XMIN_COMMITTED = push_bit 8 1"
  "HEAP_XMIN_INVALID = push_bit 9 1"
  "HEAP_XMAX_COMMITTED = push_bit 10 1"
  "HEAP_XMAX_INVALID = push_bit 11 1"
  "HEAP_XMAX_IS_MULTI = push_bit 12 1"
  "HEAP_UPDATED = push_bit 13 1"
  "HEAP_MOVED_OFF = push_bit 14 1"
  "HEAP_MOVED_IN = push_bit 15 1"
  "HEAP_KEYS_UPDATED = push_bit 13 1"
  "HEAP_HOT_UPDATED = push_bit 14 1"
  "HEAP_ONLY_TUPLE = push_bit 15 1"
  by (simp_all add: HEAP_HASNULL_def HEAP_HASVARWIDTH_def HEAP_HASEXTERNAL_def HEAP_HASOID_OLD_def
      HEAP_XMAX_KEYSHR_LOCK_def HEAP_COMBOCID_def HEAP_XMAX_EXCL_LOCK_def HEAP_XMAX_LOCK_ONLY_def
      HEAP_XMIN_COMMITTED_def HEAP_XMIN_INVALID_def HEAP_XMAX_COMMITTED_def HEAP_XMAX_INVALID_def
      HEAP_XMAX_IS_MULTI_def HEAP_UPDATED_def
      HEAP_MOVED_OFF_def HEAP_MOVED_IN_def HEAP_KEYS_UPDATED_def HEAP_HOT_UPDATED_def HEAP_ONLY_TUPLE_def)

lemmas flag_tests [flag_simps] = flag_values [THEN flag_bit(1)] flag_values [THEN flag_bit(2)]

lemma mask_bit:
  fixes m :: uint16
  shows "m AND (push_bit k 1 OR g) = (if bit m k then push_bit k 1 else 0) OR (m AND g)"
  by (rule bit_word_eqI) (auto simp: bit_simps)

lemma single_bit: "(m :: uint16) AND push_bit k 1 = (if bit m k then push_bit k 1 else 0)"
  by (rule bit_word_eqI) (auto simp: bit_simps)

lemma xmin_flags [flag_simps]:
  "HeapTupleHeaderXminCommitted t \<longleftrightarrow> bit (t_infomask t) 8"
  "HeapTupleHeaderXminInvalid t \<longleftrightarrow> \<not> bit (t_infomask t) 8 \<and> bit (t_infomask t) 9"
  "HeapTupleHeaderXminFrozen t \<longleftrightarrow> bit (t_infomask t) 8 \<and> bit (t_infomask t) 9"
  unfolding HeapTupleHeaderXminCommitted_def HeapTupleHeaderXminInvalid_def HeapTupleHeaderXminFrozen_def
    HEAP_XMIN_FROZEN_def flag_values mask_bit single_bit
  by simp_all

lemma lock_mask_value: "HEAP_LOCK_MASK = push_bit 6 1 OR push_bit 4 1"
  by (simp add: HEAP_LOCK_MASK_def HEAP_XMAX_SHR_LOCK_def flag_values)

lemma lock_flags [flag_simps]:
  "HEAP_XMAX_IS_LOCKED_ONLY m \<longleftrightarrow> bit m 7 \<or> (\<not> bit m 12 \<and> bit m 6 \<and> \<not> bit m 4)"
  "HEAP_LOCKED_UPGRADED m \<longleftrightarrow> bit m 12 \<and> bit m 7 \<and> \<not> bit m 6 \<and> \<not> bit m 4"
  "HEAP_XMAX_IS_SHR_LOCKED m \<longleftrightarrow> bit m 6 \<and> bit m 4"
  "HEAP_XMAX_IS_EXCL_LOCKED m \<longleftrightarrow> bit m 6 \<and> \<not> bit m 4"
  "HEAP_XMAX_IS_KEYSHR_LOCKED m \<longleftrightarrow> \<not> bit m 6 \<and> bit m 4"
  unfolding HEAP_XMAX_IS_LOCKED_ONLY_def HEAP_LOCKED_UPGRADED_def HEAP_XMAX_IS_SHR_LOCKED_def
    HEAP_XMAX_IS_EXCL_LOCKED_def HEAP_XMAX_IS_KEYSHR_LOCKED_def lock_mask_value HEAP_XMAX_SHR_LOCK_def
    flag_values mask_bit single_bit
  by simp_all

lemma xvac_flag: "HeapTupleHeaderGetXvac t =
    (if bit (t_infomask t) 14 \<or> bit (t_infomask t) 15 then t_field3 t else InvalidTransactionId)"
  unfolding HeapTupleHeaderGetXvac_def HEAP_MOVED_def flag_values mask_bit single_bit by simp

lemma set_bit_flag:
  fixes m :: uint16
  shows "k < 16 \<Longrightarrow> bit (m OR push_bit k 1) n \<longleftrightarrow> bit m n \<or> n = k"
    and "k < 16 \<Longrightarrow> bit (m AND NOT (push_bit k 1)) n \<longleftrightarrow> bit m n \<and> n \<noteq> k"
  by (auto simp: bit_simps dest: bit_imp_le_length)

lemma hint_set [flag_simps]:
  "bit (m OR HEAP_XMIN_COMMITTED) n \<longleftrightarrow> bit m n \<or> n = 8"
  "bit (m OR HEAP_XMIN_INVALID) n \<longleftrightarrow> bit m n \<or> n = 9"
  "bit (m OR HEAP_XMAX_COMMITTED) n \<longleftrightarrow> bit m n \<or> n = 10"
  "bit (m OR HEAP_XMAX_INVALID) n \<longleftrightarrow> bit m n \<or> n = 11"
  "bit (m OR HEAP_COMBOCID) n \<longleftrightarrow> bit m n \<or> n = 5"
  "bit (m AND NOT HEAP_COMBOCID) n \<longleftrightarrow> bit m n \<and> n \<noteq> 5"
  unfolding flag_values by (simp_all only: set_bit_flag)

end
