(* ===== verification/ComboCid.thy ===== *)
theory ComboCid
  imports TupleHeader
begin

section \<open>Combo command ids\<close>

text \<open>
  \<open>src/backend/utils/time/combocid.c\<close>: a tuple header has room for one command id; a tuple that
  is inserted and deleted by the same transaction stores a combo command id, which stands for the
  pair of the inserting and the deleting command. The state of the backend is the array of pairs
  (its used part is the list \<open>comboCids\<close>, so \<open>usedComboCids\<close> is its length), the allocated size,
  and the hash table from pairs to combo command ids, which does not exist before the first use.
  Parallel workers get a copy of the state by serializing and restoring it; the serialized form
  is a sequence of 32-bit words: the number of pairs, then the pairs.
\<close>

subsection \<open>State and operations\<close>

datatype ComboCidKeyData = ComboCidKeyData (key_cmin: CommandId) (key_cmax: CommandId)

record ComboCidState =
  comboHash :: "(ComboCidKeyData \<rightharpoonup> CommandId) option"
  comboCids :: "ComboCidKeyData list"
  sizeComboCids :: nat

definition usedComboCids :: "ComboCidState \<Rightarrow> nat" where
  "usedComboCids s = length (comboCids s)"

definition CCID_ARRAY_SIZE :: nat where
  "CCID_ARRAY_SIZE = 100"

definition AtEOXact_ComboCid :: ComboCidState where
  "AtEOXact_ComboCid = \<lparr>comboHash = None, comboCids = [], sizeComboCids = 0\<rparr>"

text \<open>Creating the table on the first use, and growing the array when it has no free slot.\<close>

definition combo_prepare :: "ComboCidState \<Rightarrow> ComboCidState" where
  "combo_prepare s =
     (let s = (case comboHash s of
                 None \<Rightarrow> s\<lparr>comboHash := Some Map.empty, comboCids := [], sizeComboCids := CCID_ARRAY_SIZE\<rparr>
               | Some _ \<Rightarrow> s)
      in if usedComboCids s \<ge> sizeComboCids s then s\<lparr>sizeComboCids := sizeComboCids s * 2\<rparr> else s)"

definition GetComboCommandId :: "CommandId \<Rightarrow> CommandId \<Rightarrow> ComboCidState \<Rightarrow> CommandId \<times> ComboCidState" where
  "GetComboCommandId cmin cmax s =
     (let s = combo_prepare s;
          key = ComboCidKeyData cmin cmax;
          h = (case comboHash s of Some h \<Rightarrow> h | None \<Rightarrow> Map.empty)
      in case h key of
           Some combocid \<Rightarrow> (combocid, s)
         | None \<Rightarrow>
             (let combocid = of_nat (usedComboCids s)
              in (combocid, s\<lparr>comboHash := Some (h(key \<mapsto> combocid)), comboCids := comboCids s @ [key]\<rparr>)))"

definition GetRealCmin :: "ComboCidState \<Rightarrow> CommandId \<Rightarrow> CommandId" where
  "GetRealCmin s combocid = key_cmin (comboCids s ! unat combocid)"

definition GetRealCmax :: "ComboCidState \<Rightarrow> CommandId \<Rightarrow> CommandId" where
  "GetRealCmax s combocid = key_cmax (comboCids s ! unat combocid)"

definition HeapTupleHeaderGetCmin :: "ComboCidState \<Rightarrow> HeapTupleHeader \<Rightarrow> CommandId" where
  "HeapTupleHeaderGetCmin s tup =
     (let cid = HeapTupleHeaderGetRawCommandId tup
      in if t_infomask tup AND HEAP_COMBOCID \<noteq> 0 then GetRealCmin s cid else cid)"

definition HeapTupleHeaderGetCmax :: "ComboCidState \<Rightarrow> HeapTupleHeader \<Rightarrow> CommandId" where
  "HeapTupleHeaderGetCmax s tup =
     (let cid = HeapTupleHeaderGetRawCommandId tup
      in if t_infomask tup AND HEAP_COMBOCID \<noteq> 0 then GetRealCmax s cid else cid)"

text \<open>\<open>is_current\<close> is \<open>TransactionIdIsCurrentTransactionId\<close> of the backend.\<close>

definition HeapTupleHeaderAdjustCmax ::
  "(TransactionId \<Rightarrow> bool) \<Rightarrow> HeapTupleHeader \<Rightarrow> CommandId \<Rightarrow> ComboCidState \<Rightarrow> CommandId \<times> bool \<times> ComboCidState" where
  "HeapTupleHeaderAdjustCmax is_current tup cmax s =
     (if \<not> HeapTupleHeaderXminCommitted tup \<and> is_current (HeapTupleHeaderGetRawXmin tup) then
        (let cmin = HeapTupleHeaderGetCmin s tup;
             (cid, s') = GetComboCommandId cmin cmax s
         in (cid, True, s'))
      else (cmax, False, s))"

subsection \<open>Serialization\<close>

datatype combo_error = NotEnoughSpace | UnexpectedCommandId

definition EstimateComboCIDStateSpace :: "ComboCidState \<Rightarrow> nat" where
  "EstimateComboCIDStateSpace s = 4 + 8 * usedComboCids s"

definition SerializeComboCIDState :: "nat \<Rightarrow> ComboCidState \<Rightarrow> combo_error + uint32 list" where
  "SerializeComboCIDState maxsize s =
     (if 4 + 8 * usedComboCids s > maxsize then Inl NotEnoughSpace
      else Inr (of_nat (usedComboCids s) # concat (map (\<lambda>k. [key_cmin k, key_cmax k]) (comboCids s))))"

fun restore_combo_cids :: "nat \<Rightarrow> nat \<Rightarrow> uint32 list \<Rightarrow> ComboCidState \<Rightarrow> combo_error + ComboCidState" where
  "restore_combo_cids 0 i keydata s = Inr s"
| "restore_combo_cids (Suc n) i keydata s =
     (let (cid, s') = GetComboCommandId (keydata ! 0) (keydata ! 1) s
      in if cid \<noteq> of_nat i then Inl UnexpectedCommandId
         else restore_combo_cids n (i + 1) (drop 2 keydata) s')"

definition RestoreComboCIDState :: "uint32 list \<Rightarrow> ComboCidState \<Rightarrow> combo_error + ComboCidState" where
  "RestoreComboCIDState comboCIDstate s =
     (let num_elements = unat (comboCIDstate ! 0); keydata = drop 1 comboCIDstate
      in restore_combo_cids num_elements 0 keydata s)"

subsection \<open>The table and the array agree\<close>

definition combo_inv :: "ComboCidState \<Rightarrow> bool" where
  "combo_inv s \<longleftrightarrow> length (comboCids s) < 2147483648 \<and> length (comboCids s) \<le> sizeComboCids s
     \<and> (case comboHash s of
          None \<Rightarrow> comboCids s = []
        | Some h \<Rightarrow> sizeComboCids s > 0
            \<and> (\<forall>k c. h k = Some c \<longleftrightarrow> unat c < length (comboCids s) \<and> comboCids s ! unat c = k))"

lemma combo_inv_empty: "combo_inv AtEOXact_ComboCid"
  by (simp add: combo_inv_def AtEOXact_ComboCid_def)

lemma combo_prepare_inv:
  assumes "combo_inv s"
  shows "combo_inv (combo_prepare s) \<and> comboCids (combo_prepare s) = comboCids s
    \<and> length (comboCids s) < sizeComboCids (combo_prepare s)
    \<and> (\<exists>h. comboHash (combo_prepare s) = Some h)"
  using assms
  by (auto simp: combo_prepare_def combo_inv_def usedComboCids_def CCID_ARRAY_SIZE_def Let_def
      split: option.splits)

lemma GetComboCommandId_resolves:
  assumes "combo_inv s" and "length (comboCids s) < 2147483647"
    and "GetComboCommandId cmin cmax s = (cid, s')"
  shows "combo_inv s' \<and> unat cid < length (comboCids s') \<and> comboCids s' ! unat cid = ComboCidKeyData cmin cmax
    \<and> (\<exists>ys. comboCids s' = comboCids s @ ys)"
proof -
  let ?p = "combo_prepare s" and ?k = "ComboCidKeyData cmin cmax"
  note p = combo_prepare_inv [OF assms(1)]
  then obtain h where h: "comboHash ?p = Some h" by blast
  with p have hk: "h k = Some c \<longleftrightarrow> unat c < length (comboCids s) \<and> comboCids s ! unat c = k" for k c
    by (auto simp: combo_inv_def)
  show ?thesis
  proof (cases "h ?k")
    case None
    let ?n = "of_nat (length (comboCids s)) :: CommandId"
    have n: "unat ?n = length (comboCids s)" using assms(2) by (simp add: unat_of_nat)
    have new: "(h(?k \<mapsto> ?n)) k = Some c \<longleftrightarrow>
        unat c < Suc (length (comboCids s)) \<and> (comboCids s @ [?k]) ! unat c = k" for k c
    proof (cases "unat c = length (comboCids s)")
      case True
      then have "c = ?n" using n by (metis word_unat_eq_iff)
      with None hk n show ?thesis by (auto simp: nth_append)
    next
      case False
      then have "c \<noteq> ?n" using n by auto
      moreover have "\<not> (unat c < length (comboCids s) \<and> comboCids s ! unat c = ?k)"
        using hk [of ?k c] None by simp
      ultimately show ?thesis using hk False by (auto simp: nth_append less_Suc_eq)
    qed
    from None assms(3) h p have "cid = ?n"
      "s' = ?p\<lparr>comboHash := Some (h(?k \<mapsto> ?n)), comboCids := comboCids s @ [?k]\<rparr>"
      by (auto simp: GetComboCommandId_def usedComboCids_def Let_def)
    with p new n assms(2) show ?thesis by (simp add: combo_inv_def)
  next
    case (Some c)
    with assms(3) h have "cid = c" "s' = ?p" by (simp_all add: GetComboCommandId_def Let_def)
    with Some hk p show ?thesis by simp
  qed
qed

text \<open>
  C27: combo command ids resolve to what they stand for, for the rest of the transaction. After
  \<open>GetComboCommandId\<close> the id it returned resolves to the given pair, every id given out before
  resolves to the same pair as before, and the hash table again holds exactly the pairs of the
  array, so that asking for the same pair again returns the same id.
\<close>

theorem GetComboCommandId_correct:
  assumes "combo_inv s" and "usedComboCids s < 2147483647"
    and "GetComboCommandId cmin cmax s = (cid, s')"
  shows "combo_inv s' \<and> GetRealCmin s' cid = cmin \<and> GetRealCmax s' cid = cmax
    \<and> (\<forall>c. unat c < usedComboCids s \<longrightarrow> GetRealCmin s' c = GetRealCmin s c \<and> GetRealCmax s' c = GetRealCmax s c)
    \<and> fst (GetComboCommandId cmin cmax s') = cid"
proof -
  have r: "combo_inv s'" "unat cid < length (comboCids s')" "comboCids s' ! unat cid = ComboCidKeyData cmin cmax"
    "\<exists>ys. comboCids s' = comboCids s @ ys"
    using GetComboCommandId_resolves [OF assms(1) _ assms(3)] assms(2) by (simp_all add: usedComboCids_def)
  note p = combo_prepare_inv [OF r(1)]
  then obtain h where h: "comboHash (combo_prepare s') = Some h" by blast
  with p have "h k = Some c \<longleftrightarrow> unat c < length (comboCids s') \<and> comboCids s' ! unat c = k" for k c
    by (auto simp: combo_inv_def)
  with r have "h (ComboCidKeyData cmin cmax) = Some cid" by blast
  with h have "fst (GetComboCommandId cmin cmax s') = cid"
    by (simp add: GetComboCommandId_def Let_def)
  with r show ?thesis by (auto simp: GetRealCmin_def GetRealCmax_def usedComboCids_def nth_append)
qed

theorem GetComboCommandId_correct_witness:
  "let (c1, s1) = GetComboCommandId 4 9 AtEOXact_ComboCid; (c2, s2) = GetComboCommandId 5 9 s1
   in c1 \<noteq> c2 \<and> GetRealCmin s2 c1 = 4 \<and> GetRealCmin s2 c2 = 5 \<and> GetRealCmax s2 c2 = 9 \<and> combo_inv s2"
proof -
  obtain s1 where 1: "GetComboCommandId 4 9 AtEOXact_ComboCid = (0, s1)" "comboCids s1 = [ComboCidKeyData 4 9]"
    by (simp add: GetComboCommandId_def combo_prepare_def AtEOXact_ComboCid_def usedComboCids_def
        CCID_ARRAY_SIZE_def Let_def)
  obtain c2 s2 where 2: "GetComboCommandId 5 9 s1 = (c2, s2)" by fastforce
  have "combo_inv s1"
    using GetComboCommandId_correct [OF combo_inv_empty _ 1(1)] by (simp add: usedComboCids_def AtEOXact_ComboCid_def)
  from GetComboCommandId_correct [OF this _ 2] have r: "combo_inv s2" "GetRealCmin s2 c2 = 5" "GetRealCmax s2 c2 = 9"
    "\<And>c. unat c < usedComboCids s1 \<Longrightarrow> GetRealCmin s2 c = GetRealCmin s1 c"
    by (simp_all add: usedComboCids_def 1(2))
  from r(4) [of 0] have "GetRealCmin s2 0 = 4" by (simp add: usedComboCids_def 1(2) GetRealCmin_def)
  with r(1-3) 2 show ?thesis unfolding 1(1) by auto
qed

lemma combo_bit: "t_infomask t AND HEAP_COMBOCID \<noteq> 0 \<longleftrightarrow> bit (t_infomask t) 5"
  by (simp add: flag_simps)

text \<open>
  C28: deleting a tuple keeps both command ids readable. When a transaction deletes a tuple with
  \<open>HeapTupleHeaderAdjustCmax\<close> followed by \<open>HeapTupleHeaderSetCmax\<close>, the deleting command reads
  back as given; and if the same transaction had inserted the tuple, the inserting command still
  reads back as before.
\<close>

theorem AdjustCmax_SetCmax_roundtrip:
  assumes "combo_inv s" and "usedComboCids s < 2147483647"
    and "HeapTupleHeaderAdjustCmax is_current tup cmax s = (cid, iscombo, s')"
  shows "HeapTupleHeaderGetCmax s' (HeapTupleHeaderSetCmax tup cid iscombo) = cmax
    \<and> (\<not> HeapTupleHeaderXminCommitted tup \<and> is_current (t_xmin tup) \<longrightarrow>
        HeapTupleHeaderGetCmin s' (HeapTupleHeaderSetCmax tup cid iscombo) = HeapTupleHeaderGetCmin s tup)"
proof (cases "\<not> HeapTupleHeaderXminCommitted tup \<and> is_current (t_xmin tup)")
  case True
  then have g: "GetComboCommandId (HeapTupleHeaderGetCmin s tup) cmax s = (cid, s')" "iscombo"
    using assms(3) by (auto simp: HeapTupleHeaderAdjustCmax_def split: prod.splits)
  have "comboCids s' ! unat cid = ComboCidKeyData (HeapTupleHeaderGetCmin s tup) cmax"
    using GetComboCommandId_resolves [OF assms(1) _ g(1)] assms(2) by (simp add: usedComboCids_def)
  with g(2) show ?thesis
    unfolding HeapTupleHeaderGetCmax_def HeapTupleHeaderGetCmin_def combo_bit HeapTupleHeaderSetCmax_def
    by (simp add: GetRealCmin_def GetRealCmax_def hint_set)
next
  case False
  with assms(3) have "cid = cmax" "\<not> iscombo" by (auto simp: HeapTupleHeaderAdjustCmax_def)
  with False show ?thesis
    unfolding HeapTupleHeaderGetCmax_def combo_bit HeapTupleHeaderSetCmax_def by (auto simp: hint_set)
qed

theorem AdjustCmax_SetCmax_roundtrip_witness:
  "let tup = \<lparr>t_xmin = 77, t_xmax = 0, t_field3 = 4, t_ctid = ItemPointerSet 0 1, t_infomask2 = 2,
              t_infomask = HEAP_XMAX_INVALID\<rparr>;
       (cid, iscombo, s) = HeapTupleHeaderAdjustCmax (\<lambda>x. x = 77) tup 9 AtEOXact_ComboCid;
       tup' = HeapTupleHeaderSetCmax tup cid iscombo
   in iscombo \<and> HeapTupleHeaderGetCmin s tup' = 4 \<and> HeapTupleHeaderGetCmax s tup' = 9"
proof -
  let ?tup = "\<lparr>t_xmin = 77, t_xmax = 0, t_field3 = 4, t_ctid = ItemPointerSet 0 1, t_infomask2 = 2,
     t_infomask = HEAP_XMAX_INVALID\<rparr>"
  obtain cid iscombo s where a: "HeapTupleHeaderAdjustCmax (\<lambda>x. x = 77) ?tup 9 AtEOXact_ComboCid = (cid, iscombo, s)"
    by (metis prod.exhaust)
  have h: "\<not> HeapTupleHeaderXminCommitted ?tup" "t_infomask ?tup AND HEAP_COMBOCID = 0"
    by (simp_all add: HeapTupleHeaderXminCommitted_def HEAP_XMAX_INVALID_def HEAP_XMIN_COMMITTED_def HEAP_COMBOCID_def)
  with a have "iscombo" "HeapTupleHeaderGetCmin AtEOXact_ComboCid ?tup = 4"
    by (auto simp: HeapTupleHeaderAdjustCmax_def HeapTupleHeaderGetCmin_def split: prod.splits)
  with AdjustCmax_SetCmax_roundtrip [OF combo_inv_empty _ a] h a show ?thesis
    by (simp add: usedComboCids_def AtEOXact_ComboCid_def)
qed

subsection \<open>Serialize and restore\<close>

definition combo_words :: "ComboCidKeyData list \<Rightarrow> uint32 list" where
  "combo_words ks = concat (map (\<lambda>k. [key_cmin k, key_cmax k]) ks)"

lemma GetComboCommandId_new:
  assumes "combo_inv s" and "length (comboCids s) < 2147483647" and "ComboCidKeyData cmin cmax \<notin> set (comboCids s)"
    and "GetComboCommandId cmin cmax s = (cid, s')"
  shows "cid = of_nat (length (comboCids s)) \<and> comboCids s' = comboCids s @ [ComboCidKeyData cmin cmax] \<and> combo_inv s'"
proof -
  note p = combo_prepare_inv [OF assms(1)]
  then obtain h where h: "comboHash (combo_prepare s) = Some h" by blast
  with p have "h k = Some c \<longleftrightarrow> unat c < length (comboCids s) \<and> comboCids s ! unat c = k" for k c
    by (auto simp: combo_inv_def)
  with assms(3) have "h (ComboCidKeyData cmin cmax) = None"
    by (metis not_None_eq nth_mem)
  with assms(4) h p have "cid = of_nat (length (comboCids s))" "comboCids s' = comboCids s @ [ComboCidKeyData cmin cmax]"
    by (auto simp: GetComboCommandId_def usedComboCids_def Let_def)
  with GetComboCommandId_resolves [OF assms(1,2,4)] show ?thesis by blast
qed

lemma restore_combo_cids_words:
  assumes "combo_inv s" and "distinct (comboCids s @ ks)" and "length (comboCids s @ ks) < 2147483647"
  shows "\<exists>s'. restore_combo_cids (length ks) (length (comboCids s)) (combo_words ks) s = Inr s'
    \<and> combo_inv s' \<and> comboCids s' = comboCids s @ ks"
  using assms
proof (induction ks arbitrary: s)
  case Nil
  then show ?case by simp
next
  case (Cons k ks)
  obtain cid s1 where g: "GetComboCommandId (key_cmin k) (key_cmax k) s = (cid, s1)" by fastforce
  with Cons.prems GetComboCommandId_new [of s "key_cmin k" "key_cmax k"]
  have 1: "cid = of_nat (length (comboCids s))" "comboCids s1 = comboCids s @ [k]" "combo_inv s1" by simp_all
  moreover from 1 Cons.prems Cons.IH [of s1] obtain s' where
    "restore_combo_cids (length ks) (length (comboCids s1)) (combo_words ks) s1 = Inr s'"
    "combo_inv s'" "comboCids s' = comboCids s1 @ ks" by auto
  ultimately show ?case using g by (simp add: combo_words_def)
qed

text \<open>
  C29: a parallel worker resolves combo command ids as the leader does. Serializing the state into
  the estimated space succeeds, restoring it in a backend without combo command ids succeeds, and
  the restored state has the same pair for every combo command id.
\<close>

theorem ComboCIDState_serialize_restore:
  assumes "combo_inv s" and "usedComboCids s < 2147483647"
  shows "\<exists>words s'. SerializeComboCIDState (EstimateComboCIDStateSpace s) s = Inr words
    \<and> RestoreComboCIDState words AtEOXact_ComboCid = Inr s' \<and> combo_inv s'
    \<and> usedComboCids s' = usedComboCids s
    \<and> GetRealCmin s' = GetRealCmin s \<and> GetRealCmax s' = GetRealCmax s"
proof -
  have "distinct (comboCids s)"
  proof (cases "comboHash s")
    case None
    with assms(1) show ?thesis by (simp add: combo_inv_def)
  next
    case (Some h)
    with assms(1) have hk: "h k = Some c \<longleftrightarrow> unat c < length (comboCids s) \<and> comboCids s ! unat c = k" for k c
      by (simp add: combo_inv_def)
    have u: "unat (of_nat i :: CommandId) = i" if "i < length (comboCids s)" for i
      using that assms(2) by (simp add: unat_of_nat usedComboCids_def)
    show ?thesis unfolding distinct_conv_nth
    proof (intro allI impI)
      fix i j assume ij: "i < length (comboCids s)" "j < length (comboCids s)" "i \<noteq> j"
      then have "h (comboCids s ! i) = Some (of_nat i)" "h (comboCids s ! j) = Some (of_nat j)"
        by (simp_all add: hk u)
      then show "comboCids s ! i \<noteq> comboCids s ! j" using u ij by (metis option.inject)
    qed
  qed
  then obtain s' where s': "restore_combo_cids (length (comboCids s)) 0 (combo_words (comboCids s)) AtEOXact_ComboCid = Inr s'"
    "combo_inv s'" "comboCids s' = comboCids s"
    using restore_combo_cids_words [OF combo_inv_empty, of "comboCids s"] assms(2)
    by (auto simp: AtEOXact_ComboCid_def usedComboCids_def)
  moreover have "unat (of_nat (usedComboCids s) :: uint32) = length (comboCids s)"
    using assms(2) by (simp add: unat_of_nat usedComboCids_def)
  ultimately show ?thesis
    by (intro exI [of _ "of_nat (usedComboCids s) # combo_words (comboCids s)"] exI [of _ s'])
      (simp add: SerializeComboCIDState_def EstimateComboCIDStateSpace_def RestoreComboCIDState_def
        usedComboCids_def combo_words_def GetRealCmin_def GetRealCmax_def fun_eq_iff)
qed

theorem ComboCIDState_serialize_restore_witness:
  "let s = snd (GetComboCommandId 4 9 AtEOXact_ComboCid)
   in \<exists>words s'. SerializeComboCIDState (EstimateComboCIDStateSpace s) s = Inr words
        \<and> RestoreComboCIDState words AtEOXact_ComboCid = Inr s' \<and> GetRealCmin s' 0 = 4"
proof -
  obtain s where g: "GetComboCommandId 4 9 AtEOXact_ComboCid = (0, s)" "comboCids s = [ComboCidKeyData 4 9]"
    by (simp add: GetComboCommandId_def combo_prepare_def AtEOXact_ComboCid_def usedComboCids_def
        CCID_ARRAY_SIZE_def Let_def)
  have "combo_inv s"
    using GetComboCommandId_resolves [OF combo_inv_empty _ g(1)] by (simp add: AtEOXact_ComboCid_def)
  from ComboCIDState_serialize_restore [OF this] g have "\<exists>words s'.
      SerializeComboCIDState (EstimateComboCIDStateSpace s) s = Inr words
      \<and> RestoreComboCIDState words AtEOXact_ComboCid = Inr s' \<and> GetRealCmin s' = GetRealCmin s"
    by (auto simp: usedComboCids_def)
  moreover have "GetRealCmin s 0 = 4" by (simp add: GetRealCmin_def g(2))
  ultimately show ?thesis unfolding Let_def g(1) snd_conv by metis
qed

end
