(* ===== verification/VarSup.thy ===== *)
theory VarSup
  imports SubTrans
begin

section \<open>Assignment of transaction ids and object ids\<close>

text \<open>
  The shared variable cache and its operations, from \<open>src/backend/access/transam/varsup.c\<close> and
  \<open>src/include/access/transam.h\<close>: assigning the next transaction id, with the checks that stop
  assignment before the id space wraps around, computing the limits of these checks, advancing
  past an id seen in recovery, and assigning object ids. What the process asks of its
  environment (bootstrap, recovery, parallel or standalone mode) is an argument; signals and
  warnings are a list of events; an error is the left value of a sum. While
  \<open>GetNewTransactionId\<close> reports a limit it releases \<open>XidGenLock\<close>: what other backends do to
  the shared state meanwhile is the function \<open>others\<close>.
\<close>

subsection \<open>State\<close>

record VariableCache =
  nextOid :: Oid
  oidCount :: uint32
  nextXid :: FullTransactionId
  oldestXid :: TransactionId
  xidVacLimit :: TransactionId
  xidWarnLimit :: TransactionId
  xidStopLimit :: TransactionId
  xidWrapLimit :: TransactionId
  oldestXidDB :: Oid
  oldestCommitTsXid :: TransactionId
  newestCommitTsXid :: TransactionId
  latestCompletedXid :: FullTransactionId
  xactCompletionCount :: uint64
  oldestClogXid :: TransactionId

text \<open>The commit timestamp pages, of which only the extension by a new page concerns id assignment.\<close>

record CommitTsSlru =
  commitTsActive :: bool
  cts_buffer :: "nat \<Rightarrow> nat \<Rightarrow> uint8"
  cts_dirty :: "nat \<Rightarrow> bool"
  cts_latest_page :: nat

text \<open>The entry of the dense arrays of \<open>ProcGlobal\<close> that mirrors the fields of a \<open>PGPROC\<close>.\<close>

record ProcGlobalEntry =
  pg_xid :: TransactionId
  pg_subcount :: nat
  pg_suboverflowed :: bool

record XidGenState =
  vcache :: VariableCache
  xact_slru :: XactSlru
  sub_slru :: SubTransSlru
  cts_slru :: CommitTsSlru
  MyProc :: PGPROC
  MyGlobal :: ProcGlobalEntry

record process_mode =
  IsInParallelMode :: bool
  IsBootstrapProcessingMode :: bool
  RecoveryInProgress :: bool
  IsUnderPostmaster :: bool

datatype varsup_error = CannotAssignInParallel | CannotAssignInRecovery | WraparoundStop Oid
  | CannotAdvanceOid | TooLateToAdvanceOid Oid Oid

datatype varsup_event = StartAutovacLauncher | WraparoundWarning Oid uint32

subsection \<open>Commit timestamps\<close>

definition COMMIT_TS_XACTS_PER_PAGE :: nat where
  "COMMIT_TS_XACTS_PER_PAGE = BLCKSZ div 10"

definition TransactionIdToCTsPage :: "TransactionId \<Rightarrow> nat" where
  "TransactionIdToCTsPage xid = unat xid div COMMIT_TS_XACTS_PER_PAGE"

definition TransactionIdToCTsEntry :: "TransactionId \<Rightarrow> nat" where
  "TransactionIdToCTsEntry xid = unat xid mod COMMIT_TS_XACTS_PER_PAGE"

definition ZeroCommitTsPage :: "nat \<Rightarrow> CommitTsSlru \<Rightarrow> CommitTsSlru" where
  "ZeroCommitTsPage pageno s =
     s\<lparr>cts_buffer := (cts_buffer s)(pageno := (\<lambda>_. 0)), cts_dirty := (cts_dirty s)(pageno := True),
       cts_latest_page := pageno\<rparr>"

definition ExtendCommitTs :: "TransactionId \<Rightarrow> CommitTsSlru \<Rightarrow> CommitTsSlru" where
  "ExtendCommitTs newestXact s =
     (if \<not> commitTsActive s then s
      else if TransactionIdToCTsEntry newestXact \<noteq> 0 \<and> newestXact \<noteq> FirstNormalTransactionId then s
      else ZeroCommitTsPage (TransactionIdToCTsPage newestXact) s)"

subsection \<open>Assigning a transaction id\<close>

definition PGPROC_MAX_CACHED_SUBXIDS :: nat where
  "PGPROC_MAX_CACHED_SUBXIDS = 64"

text \<open>Storing the new id in the shared arrays, as a top-level id or in the cache of subtransactions.\<close>

definition store_new_xid :: "bool \<Rightarrow> TransactionId \<Rightarrow> XidGenState \<Rightarrow> XidGenState" where
  "store_new_xid isSubXact xid st =
     (if \<not> isSubXact then
        st\<lparr>MyProc := (MyProc st)\<lparr>proc_xid := xid\<rparr>, MyGlobal := (MyGlobal st)\<lparr>pg_xid := xid\<rparr>\<rparr>
      else
        (let nxids = length (proc_subxids (MyProc st))
         in if nxids < PGPROC_MAX_CACHED_SUBXIDS then
              st\<lparr>MyProc := (MyProc st)\<lparr>proc_subxids := proc_subxids (MyProc st) @ [xid]\<rparr>,
                 MyGlobal := (MyGlobal st)\<lparr>pg_subcount := nxids + 1\<rparr>\<rparr>
            else
              st\<lparr>MyProc := (MyProc st)\<lparr>proc_suboverflowed := True\<rparr>,
                 MyGlobal := (MyGlobal st)\<lparr>pg_suboverflowed := True\<rparr>\<rparr>))"

text \<open>The part that runs under the lock once the limits are checked.\<close>

definition assign_next_xid :: "bool \<Rightarrow> XidGenState \<Rightarrow> FullTransactionId \<times> XidGenState" where
  "assign_next_xid isSubXact st =
     (let full_xid = nextXid (vcache st);
          xid = XidFromFullTransactionId full_xid;
          st = st\<lparr>xact_slru := ExtendCLOG xid (xact_slru st),
                  cts_slru := ExtendCommitTs xid (cts_slru st),
                  sub_slru := ExtendSUBTRANS xid (sub_slru st)\<rparr>;
          st = st\<lparr>vcache := (vcache st)\<lparr>nextXid := FullTransactionIdAdvance (nextXid (vcache st))\<rparr>\<rparr>
      in (full_xid, store_new_xid isSubXact xid st))"

definition GetNewTransactionId ::
  "process_mode \<Rightarrow> (XidGenState \<Rightarrow> XidGenState) \<Rightarrow> bool \<Rightarrow> XidGenState \<Rightarrow>
   varsup_event list \<times> (varsup_error + FullTransactionId \<times> XidGenState)" where
  "GetNewTransactionId mode others isSubXact st =
     (if IsInParallelMode mode then ([], Inl CannotAssignInParallel)
      else if IsBootstrapProcessingMode mode then
        ([], Inr (FullTransactionIdFromEpochAndXid 0 BootstrapTransactionId,
                  st\<lparr>MyProc := (MyProc st)\<lparr>proc_xid := BootstrapTransactionId\<rparr>,
                     MyGlobal := (MyGlobal st)\<lparr>pg_xid := BootstrapTransactionId\<rparr>\<rparr>))
      else if RecoveryInProgress mode then ([], Inl CannotAssignInRecovery)
      else
        (let vc = vcache st;
             xid = XidFromFullTransactionId (nextXid vc)
         in if TransactionIdFollowsOrEquals xid (xidVacLimit vc) then
              (let sig = (if IsUnderPostmaster mode \<and> xid mod 65536 = 0 then [StartAutovacLauncher] else [])
               in if IsUnderPostmaster mode \<and> TransactionIdFollowsOrEquals xid (xidStopLimit vc)
                  then (sig, Inl (WraparoundStop (oldestXidDB vc)))
                  else
                    (let warn = (if TransactionIdFollowsOrEquals xid (xidWarnLimit vc)
                                 then [WraparoundWarning (oldestXidDB vc) (xidWrapLimit vc - xid)] else [])
                     in (sig @ warn, Inr (assign_next_xid isSubXact (others st)))))
            else ([], Inr (assign_next_xid isSubXact st))))"

definition ReadNextFullTransactionId :: "VariableCache \<Rightarrow> FullTransactionId" where
  "ReadNextFullTransactionId vc = nextXid vc"

definition ReadNextTransactionId :: "VariableCache \<Rightarrow> TransactionId" where
  "ReadNextTransactionId vc = XidFromFullTransactionId (ReadNextFullTransactionId vc)"

definition AdvanceNextFullTransactionIdPastXid :: "TransactionId \<Rightarrow> VariableCache \<Rightarrow> VariableCache" where
  "AdvanceNextFullTransactionIdPastXid xid vc =
     (let next_xid = XidFromFullTransactionId (nextXid vc)
      in if \<not> TransactionIdFollowsOrEquals xid next_xid then vc
         else
           (let xid = TransactionIdAdvance xid;
                epoch = EpochFromFullTransactionId (nextXid vc);
                epoch = (if xid < next_xid then epoch + 1 else epoch)
            in vc\<lparr>nextXid := FullTransactionIdFromEpochAndXid epoch xid\<rparr>))"

definition AdvanceOldestClogXid :: "TransactionId \<Rightarrow> VariableCache \<Rightarrow> VariableCache" where
  "AdvanceOldestClogXid oldest_datfrozenxid vc =
     (if TransactionIdPrecedes (oldestClogXid vc) oldest_datfrozenxid
      then vc\<lparr>oldestClogXid := oldest_datfrozenxid\<rparr> else vc)"

subsection \<open>The limits\<close>

definition compute_xidWrapLimit :: "TransactionId \<Rightarrow> TransactionId" where
  "compute_xidWrapLimit oldest =
     (let l = oldest + drop_bit 1 MaxTransactionId
      in if l < FirstNormalTransactionId then l + FirstNormalTransactionId else l)"

definition compute_xidStopLimit :: "TransactionId \<Rightarrow> TransactionId" where
  "compute_xidStopLimit wrap =
     (let l = wrap - 3000000
      in if l < FirstNormalTransactionId then l - FirstNormalTransactionId else l)"

definition compute_xidWarnLimit :: "TransactionId \<Rightarrow> TransactionId" where
  "compute_xidWarnLimit wrap =
     (let l = wrap - 40000000
      in if l < FirstNormalTransactionId then l - FirstNormalTransactionId else l)"

definition compute_xidVacLimit :: "uint32 \<Rightarrow> TransactionId \<Rightarrow> TransactionId" where
  "compute_xidVacLimit autovacuum_freeze_max_age oldest =
     (let l = oldest + autovacuum_freeze_max_age
      in if l < FirstNormalTransactionId then l + FirstNormalTransactionId else l)"

definition SetTransactionIdLimit ::
  "process_mode \<Rightarrow> bool \<Rightarrow> uint32 \<Rightarrow> TransactionId \<Rightarrow> Oid \<Rightarrow> VariableCache \<Rightarrow> varsup_event list \<times> VariableCache" where
  "SetTransactionIdLimit mode InRecovery autovacuum_freeze_max_age oldest_datfrozenxid oldest_datoid vc =
     (let wrap = compute_xidWrapLimit oldest_datfrozenxid;
          stop = compute_xidStopLimit wrap;
          warn = compute_xidWarnLimit wrap;
          vac = compute_xidVacLimit autovacuum_freeze_max_age oldest_datfrozenxid;
          vc = vc\<lparr>oldestXid := oldest_datfrozenxid, xidVacLimit := vac, xidWarnLimit := warn,
                  xidStopLimit := stop, xidWrapLimit := wrap, oldestXidDB := oldest_datoid\<rparr>;
          curXid = XidFromFullTransactionId (nextXid vc);
          sig = (if TransactionIdFollowsOrEquals curXid vac \<and> IsUnderPostmaster mode \<and> \<not> InRecovery
                 then [StartAutovacLauncher] else []);
          msg = (if TransactionIdFollowsOrEquals curXid warn \<and> \<not> InRecovery
                 then [WraparoundWarning oldest_datoid (wrap - curXid)] else [])
      in (sig @ msg, vc))"

text \<open>\<open>database_exists\<close> is the catalog lookup of \<open>SearchSysCacheExists1\<close>.\<close>

definition ForceTransactionIdLimitUpdate :: "(Oid \<Rightarrow> bool) \<Rightarrow> VariableCache \<Rightarrow> bool" where
  "ForceTransactionIdLimitUpdate database_exists vc =
     (let next_xid = XidFromFullTransactionId (nextXid vc)
      in if \<not> TransactionIdIsNormal (oldestXid vc) then True
         else if \<not> TransactionIdIsValid (xidVacLimit vc) then True
         else if TransactionIdFollowsOrEquals next_xid (xidVacLimit vc) then True
         else if \<not> database_exists (oldestXidDB vc) then True
         else False)"

definition AssertTransactionIdInAllowableRange :: "VariableCache \<Rightarrow> TransactionId \<Rightarrow> bool" where
  "AssertTransactionIdInAllowableRange vc xid =
     (TransactionIdIsValid xid \<and>
      (if \<not> TransactionIdIsNormal xid then True
       else TransactionIdFollowsOrEquals xid (oldestXid vc)
            \<or> TransactionIdPrecedesOrEquals xid (XidFromFullTransactionId (nextXid vc))))"

subsection \<open>Assigning an object id\<close>

definition VAR_OID_PREFETCH :: uint32 where
  "VAR_OID_PREFETCH = 8192"

definition FirstGenbkiObjectId :: Oid where
  "FirstGenbkiObjectId = 10000"

definition FirstUnpinnedObjectId :: Oid where
  "FirstUnpinnedObjectId = 12000"

definition FirstNormalObjectId :: Oid where
  "FirstNormalObjectId = 16384"

text \<open>The list in the result holds the argument of the call of \<open>XLogPutNextOid\<close>, if there is one.\<close>

definition GetNewObjectId ::
  "bool \<Rightarrow> bool \<Rightarrow> VariableCache \<Rightarrow> varsup_error + (Oid \<times> Oid list \<times> VariableCache)" where
  "GetNewObjectId recovery IsPostmasterEnvironment vc =
     (if recovery then Inl CannotAssignInRecovery
      else
        (let vc = (if nextOid vc < FirstNormalObjectId then
                     (if IsPostmasterEnvironment
                      then vc\<lparr>nextOid := FirstNormalObjectId, oidCount := 0\<rparr>
                      else if nextOid vc < FirstGenbkiObjectId
                      then vc\<lparr>nextOid := FirstNormalObjectId, oidCount := 0\<rparr>
                      else vc)
                   else vc);
             logged = (if oidCount vc = 0 then [nextOid vc + VAR_OID_PREFETCH] else []);
             vc = (if oidCount vc = 0 then vc\<lparr>oidCount := VAR_OID_PREFETCH\<rparr> else vc);
             result = nextOid vc
         in Inr (result, logged, vc\<lparr>nextOid := nextOid vc + 1, oidCount := oidCount vc - 1\<rparr>)))"

definition SetNextObjectId :: "bool \<Rightarrow> Oid \<Rightarrow> VariableCache \<Rightarrow> varsup_error + VariableCache" where
  "SetNextObjectId IsPostmasterEnvironment newOid vc =
     (if IsPostmasterEnvironment then Inl CannotAdvanceOid
      else if nextOid vc > newOid then Inl (TooLateToAdvanceOid newOid (nextOid vc))
      else Inr (vc\<lparr>nextOid := newOid, oidCount := 0\<rparr>))"

definition StopGeneratingPinnedObjectIds :: "bool \<Rightarrow> VariableCache \<Rightarrow> varsup_error + VariableCache" where
  "StopGeneratingPinnedObjectIds IsPostmasterEnvironment vc =
     SetNextObjectId IsPostmasterEnvironment FirstUnpinnedObjectId vc"

subsection \<open>Recovering the epoch\<close>

lemma epoch_step:
  assumes "uint (fxid_value n) < uint (fxid_value y)"
    and "uint (fxid_value y) < uint (fxid_value n) + 4294967296"
  shows "EpochFromFullTransactionId y =
    (if XidFromFullTransactionId y < XidFromFullTransactionId n
     then EpochFromFullTransactionId n + 1 else EpochFromFullTransactionId n)"
proof -
  let ?n = "uint (fxid_value n)" and ?y = "uint (fxid_value y)"
  let ?M = "4294967296 :: int"
  have n: "?n = ?n div ?M * ?M + ?n mod ?M" and y: "?y = ?y div ?M * ?M + ?y mod ?M"
    by simp_all
  have r: "0 \<le> ?n mod ?M" "?n mod ?M < ?M" "0 \<le> ?y mod ?M" "?y mod ?M < ?M" by simp_all
  have lt: "XidFromFullTransactionId y < XidFromFullTransactionId n \<longleftrightarrow> ?y mod ?M < ?n mod ?M"
    by (simp only: word_less_def uint_xid)
  have q: "?y div ?M = (if ?y mod ?M < ?n mod ?M then ?n div ?M + 1 else ?n div ?M)"
  proof (cases "?y mod ?M < ?n mod ?M")
    case True
    with n y r assms have "?y div ?M = ?n div ?M + 1" by linarith
    with True show ?thesis by simp
  next
    case False
    with n y r assms have "?y div ?M = ?n div ?M" by linarith
    with False show ?thesis by simp
  qed
  have "?y div ?M < ?M"
    using uint_bounded [of "fxid_value y"] by (simp add: div_less_iff_less_mult)
  moreover have "0 \<le> ?n div ?M" by (simp add: pos_imp_zdiv_nonneg_iff)
  ultimately have "uint (EpochFromFullTransactionId n + 1) = ?n div ?M + 1"
    if "?y mod ?M < ?n mod ?M"
    using q that by (simp add: uint_word_ariths uint_epoch)
  with q lt show ?thesis
    by (simp add: word_uint_eq_iff uint_epoch)
qed

text \<open>
  Recovery knows only the 32-bit id of a transaction. When that id belongs to a full id
  \<open>X\<close> less than \<open>2 ^ 31\<close> away from the next full id, \<open>AdvanceNextFullTransactionIdPastXid\<close>
  recovers the right epoch: the next full id becomes the successor of \<open>X\<close> if \<open>X\<close> is not before
  it, and stays otherwise. It never moves backwards.
\<close>

theorem AdvanceNextFullTransactionIdPastXid_epoch:
  assumes "TransactionIdIsNormal (XidFromFullTransactionId X)"
    and "TransactionIdIsNormal (XidFromFullTransactionId (nextXid vc))"
    and "\<bar>uint (fxid_value X) - uint (fxid_value (nextXid vc))\<bar> < 2 ^ 31"
    and "uint (fxid_value X) < 2 ^ 64 - 5"
  shows "AdvanceNextFullTransactionIdPastXid (XidFromFullTransactionId X) vc =
    (if FullTransactionIdPrecedes X (nextXid vc) then vc
     else vc\<lparr>nextXid := FullTransactionIdAdvance X\<rparr>)"
proof -
  let ?n = "nextXid vc" and ?Y = "FullTransactionIdAdvance X"
  have f: "TransactionIdFollowsOrEquals (XidFromFullTransactionId X) (XidFromFullTransactionId ?n)
      \<longleftrightarrow> \<not> FullTransactionIdPrecedes X ?n"
    unfolding precedes_not_follows using precedes_full [OF assms(1-3)] by simp
  note adv = full_advance_moves [OF assms(4)]
  show ?thesis
  proof (cases "FullTransactionIdPrecedes X ?n")
    case True
    with f show ?thesis by (simp add: AdvanceNextFullTransactionIdPastXid_def Let_def)
  next
    case False
    then have "uint (fxid_value ?n) \<le> uint (fxid_value X)"
      by (simp add: FullTransactionIdPrecedes_def word_less_def)
    with adv assms(3) have "uint (fxid_value ?n) < uint (fxid_value ?Y)"
      "uint (fxid_value ?Y) < uint (fxid_value ?n) + 4294967296"
      by (auto simp: FullTransactionIdPrecedes_def word_less_def)
    from epoch_step [OF this] have e: "FullTransactionIdFromEpochAndXid
        (if XidFromFullTransactionId ?Y < XidFromFullTransactionId ?n
         then EpochFromFullTransactionId ?n + 1 else EpochFromFullTransactionId ?n)
        (XidFromFullTransactionId ?Y) = ?Y"
      using epoch_xid_roundtrip [of ?Y] by simp
    with f False show ?thesis
      by (simp add: AdvanceNextFullTransactionIdPastXid_def Let_def xid_advance [OF assms(1,4), symmetric])
  qed
qed

theorem AdvanceNextFullTransactionIdPastXid_epoch_witness:
  "nextXid (AdvanceNextFullTransactionIdPastXid 7
     (undefined\<lparr>nextXid := \<lparr>fxid_value = 0x2FFFFFFFF\<rparr>\<rparr>)) = \<lparr>fxid_value = 0x300000008\<rparr>"
proof -
  have "XidFromFullTransactionId \<lparr>fxid_value = 0x300000007\<rparr> = 7" by code_simp
  moreover have "XidFromFullTransactionId \<lparr>fxid_value = 0x2FFFFFFFF\<rparr> = 0xFFFFFFFF" by code_simp
  moreover have "FullTransactionIdAdvance \<lparr>fxid_value = 0x300000007\<rparr> = \<lparr>fxid_value = 0x300000008\<rparr>"
    by code_simp
  ultimately show ?thesis
    using AdvanceNextFullTransactionIdPastXid_epoch
      [of "\<lparr>fxid_value = 0x300000007\<rparr>" "undefined\<lparr>nextXid := \<lparr>fxid_value = 0x2FFFFFFFF\<rparr>\<rparr>"]
    by (simp add: xid_defs FullTransactionIdPrecedes_def)
qed

subsection \<open>The assigned ids stay on one half circle\<close>

text \<open>
  \<open>F\<close> is the full id of the oldest id that may be in a table. The invariant: the next id is
  less than half the circle ahead of it, and the limits are those \<open>SetTransactionIdLimit\<close>
  computes for it, with a freeze age in the range the configuration allows.
\<close>

definition id_span :: "FullTransactionId \<Rightarrow> VariableCache \<Rightarrow> int" where
  "id_span F vc = uint (fxid_value (nextXid vc)) - uint (fxid_value F)"

definition limits_set :: "VariableCache \<Rightarrow> bool" where
  "limits_set vc \<longleftrightarrow> xidStopLimit vc = compute_xidStopLimit (compute_xidWrapLimit (oldestXid vc))
     \<and> (\<exists>age \<le> 2000000000. xidVacLimit vc = compute_xidVacLimit age (oldestXid vc))"

definition ids_wf :: "FullTransactionId \<Rightarrow> VariableCache \<Rightarrow> bool" where
  "ids_wf F vc \<longleftrightarrow> XidFromFullTransactionId F = oldestXid vc \<and> TransactionIdIsNormal (oldestXid vc)
     \<and> TransactionIdIsNormal (XidFromFullTransactionId (nextXid vc)) \<and> limits_set vc \<and> 0 \<le> id_span F vc"

definition wrap_inv :: "FullTransactionId \<Rightarrow> VariableCache \<Rightarrow> bool" where
  "wrap_inv F vc \<longleftrightarrow> ids_wf F vc \<and> id_span F vc < 2 ^ 31"

text \<open>
  What other backends may do while the lock is released: advance the next id, by at most two
  million, and move the oldest id forward with its limits.
\<close>

definition lock_gap :: "FullTransactionId \<Rightarrow> VariableCache \<Rightarrow> FullTransactionId \<Rightarrow> VariableCache \<Rightarrow> bool" where
  "lock_gap F vc F' vc' \<longleftrightarrow> ids_wf F' vc' \<and> fxid_value F \<le> fxid_value F'
     \<and> id_span F vc \<le> id_span F vc' \<and> id_span F vc' \<le> id_span F vc + 2000000"

lemma normal_adjusted:
  "TransactionIdIsNormal (if l < FirstNormalTransactionId then l - FirstNormalTransactionId else l)"
  "TransactionIdIsNormal (if l < FirstNormalTransactionId then l + FirstNormalTransactionId else l)"
proof -
  show "TransactionIdIsNormal (if l < FirstNormalTransactionId then l - FirstNormalTransactionId else l)"
    by (simp add: xid_defs) (unat_arith, simp)
  show "TransactionIdIsNormal (if l < FirstNormalTransactionId then l + FirstNormalTransactionId else l)"
    by (simp add: xid_defs) (unat_arith, simp)
qed

lemma stop_distance:
  "compute_xidStopLimit (compute_xidWrapLimit oldest) \<in> xid_window oldest
   \<and> unat (compute_xidStopLimit (compute_xidWrapLimit oldest) - oldest) \<le> 2144483650"
proof -
  have "unat (compute_xidStopLimit (compute_xidWrapLimit oldest) - oldest) \<le> 2144483650"
    by (simp add: compute_xidStopLimit_def compute_xidWrapLimit_def Let_def xid_defs)
  moreover have "TransactionIdIsNormal (compute_xidStopLimit wrap)" for wrap
    unfolding compute_xidStopLimit_def Let_def by (rule normal_adjusted)
  ultimately show ?thesis by (simp add: xid_window_def)
qed

lemma vac_distance:
  assumes "age \<le> 2000000000"
  shows "compute_xidVacLimit age oldest \<in> xid_window oldest
   \<and> unat (compute_xidVacLimit age oldest - oldest) \<le> 2000000003"
proof -
  have "unat age \<le> 2000000000" "unat (age + 3) \<le> 2000000003" using assms by unat_arith+
  then have "unat (compute_xidVacLimit age oldest - oldest) \<le> 2000000003"
    by (simp add: compute_xidVacLimit_def Let_def xid_defs add.commute)
  moreover have "TransactionIdIsNormal (compute_xidVacLimit age oldest)"
    unfolding compute_xidVacLimit_def Let_def by (rule normal_adjusted)
  ultimately show ?thesis by (simp add: xid_window_def)
qed

lemma next_xid_window:
  assumes "wrap_inv F vc"
  shows "XidFromFullTransactionId (nextXid vc) \<in> xid_window (oldestXid vc)
    \<and> int (unat (XidFromFullTransactionId (nextXid vc) - oldestXid vc)) = id_span F vc"
proof -
  let ?x = "XidFromFullTransactionId (nextXid vc)"
  have "uint (?x - XidFromFullTransactionId F) = id_span F vc mod 4294967296"
    by (simp add: XidFromFullTransactionId_def id_span_def uint_word_ariths unsigned_ucast_eq
        take_bit_eq_mod mod_diff_eq)
  also have "\<dots> = id_span F vc"
    using assms by (intro mod_pos_pos_trivial) (simp_all add: wrap_inv_def ids_wf_def)
  finally have "int (unat (?x - oldestXid vc)) = id_span F vc"
    using assms by (simp add: wrap_inv_def ids_wf_def)
  moreover have "id_span F vc < 2147483648" using assms by (simp add: wrap_inv_def)
  ultimately have "int (unat (?x - oldestXid vc)) = id_span F vc" "unat (?x - oldestXid vc) < 2147483648"
    by linarith+
  with assms show ?thesis by (simp only: wrap_inv_def ids_wf_def xid_window_def mem_Collect_eq)
qed

lemma limit_bounds_span:
  assumes "wrap_inv F vc"
    and "\<not> (TransactionIdFollowsOrEquals (XidFromFullTransactionId (nextXid vc)) (xidVacLimit vc)
          \<and> TransactionIdFollowsOrEquals (XidFromFullTransactionId (nextXid vc)) (xidStopLimit vc))"
  shows "id_span F vc < 2144483650"
proof -
  note n = next_xid_window [OF assms(1)]
  obtain age where "age \<le> 2000000000" and v: "xidVacLimit vc = compute_xidVacLimit age (oldestXid vc)"
    and s: "xidStopLimit vc = compute_xidStopLimit (compute_xidWrapLimit (oldestXid vc))"
    using assms(1) by (auto simp: wrap_inv_def ids_wf_def limits_set_def)
  note vd = vac_distance [OF this(1), of "oldestXid vc"] and sd = stop_distance [of "oldestXid vc"]
  from assms(2) have "unat (XidFromFullTransactionId (nextXid vc) - oldestXid vc) < 2144483650"
    unfolding v s using vd sd
    by (simp only: follows_or_equals_window [OF conjunct1 [OF n]]) linarith
  with n show ?thesis by linarith
qed

lemma advance_keeps_ids_wf:
  assumes "ids_wf F vc" and "uint (fxid_value (nextXid vc)) < 2 ^ 64 - 5"
  defines "vc' \<equiv> vc\<lparr>nextXid := FullTransactionIdAdvance (nextXid vc)\<rparr>"
  shows "ids_wf F vc' \<and> id_span F vc < id_span F vc' \<and> id_span F vc' \<le> id_span F vc + 4"
proof -
  note adv = full_advance_moves [OF assms(2)]
  have "TransactionIdIsNormal (TransactionIdAdvance (XidFromFullTransactionId (nextXid vc)))"
    by (rule TransactionIdAdvance_normal)
  with adv assms(1) xid_advance [of "nextXid vc"] assms(2) show ?thesis
    by (auto simp: vc'_def ids_wf_def id_span_def limits_set_def FullTransactionIdPrecedes_def word_less_def)
qed

lemma assign_next_xid_vcache:
  "vcache (snd (assign_next_xid sub st))
     = (vcache st)\<lparr>nextXid := FullTransactionIdAdvance (nextXid (vcache st))\<rparr>
   \<and> fst (assign_next_xid sub st) = nextXid (vcache st)"
  by (simp add: assign_next_xid_def store_new_xid_def Let_def)

lemma GetNewTransactionId_cases:
  assumes "GetNewTransactionId mode others sub st = (ev, Inr (full, st'))"
    and "IsUnderPostmaster mode" and "\<not> IsBootstrapProcessingMode mode"
  obtains (free) "(full, st') = assign_next_xid sub st"
      "\<not> TransactionIdFollowsOrEquals (XidFromFullTransactionId (nextXid (vcache st))) (xidVacLimit (vcache st))"
  | (gap) "(full, st') = assign_next_xid sub (others st)"
      "\<not> TransactionIdFollowsOrEquals (XidFromFullTransactionId (nextXid (vcache st))) (xidStopLimit (vcache st))"
  using assms by (auto simp: GetNewTransactionId_def Let_def split: if_splits)

lemma GetNewTransactionId_source:
  assumes "wrap_inv F (vcache st)"
    and "IsUnderPostmaster mode" and "\<not> IsBootstrapProcessingMode mode"
    and "lock_gap F (vcache st) F' (vcache (others st))"
    and "uint (fxid_value (nextXid (vcache (others st)))) < 2 ^ 63"
    and "GetNewTransactionId mode others isSubXact st = (ev, Inr (full, st'))"
  obtains G s where "(G, s) \<in> {(F, st), (F', others st)}" "(full, st') = assign_next_xid isSubXact s"
    "ids_wf G (vcache s)" "id_span G (vcache s) < 2 ^ 31 - 4" "uint (fxid_value (nextXid (vcache s))) < 2 ^ 64 - 5"
proof -
  from assms(4) have gap: "ids_wf F' (vcache (others st))"
    "id_span F' (vcache (others st)) \<le> id_span F (vcache st) + 2000000"
    "uint (fxid_value (nextXid (vcache st))) \<le> uint (fxid_value (nextXid (vcache (others st))))"
    by (auto simp: lock_gap_def id_span_def word_le_def)
  from assms(6,2,3) show thesis
  proof (cases rule: GetNewTransactionId_cases)
    case free
    with limit_bounds_span [OF assms(1)] have "id_span F (vcache st) < 2144483650" by blast
    with assms(1,5) gap(3) free(1) show thesis
      by (intro that [of F st]) (simp_all add: wrap_inv_def)
  next
    case gap': gap
    with limit_bounds_span [OF assms(1)] have "id_span F (vcache st) < 2144483650" by blast
    with assms(5) gap gap'(1) show thesis
      by (intro that [of F' "others st"]) simp_all
  qed
qed

lemma assign_next_xid_wrap:
  assumes "ids_wf G (vcache s)" "id_span G (vcache s) < 2 ^ 31 - 4" "uint (fxid_value (nextXid (vcache s))) < 2 ^ 64 - 5"
    and "(full, st') = assign_next_xid isSubXact s"
  shows "wrap_inv G (vcache s) \<and> wrap_inv G (vcache st') \<and> full = nextXid (vcache s)
    \<and> vcache st' = (vcache s)\<lparr>nextXid := FullTransactionIdAdvance (nextXid (vcache s))\<rparr>
    \<and> id_span G (vcache s) < id_span G (vcache st')"
proof -
  note k = advance_keeps_ids_wf [OF assms(1,3)]
  from assms(4) have v: "vcache st' = (vcache s)\<lparr>nextXid := FullTransactionIdAdvance (nextXid (vcache s))\<rparr>"
    and f: "full = nextXid (vcache s)"
    using assign_next_xid_vcache [of isSubXact s] by (metis fst_conv snd_conv)+
  from k assms(2) have "wrap_inv G (vcache st')" unfolding v wrap_inv_def by linarith
  moreover from assms(1,2) have "wrap_inv G (vcache s)" by (simp add: wrap_inv_def)
  ultimately show ?thesis using v f k by simp
qed

text \<open>
  C30: transaction ids never wrap around. Let every id in the tables be at or after the oldest id,
  let the next id be less than half the circle ahead of it, and let the limits be those computed
  from the oldest id. Then \<open>GetNewTransactionId\<close>, when it returns an id under the postmaster,
  keeps this so, even if other backends assign up to two million ids while it has released the
  lock to report a limit. The returned id does not precede the oldest id in the circular order,
  and the next id moves past it.
\<close>

theorem GetNewTransactionId_no_wraparound:
  assumes "wrap_inv F (vcache st)"
    and "IsUnderPostmaster mode" and "\<not> IsBootstrapProcessingMode mode"
    and "lock_gap F (vcache st) F' (vcache (others st))"
    and "uint (fxid_value (nextXid (vcache (others st)))) < 2 ^ 63"
    and "GetNewTransactionId mode others isSubXact st = (ev, Inr (full, st'))"
  shows "(\<exists>G \<in> {F, F'}. wrap_inv G (vcache st'))
    \<and> TransactionIdPrecedesOrEquals (oldestXid (vcache st')) (XidFromFullTransactionId full)
    \<and> FullTransactionIdPrecedes full (nextXid (vcache st'))"
proof -
  obtain G s where G: "(G, s) \<in> {(F, st), (F', others st)}" and w: "ids_wf G (vcache s)"
    and b: "id_span G (vcache s) < 2 ^ 31 - 4" "uint (fxid_value (nextXid (vcache s))) < 2 ^ 64 - 5"
    and eq: "(full, st') = assign_next_xid isSubXact s"
    by (rule GetNewTransactionId_source [OF assms]) (rule that)
  note k = assign_next_xid_wrap [OF w b eq]
  then have "TransactionIdPrecedesOrEquals (oldestXid (vcache st')) (XidFromFullTransactionId full)"
    using next_xid_window [of G "vcache s"] w
    by (simp add: precedes_or_equals_window [of _ "oldestXid (vcache s)"] xid_window_def ids_wf_def)
  moreover have "FullTransactionIdPrecedes full (nextXid (vcache st'))"
    using full_advance_moves [OF b(2)] k by simp
  ultimately show ?thesis using k G by blast
qed

text \<open>A state past the warning limit, for the witnesses: the oldest id is 3.\<close>

definition sample_vcache :: VariableCache where
  "sample_vcache = snd (SetTransactionIdLimit
     \<lparr>IsInParallelMode = False, IsBootstrapProcessingMode = False, RecoveryInProgress = False,
      IsUnderPostmaster = True\<rparr> False 200000000 3 1
     \<lparr>nextOid = 20000, oidCount = 0, nextXid = \<lparr>fxid_value = 2140000000\<rparr>, oldestXid = 0,
      xidVacLimit = 0, xidWarnLimit = 0, xidStopLimit = 0, xidWrapLimit = 0, oldestXidDB = 0,
      oldestCommitTsXid = 0, newestCommitTsXid = 0, latestCompletedXid = \<lparr>fxid_value = 2139999999\<rparr>,
      xactCompletionCount = 1, oldestClogXid = 3\<rparr>)"

lemma sample_vcache_simps [simp]:
  "nextXid sample_vcache = \<lparr>fxid_value = 2140000000\<rparr>" "oldestXid sample_vcache = 3"
  "xidVacLimit sample_vcache = 200000003" "xidStopLimit sample_vcache = 2144483650"
  "oldestXidDB sample_vcache = 1" "xidWarnLimit sample_vcache = 2107483650"
  "xidWrapLimit sample_vcache = 2147483650"
  by code_simp+

lemma SetTransactionIdLimit_limits:
  assumes "age \<le> 2000000000"
  shows "limits_set (snd (SetTransactionIdLimit mode rec age oldest db vc))"
  using assms by (auto simp: SetTransactionIdLimit_def limits_set_def Let_def)

lemma sample_wrap_inv: "wrap_inv \<lparr>fxid_value = 3\<rparr> sample_vcache"
proof -
  have "limits_set sample_vcache"
    unfolding sample_vcache_def by (rule SetTransactionIdLimit_limits) simp
  then show ?thesis
    by (simp add: wrap_inv_def ids_wf_def id_span_def XidFromFullTransactionId_def xid_defs)
qed

theorem GetNewTransactionId_no_wraparound_witness:
  "let st = (undefined :: XidGenState)\<lparr>vcache := sample_vcache\<rparr>;
       mode = \<lparr>IsInParallelMode = False, IsBootstrapProcessingMode = False, RecoveryInProgress = False,
               IsUnderPostmaster = True\<rparr>;
       others = (\<lambda>s. s\<lparr>vcache := (vcache s)\<lparr>nextXid := \<lparr>fxid_value = 2140000007\<rparr>\<rparr>\<rparr>)
   in case GetNewTransactionId mode others False st of
        (_, Inr (full, st')) \<Rightarrow> full = \<lparr>fxid_value = 2140000007\<rparr>
          \<and> (\<exists>F. wrap_inv F (vcache st')) \<and> TransactionIdPrecedesOrEquals 3 (XidFromFullTransactionId full)
      | (_, Inl _) \<Rightarrow> False"
proof -
  let ?st = "(undefined :: XidGenState)\<lparr>vcache := sample_vcache\<rparr>"
  let ?mode = "\<lparr>IsInParallelMode = False, IsBootstrapProcessingMode = False,
     RecoveryInProgress = False, IsUnderPostmaster = True\<rparr>"
  let ?others = "\<lambda>s :: XidGenState. s\<lparr>vcache := (vcache s)\<lparr>nextXid := \<lparr>fxid_value = 2140000007\<rparr>\<rparr>\<rparr>"
  have x: "XidFromFullTransactionId \<lparr>fxid_value = 2140000000\<rparr> = 2140000000"
    "XidFromFullTransactionId \<lparr>fxid_value = 2140000007\<rparr> = 2140000007" by code_simp+
  have "TransactionIdFollowsOrEquals 2140000000 200000003" "\<not> TransactionIdFollowsOrEquals 2140000000 2144483650"
    "TransactionIdFollowsOrEquals 2140000000 2107483650" by code_simp+
  then have g: "GetNewTransactionId ?mode ?others False ?st
      = ([WraparoundWarning 1 7483650], Inr (assign_next_xid False (?others ?st)))"
    by (simp add: GetNewTransactionId_def Let_def x)
  obtain full st' where a: "assign_next_xid False (?others ?st) = (full, st')" by fastforce
  have o: "lock_gap \<lparr>fxid_value = 3\<rparr> (vcache ?st) \<lparr>fxid_value = 3\<rparr> (vcache (?others ?st))"
    using sample_wrap_inv
    by (simp add: lock_gap_def ids_wf_def wrap_inv_def id_span_def limits_set_def x xid_defs)
  have "oldestXid (vcache st') = 3" "full = \<lparr>fxid_value = 2140000007\<rparr>"
    using assign_next_xid_vcache [of False "?others ?st"] unfolding a by simp_all
  moreover note g' = g [unfolded a]
  moreover have "wrap_inv \<lparr>fxid_value = 3\<rparr> (vcache ?st)" using sample_wrap_inv by simp
  note GetNewTransactionId_no_wraparound [OF this _ _ o _ g']
  ultimately show ?thesis by (simp only: Let_def g' prod.case sum.case) auto
qed

subsection \<open>The entries of a new id are fresh\<close>

text \<open>
  The three logs are extended in the same way: the call for a new id zeroes the page of the id when
  the id is the first on it, or the first normal id. \<open>is_fresh s x\<close> says that the entry of \<open>x\<close>
  in the log is zero, \<open>per_page\<close> is the number of entries of a page.
\<close>

text \<open>Unless the page of \<open>x\<close> is about to be zeroed, its entries from \<open>x\<close> on satisfy \<open>is_fresh\<close>.\<close>

definition rest_fresh :: "nat \<Rightarrow> (TransactionId \<Rightarrow> bool) \<Rightarrow> TransactionId \<Rightarrow> bool" where
  "rest_fresh per_page is_fresh x \<longleftrightarrow> (unat x mod per_page \<noteq> 0 \<and> x \<noteq> FirstNormalTransactionId \<longrightarrow>
     (\<forall>y. unat y div per_page = unat x div per_page \<and> unat x \<le> unat y \<longrightarrow> is_fresh y))"

locale extended_log =
  fixes per_page :: nat and is_fresh :: "'s \<Rightarrow> TransactionId \<Rightarrow> bool"
    and extend :: "TransactionId \<Rightarrow> 's \<Rightarrow> 's"
  assumes extend_new: "unat x mod per_page = 0 \<or> x = FirstNormalTransactionId \<Longrightarrow>
      unat y div per_page = unat x div per_page \<Longrightarrow> is_fresh (extend x s) y"
    and extend_old: "unat x mod per_page \<noteq> 0 \<Longrightarrow> x \<noteq> FirstNormalTransactionId \<Longrightarrow> extend x s = s"
begin

lemma extend_page_fresh:
  assumes "rest_fresh per_page (is_fresh s) x" and "unat (y :: TransactionId) div per_page = unat x div per_page" and "unat x \<le> unat y"
  shows "is_fresh (extend x s) y"
  using assms extend_new [of x y s] extend_old [of x s] unfolding rest_fresh_def by metis

lemma extend_rest_fresh:
  assumes "rest_fresh per_page (is_fresh s) x"
  shows "rest_fresh per_page (is_fresh (extend x s)) (TransactionIdAdvance x)"
proof (cases "x + 1 < FirstNormalTransactionId")
  case True
  then show ?thesis by (simp add: TransactionIdAdvance_def rest_fresh_def)
next
  case False
  have "unat x \<noteq> 4294967295"
  proof
    assume "unat x = 4294967295"
    then have "x = 4294967295" by (simp add: word_unat_eq_iff)
    with False show False by (simp add: FirstNormalTransactionId_def)
  qed
  then have s: "unat (x + 1) = Suc (unat x)"
    using unat_less_word32 [of x] by (simp add: unat_word_ariths)
  show ?thesis
    unfolding rest_fresh_def TransactionIdAdvance_def Let_def if_not_P [OF False] s
  proof (intro impI allI)
    fix y :: TransactionId
    assume a: "Suc (unat x) mod per_page \<noteq> 0 \<and> x + 1 \<noteq> FirstNormalTransactionId"
      and y: "unat y div per_page = Suc (unat x) div per_page \<and> Suc (unat x) \<le> unat y"
    from a have "Suc (unat x) div per_page = unat x div per_page"
      by (metis div_Suc)
    with y show "is_fresh (extend x s) y" by (intro extend_page_fresh [OF assms]) simp_all
  qed
qed

end

interpretation clog_log: extended_log CLOG_XACTS_PER_PAGE
  "\<lambda>s x. TransactionIdGetStatus s x = (TRANSACTION_STATUS_IN_PROGRESS, 0)" ExtendCLOG
  by unfold_locales
    (auto simp: ExtendCLOG_def ZeroCLOGPage_def TransactionIdGetStatus_def TransactionIdToPgIndex_def
      TransactionIdToPage_def TRANSACTION_STATUS_IN_PROGRESS_def Let_def)

interpretation subtrans_log: extended_log SUBTRANS_XACTS_PER_PAGE
  "\<lambda>s x. SubTransGetParent s x = InvalidTransactionId" ExtendSUBTRANS
  by unfold_locales
    (auto simp: ExtendSUBTRANS_def ZeroSUBTRANSPage_def SubTransGetParent_def TransactionIdToEntry_def
      subtrans_page_def InvalidTransactionId_def)

interpretation commit_ts_log: extended_log COMMIT_TS_XACTS_PER_PAGE
  "\<lambda>s x. commitTsActive s \<longrightarrow>
     (\<forall>i. i div 10 = TransactionIdToCTsEntry x \<longrightarrow> cts_buffer s (TransactionIdToCTsPage x) i = 0)" ExtendCommitTs
  by unfold_locales
    (auto simp: ExtendCommitTs_def ZeroCommitTsPage_def TransactionIdToCTsPage_def
      TransactionIdToCTsEntry_def)

definition logs_fresh :: "XidGenState \<Rightarrow> bool" where
  "logs_fresh st \<longleftrightarrow>
     (let x = XidFromFullTransactionId (nextXid (vcache st))
      in rest_fresh CLOG_XACTS_PER_PAGE
           (\<lambda>y. TransactionIdGetStatus (xact_slru st) y = (TRANSACTION_STATUS_IN_PROGRESS, 0)) x
         \<and> rest_fresh SUBTRANS_XACTS_PER_PAGE
             (\<lambda>y. SubTransGetParent (sub_slru st) y = InvalidTransactionId) x)"

lemma assign_next_xid_logs:
  "(full, st') = assign_next_xid sub st \<Longrightarrow>
   xact_slru st' = ExtendCLOG (XidFromFullTransactionId (nextXid (vcache st))) (xact_slru st)
   \<and> sub_slru st' = ExtendSUBTRANS (XidFromFullTransactionId (nextXid (vcache st))) (sub_slru st)"
  by (auto simp: assign_next_xid_def store_new_xid_def Let_def split: if_splits)

text \<open>
  C34: a newly assigned id starts in progress. If the entries of the current log pages from the
  next id on are zero, then after the assignment the commit log answers that the new id is in
  progress, with no LSN, and the subtransaction log that it has no parent; and the entries from
  the next id on are still zero. Since the log pages are reused after the ids wrap around, this
  rests on each page being zeroed exactly when its first id is assigned.
\<close>

theorem assign_next_xid_fresh:
  assumes "logs_fresh st" and "TransactionIdIsNormal (XidFromFullTransactionId (nextXid (vcache st)))"
    and "uint (fxid_value (nextXid (vcache st))) < 2 ^ 64 - 5"
    and "(full, st') = assign_next_xid isSubXact st"
  shows "TransactionIdGetStatus (xact_slru st') (XidFromFullTransactionId full) = (TRANSACTION_STATUS_IN_PROGRESS, 0)
    \<and> SubTransGetParent (sub_slru st') (XidFromFullTransactionId full) = InvalidTransactionId
    \<and> logs_fresh st'"
proof -
  let ?x = "XidFromFullTransactionId (nextXid (vcache st))"
  from assms(4) have r: "full = fst (assign_next_xid isSubXact st)" "st' = snd (assign_next_xid isSubXact st)"
    by (metis fst_conv snd_conv)+
  then have "full = nextXid (vcache st)"
    "XidFromFullTransactionId (nextXid (vcache st')) = TransactionIdAdvance ?x"
    using assign_next_xid_vcache [of isSubXact st] xid_advance [OF assms(2,3)] by simp_all
  with assms(1) show ?thesis
    using clog_log.extend_page_fresh [of "xact_slru st" ?x ?x] clog_log.extend_rest_fresh [of "xact_slru st" ?x]
      subtrans_log.extend_page_fresh [of "sub_slru st" ?x ?x] subtrans_log.extend_rest_fresh [of "sub_slru st" ?x]
    by (simp add: logs_fresh_def Let_def assign_next_xid_logs [OF assms(4)])
qed

text \<open>A state whose log pages hold the remains of an earlier cycle, with the next id first on its page.\<close>

definition sample_xidgen :: XidGenState where
  "sample_xidgen = \<lparr>vcache = sample_vcache\<lparr>nextXid := \<lparr>fxid_value = 0x100008000\<rparr>\<rparr>,
     xact_slru = \<lparr>page_buffer = \<lambda>_ _. 0x55, group_lsn = \<lambda>_ _. 9, page_dirty = \<lambda>_. False, latest_page_number = 0\<rparr>,
     sub_slru = \<lparr>sub_buffer = \<lambda>_ _. 77, sub_dirty = \<lambda>_. False, sub_latest_page = 0\<rparr>,
     cts_slru = \<lparr>commitTsActive = True, cts_buffer = \<lambda>_ _. 1, cts_dirty = \<lambda>_. False, cts_latest_page = 0\<rparr>,
     MyProc = \<lparr>proc_xid = 0, proc_subxids = [], proc_suboverflowed = False\<rparr>,
     MyGlobal = \<lparr>pg_xid = 0, pg_subcount = 0, pg_suboverflowed = False\<rparr>\<rparr>"

theorem assign_next_xid_fresh_witness:
  "clog_status (xact_slru sample_xidgen) 0x8000 = TRANSACTION_STATUS_COMMITTED
   \<and> clog_status (xact_slru (snd (assign_next_xid False sample_xidgen))) 0x8000 = TRANSACTION_STATUS_IN_PROGRESS
   \<and> SubTransGetParent (sub_slru (snd (assign_next_xid False sample_xidgen))) 0x8000 = InvalidTransactionId"
proof -
  have x: "XidFromFullTransactionId (nextXid (vcache sample_xidgen)) = 0x8000"
    "uint (fxid_value (nextXid (vcache sample_xidgen))) < 2 ^ 64 - 5"
    by (simp_all add: sample_xidgen_def XidFromFullTransactionId_def)
  have m: "unat (0x8000 :: TransactionId) mod CLOG_XACTS_PER_PAGE = 0"
    "unat (0x8000 :: TransactionId) mod SUBTRANS_XACTS_PER_PAGE = 0"
    "TransactionIdIsNormal 0x8000" by (simp_all add: clog_layout SUBTRANS_XACTS_PER_PAGE_def BLCKSZ_def xid_defs)
  then have "logs_fresh sample_xidgen" by (simp add: logs_fresh_def rest_fresh_def x)
  moreover have "fst (assign_next_xid False sample_xidgen) = nextXid (vcache sample_xidgen)"
    using assign_next_xid_vcache by blast
  moreover have "clog_status (xact_slru sample_xidgen) 0x8000 = TRANSACTION_STATUS_COMMITTED"
    by (simp add: sample_xidgen_def TransactionIdGetStatus_def TransactionIdToBIndex_def clog_layout
        TRANSACTION_STATUS_COMMITTED_def CLOG_XACT_BITMASK_def Let_def)
  ultimately show ?thesis
    using assign_next_xid_fresh [OF _ _ x(2) prod.collapse, of False] m(3) x(1)
    by simp
qed

subsection \<open>Object ids\<close>

text \<open>
  \<open>logged\<close> is the counter value in the last \<open>XLOG_NEXTOID\<close> record, with which the counter
  restarts after a crash.
\<close>

definition oid_logged :: "Oid \<Rightarrow> VariableCache \<Rightarrow> bool" where
  "oid_logged logged vc \<longleftrightarrow> logged = nextOid vc + oidCount vc \<and> oidCount vc \<le> VAR_OID_PREFETCH"

fun GetNewObjectIds :: "nat \<Rightarrow> VariableCache \<Rightarrow> Oid list" where
  "GetNewObjectIds 0 vc = []"
| "GetNewObjectIds (Suc n) vc =
     (case GetNewObjectId False True vc of
        Inl _ \<Rightarrow> []
      | Inr (r, _, vc') \<Rightarrow> r # GetNewObjectIds n vc')"

lemma GetNewObjectId_result:
  "\<exists>wal vc'. GetNewObjectId False True vc = Inr (max (nextOid vc) FirstNormalObjectId, wal, vc')
     \<and> nextOid vc' = max (nextOid vc) FirstNormalObjectId + 1"
  by (auto simp: GetNewObjectId_def Let_def max_def)

text \<open>
  C39: object ids survive a crash. If the last logged counter is the end of the block of prefetched
  ids, it still is after \<open>GetNewObjectId\<close> (which logs a new end before it hands out the first id
  of a block, also after a wraparound), and the id it returns is one of the at most 8192 ids
  before that logged counter: restarting from the logged counter does not return it again.
  Under a postmaster the id is never in the range reserved for the system; in standalone mode, where
  initdb creates the catalogs, it is not before the part of that range kept for initdb.
\<close>

theorem GetNewObjectId_crash_safe:
  assumes "oid_logged logged vc" and "GetNewObjectId False under_postmaster vc = Inr (oid, wal, vc')"
  shows "(if under_postmaster then FirstNormalObjectId else FirstGenbkiObjectId) \<le> oid \<and> oid_logged (last (logged # wal)) vc'
    \<and> 0 < last (logged # wal) - oid \<and> last (logged # wal) - oid \<le> VAR_OID_PREFETCH"
proof -
  have c: "c - 1 \<le> (8192 :: 32 word)" if "c \<le> 8192" "c \<noteq> 0" for c using that by unat_arith
  have g: "0 < c" if "c \<noteq> 0" for c :: "32 word" using that by (simp add: word_neq_0_conv)
  have n: "10000 \<le> c" if "16384 \<le> c" for c :: "32 word" using that by unat_arith
  show ?thesis
    using assms c g n
    by (auto simp: GetNewObjectId_def oid_logged_def VAR_OID_PREFETCH_def FirstNormalObjectId_def FirstGenbkiObjectId_def
        Let_def not_less split: if_splits)
qed

theorem GetNewObjectId_crash_safe_witness:
  "let vc = sample_vcache\<lparr>nextOid := 0xFFFFFFFF, oidCount := 1\<rparr>
   in \<exists>oid wal vc'. GetNewObjectId False True vc = Inr (oid, wal, vc')
        \<and> oid_logged (last (0 # wal)) vc' \<and> oid = 0xFFFFFFFF"
proof -
  let ?vc = "sample_vcache\<lparr>nextOid := 0xFFFFFFFF, oidCount := 1\<rparr>"
  have "oid_logged 0 ?vc" by (simp add: oid_logged_def VAR_OID_PREFETCH_def)
  moreover obtain wal vc' where "GetNewObjectId False True ?vc = Inr (0xFFFFFFFF, wal, vc')"
    using GetNewObjectId_result [of ?vc] by (auto simp: FirstNormalObjectId_def)
  ultimately show ?thesis
    using GetNewObjectId_crash_safe [of 0 ?vc] unfolding Let_def by blast
qed

text \<open>The position of the counter among the ids outside the reserved range.\<close>

definition oid_position :: "VariableCache \<Rightarrow> nat" where
  "oid_position vc = unat (max (nextOid vc) FirstNormalObjectId) - 16384"

lemma oid_position_range:
  "oid_position vc < 4294950912 \<and> unat (max (nextOid vc) FirstNormalObjectId) = 16384 + oid_position vc"
proof -
  let ?r = "max (nextOid vc) FirstNormalObjectId"
  have "FirstNormalObjectId \<le> ?r" by simp
  then have "16384 \<le> unat ?r" by (simp only: word_le_nat_alt FirstNormalObjectId_def unat_numeral) simp
  then show ?thesis using unat_less_word32 [of ?r] by (simp only: oid_position_def) linarith
qed

lemma oid_position_step:
  assumes "nextOid vc' = max (nextOid vc) FirstNormalObjectId + 1"
  shows "oid_position vc' = (oid_position vc + 1) mod 4294950912"
proof -
  let ?r = "max (nextOid vc) FirstNormalObjectId"
  note p = oid_position_range [of vc]
  show ?thesis
  proof (cases "oid_position vc = 4294950911")
    case True
    with p have "unat ?r = 4294967295" by simp
    then have "?r = 4294967295" by (simp add: word_unat_eq_iff)
    with True assms show ?thesis by (simp add: oid_position_def FirstNormalObjectId_def)
  next
    case False
    with p have "unat (?r + 1) = 16384 + (oid_position vc + 1)" by (simp add: unat_word_ariths)
    moreover from this have "FirstNormalObjectId \<le> ?r + 1"
      by (simp add: word_le_nat_alt FirstNormalObjectId_def)
    ultimately have "oid_position vc' = oid_position vc + 1"
      using assms by (simp add: oid_position_def max_def)
    with False p show ?thesis by simp
  qed
qed

lemma GetNewObjectIds_nth:
  "GetNewObjectIds n vc = map (\<lambda>i. word_of_nat (16384 + (oid_position vc + i) mod 4294950912)) [0..<n]"
proof (induction n arbitrary: vc)
  case 0
  then show ?case by simp
next
  case (Suc n)
  obtain wal vc' where g: "GetNewObjectId False True vc = Inr (max (nextOid vc) FirstNormalObjectId, wal, vc')"
    and n: "nextOid vc' = max (nextOid vc) FirstNormalObjectId + 1"
    using GetNewObjectId_result by blast
  have "word_of_nat (16384 + oid_position vc) = max (nextOid vc) FirstNormalObjectId"
    using oid_position_range [of vc] by (simp only: word_unat_eq_iff unat_of_nat) simp
  then have "GetNewObjectIds (Suc n) vc = word_of_nat (16384 + (oid_position vc + 0) mod 4294950912)
      # map (\<lambda>i. word_of_nat (16384 + (oid_position vc + Suc i) mod 4294950912)) [0..<n]"
    using oid_position_range [of vc] by (simp add: g Suc.IH oid_position_step [OF n] mod_add_left_eq)
  also have "\<dots> = map (\<lambda>i. word_of_nat (16384 + (oid_position vc + i) mod 4294950912)) [0..<Suc n]"
    by (simp only: upt_conv_Cons zero_less_Suc list.map map_Suc_upt [symmetric] map_map comp_def)
  finally show ?case .
qed

text \<open>
  Object ids are not repeated before the counter has gone through all \<open>2 ^ 32 - 16384\<close> ids
  outside the reserved range: that many successive calls of \<open>GetNewObjectId\<close> return distinct ids,
  whatever the counter was, and all outside the reserved range.
\<close>

theorem GetNewObjectIds_distinct:
  assumes "n \<le> 2 ^ 32 - 16384"
  shows "length (GetNewObjectIds n vc) = n \<and> distinct (GetNewObjectIds n vc)
    \<and> (\<forall>oid \<in> set (GetNewObjectIds n vc). FirstNormalObjectId \<le> oid)"
proof -
  let ?f = "\<lambda>i. word_of_nat (16384 + (oid_position vc + i) mod 4294950912) :: Oid"
  have u: "unat (?f i) = 16384 + (oid_position vc + i) mod 4294950912" for i
  proof -
    have "(oid_position vc + i) mod 4294950912 < 4294950912" by simp
    then show ?thesis by (simp only: unat_of_nat) simp
  qed
  have inj: "i = j" if "i \<le> j" "j < n" "(oid_position vc + i) mod 4294950912 = (oid_position vc + j) mod 4294950912" for i j
  proof -
    from that(1,3) have "4294950912 dvd j - i"
      using mod_eq_dvd_iff_nat [of "oid_position vc + i" "oid_position vc + j" 4294950912] by simp
    with that(1,2) assms show ?thesis by (auto dest: dvd_imp_le)
  qed
  have "inj_on ?f (set [0..<n])"
  proof (rule inj_onI)
    fix i j assume ij: "i \<in> set [0..<n]" "j \<in> set [0..<n]" "?f i = ?f j"
    from ij(3) have "unat (?f i) = unat (?f j)" by (simp only:)
    then have "(oid_position vc + i) mod 4294950912 = (oid_position vc + j) mod 4294950912"
      unfolding u by (simp only: add_left_cancel)
    with ij(1,2) inj [of i j] inj [of j i] show "i = j" by (cases "i \<le> j") auto
  qed
  moreover have "FirstNormalObjectId \<le> ?f i" for i
    by (simp only: word_le_nat_alt u FirstNormalObjectId_def) simp
  ultimately show ?thesis
    by (simp only: GetNewObjectIds_nth distinct_map length_map length_upt set_map) simp
qed

theorem GetNewObjectIds_distinct_witness:
  "distinct (GetNewObjectIds 3 (sample_vcache\<lparr>nextOid := 0xFFFFFFFE\<rparr>))
   \<and> GetNewObjectIds 3 (sample_vcache\<lparr>nextOid := 0xFFFFFFFE\<rparr>) = [0xFFFFFFFE, 0xFFFFFFFF, 0x4000]"
proof -
  have "GetNewObjectIds 3 (sample_vcache\<lparr>nextOid := 0xFFFFFFFE\<rparr>) = [0xFFFFFFFE, 0xFFFFFFFF, 0x4000]"
    by code_simp
  with GetNewObjectIds_distinct [of 3 "sample_vcache\<lparr>nextOid := 0xFFFFFFFE\<rparr>"] show ?thesis by simp
qed

subsection \<open>The range assertion\<close>

lemma sint_diff_circle:
  fixes x y b :: "32 word"
  assumes "uint (y - b) < 2147483648"
  shows "sint (x - y) \<le> 0 \<longleftrightarrow> uint (x - b) \<le> uint (y - b) \<or> 2147483648 + uint (y - b) \<le> uint (x - b)"
proof -
  have aux: "sint (u - v) \<le> 0 \<longleftrightarrow> uint u \<le> uint v \<or> 2147483648 + uint v \<le> uint u"
    if v: "uint v < 2147483648" for u v :: "32 word"
  proof -
    have int: "(let w = (if c \<le> a then a - c else a - c + 4294967296)
        in (if w < 2147483648 then w else w - 4294967296)) \<le> 0 \<longleftrightarrow> a \<le> c \<or> 2147483648 + c \<le> a"
      if "0 \<le> a" "a < 4294967296" "0 \<le> c" "c < 2147483648" for a c :: int
      using that unfolding Let_def by auto
    show ?thesis
      unfolding sint_word32 [of "u - v"] uint_minus_word32
      by (rule int [unfolded Let_def]) (use v uint_bounded [of u] in simp_all)
  qed
  have "x - y = (x - b) - (y - b)" by simp
  then show ?thesis using aux [OF assms, of "x - b"] by (simp only:)
qed

text \<open>
  C40: what the range assertion checks. Its comment says that it asserts an id to be between the oldest
  id and the next id; the code joins the two comparisons by an or. When the id space is not wrapped
  around, it passes for every normal id except those from half a circle after the oldest id up to
  half a circle after the next id: it passes for all ids between the oldest and the next id, but
  also for ids after the next id, and for ids before the oldest id.
\<close>

theorem AssertTransactionIdInAllowableRange_iff:
  assumes "wrap_inv F vc" and "TransactionIdIsNormal xid"
  shows "AssertTransactionIdInAllowableRange vc xid \<longleftrightarrow>
    \<not> (2 ^ 31 \<le> uint (xid - oldestXid vc) \<and> uint (xid - oldestXid vc) < 2 ^ 31 + id_span F vc)"
proof -
  let ?n = "XidFromFullTransactionId (nextXid vc)" and ?d = "uint (xid - oldestXid vc)"
  have n: "uint (?n - oldestXid vc) = id_span F vc" "id_span F vc < 2147483648" "0 \<le> id_span F vc"
    using next_xid_window [OF assms(1)] assms(1) by (simp_all add: wrap_inv_def ids_wf_def)
  have norm: "TransactionIdIsNormal ?n" "TransactionIdIsNormal (oldestXid vc)" "TransactionIdIsValid xid"
    using assms by (simp_all add: wrap_inv_def ids_wf_def normal_valid)
  have "sint (xid - oldestXid vc) \<ge> 0 \<longleftrightarrow> ?d < 2147483648"
    using uint_bounded [of "xid - oldestXid vc"] by (simp add: sint_word32)
  moreover have "sint (xid - ?n) \<le> 0 \<longleftrightarrow> ?d \<le> id_span F vc \<or> 2147483648 + id_span F vc \<le> ?d"
    using sint_diff_circle [of ?n "oldestXid vc" xid] n by simp
  ultimately show ?thesis using norm assms(2) n
    by (auto simp: AssertTransactionIdInAllowableRange_def TransactionIdFollowsOrEquals_def
        TransactionIdPrecedesOrEquals_def)
qed

theorem AssertTransactionIdInAllowableRange_iff_witness:
  "AssertTransactionIdInAllowableRange sample_vcache 2140000009
   \<and> AssertTransactionIdInAllowableRange sample_vcache 4294967295
   \<and> \<not> AssertTransactionIdInAllowableRange sample_vcache 3000000000"
  using AssertTransactionIdInAllowableRange_iff [OF sample_wrap_inv, of 2140000009]
    AssertTransactionIdInAllowableRange_iff [OF sample_wrap_inv, of 4294967295]
    AssertTransactionIdInAllowableRange_iff [OF sample_wrap_inv, of 3000000000]
  by (simp add: id_span_def xid_defs)

end
