(* ===== verification/KnownAssigned.thy ===== *)
theory KnownAssigned
  imports VarSup
begin

section \<open>Known assigned transaction ids\<close>

text \<open>
  The array of ids a hot standby treats as running, from \<open>src/backend/storage/ipc/procarray.c\<close>:
  a sorted array of ids with a parallel array of validity flags, of which the elements from the
  tail to before the head are in use. Ids are added at the head, removed by clearing their flag,
  pruned from the tail, and the gaps are compressed out. The arrays are functions on indices,
  with unspecified contents outside the used part, as in the code. The abstraction is the list
  of the valid ids in circular order; every operation is proved against it. The spinlock and
  memory ordering are not modelled: only the startup process writes, and each operation is atomic.
\<close>

subsection \<open>State and operations\<close>

record KnownAssignedArray =
  KnownAssignedXids :: "nat \<Rightarrow> TransactionId"
  KnownAssignedXidsValid :: "nat \<Rightarrow> bool"
  numKnownAssignedXids :: int
  tailKnownAssignedXids :: nat
  headKnownAssignedXids :: nat
  maxKnownAssignedXids :: nat
  transactionEndsCounter :: uint32
  lastCompressTs :: int

datatype KAXCompressReason = KAX_NO_SPACE | KAX_PRUNE | KAX_TRANSACTION_END | KAX_STARTUP_PROCESS_IDLE

datatype kax_error = OutOfOrderInsertion | TooManyKnownAssignedXids | KnownAssignedXidsOverrun

text \<open>
  A compression reads the clock up to twice: for the idle test and for the time it remembers.
  A timestamp is in microseconds.
\<close>

type_synonym compress_clock = "int \<times> int"

definition KAX_COMPRESS_FREQUENCY :: uint32 where
  "KAX_COMPRESS_FREQUENCY = 128"

definition KAX_COMPRESS_IDLE_INTERVAL :: int where
  "KAX_COMPRESS_IDLE_INTERVAL = 1000"

definition TimestampTzPlusMilliseconds :: "int \<Rightarrow> int \<Rightarrow> int" where
  "TimestampTzPlusMilliseconds tz ms = tz + ms * 1000"

text \<open>The loop that moves the valid elements from \<open>i\<close> on down to \<open>compress_index\<close>.\<close>

function kax_compress_loop ::
  "nat \<Rightarrow> nat \<Rightarrow> nat \<Rightarrow> KnownAssignedArray \<Rightarrow> nat \<times> KnownAssignedArray" where
  "kax_compress_loop i head compress_index s =
     (if i < head then
        (if KnownAssignedXidsValid s i then
           kax_compress_loop (i + 1) head (compress_index + 1)
             (s\<lparr>KnownAssignedXids := (KnownAssignedXids s)(compress_index := KnownAssignedXids s i),
                KnownAssignedXidsValid := (KnownAssignedXidsValid s)(compress_index := True)\<rparr>)
         else kax_compress_loop (i + 1) head compress_index s)
      else (compress_index, s))"
  by pat_completeness auto
termination
  by (relation "measure (\<lambda>(i, head, c, s). head - i)") auto

declare kax_compress_loop.simps [simp del]

text \<open>The heuristic: whether to compress, with the counter of transaction ends it keeps.\<close>

definition kax_should_compress ::
  "KAXCompressReason \<Rightarrow> int \<Rightarrow> KnownAssignedArray \<Rightarrow> bool \<times> KnownAssignedArray" where
  "kax_should_compress reason now s =
     (let nelements = int (headKnownAssignedXids s) - int (tailKnownAssignedXids s)
      in if nelements = numKnownAssignedXids s then (reason = KAX_NO_SPACE, s)
         else if reason = KAX_TRANSACTION_END then
           (let c = transactionEndsCounter s; s = s\<lparr>transactionEndsCounter := c + 1\<rparr>
            in if c mod KAX_COMPRESS_FREQUENCY \<noteq> 0 then (False, s)
               else if nelements < 2 * numKnownAssignedXids s then (False, s)
               else (True, s))
         else if reason = KAX_STARTUP_PROCESS_IDLE then
           (if lastCompressTs s \<noteq> 0
               \<and> now < TimestampTzPlusMilliseconds (lastCompressTs s) KAX_COMPRESS_IDLE_INTERVAL
            then (False, s)
            else (True, s))
         else (True, s))"

definition KnownAssignedXidsCompress ::
  "KAXCompressReason \<Rightarrow> compress_clock \<Rightarrow> KnownAssignedArray \<Rightarrow> KnownAssignedArray" where
  "KnownAssignedXidsCompress reason clock s =
     (let (go, s) = kax_should_compress reason (fst clock) s
      in if \<not> go then s
         else (let (compress_index, s) =
                 kax_compress_loop (tailKnownAssignedXids s) (headKnownAssignedXids s) 0 s
               in s\<lparr>tailKnownAssignedXids := 0, headKnownAssignedXids := compress_index,
                    lastCompressTs := snd clock\<rparr>))"

text \<open>
  Counting the ids from \<open>next_xid\<close> to \<open>to_xid\<close> one by one, when they cross the wrap point.
  Each step brings the id closer to the end of the range.
\<close>

lemma advance_towards:
  assumes "x \<noteq> t" and "TransactionIdIsNormal t"
  shows "unat (t - TransactionIdAdvance x) < unat (t - x)"
proof (cases "x + 1 < FirstNormalTransactionId")
  case False
  have "t - x \<noteq> 0" using assms(1) by simp
  then have "unat (t - x - 1) < unat (t - x)" by unat_arith
  with False show ?thesis by (simp add: TransactionIdAdvance_def diff_diff_eq)
next
  case True
  then have "x + 1 = 0 \<or> x + 1 = 1 \<or> x + 1 = 2" by (simp add: special_cases)
  then have x: "x = 0 - 1 \<or> x = 1 - 1 \<or> x = 2 - 1"
    by (simp only: eq_diff_eq)
  have "3 \<le> unat t" using assms(2)
    by (simp add: TransactionIdIsNormal_def FirstNormalTransactionId_def word_le_nat_alt)
  then have "unat (t - 3) < unat (t - 1)" "unat (t - 3) < unat t" "unat (t - 3) < unat (t + 1) \<or> t + 1 = 0"
    by unat_arith+
  moreover from this(3) have "unat (t - 3) < unat (t + 1) \<or> t = - 1"
    by (simp add: eq_neg_iff_add_eq_0)
  moreover note True x assms(1)
  ultimately show ?thesis
    by (auto simp: TransactionIdAdvance_def FirstNormalTransactionId_def)
qed

lemma precedes_normal_target:
  assumes "TransactionIdIsNormal x" and "TransactionIdPrecedes x t"
  shows "TransactionIdIsNormal t"
  using assms
  by (auto simp: TransactionIdPrecedes_def TransactionIdIsNormal_def split: if_splits)

text \<open>The measure of the loops that advance an id until it reaches another.\<close>

definition advance_measure :: "TransactionId \<Rightarrow> TransactionId \<Rightarrow> nat" where
  "advance_measure x t = (if TransactionIdPrecedes x t then Suc (unat (t - x)) else 0)"

lemma advance_measure_less:
  assumes "TransactionIdPrecedes x t"
  shows "advance_measure (TransactionIdAdvance x) t < advance_measure x t"
proof (cases "TransactionIdPrecedes (TransactionIdAdvance x) t")
  case True
  then have "TransactionIdIsNormal t"
    using TransactionIdAdvance_normal precedes_normal_target by blast
  moreover have "x \<noteq> t" using assms by auto
  ultimately show ?thesis using assms True advance_towards by (simp add: advance_measure_def)
qed (use assms in \<open>simp add: advance_measure_def\<close>)

function kax_count_loop :: "TransactionId \<Rightarrow> TransactionId \<Rightarrow> int \<Rightarrow> int" where
  "kax_count_loop next_xid to_xid nxids =
     (if TransactionIdPrecedes next_xid to_xid
      then kax_count_loop (TransactionIdAdvance next_xid) to_xid (nxids + 1)
      else nxids)"
  by pat_completeness auto
termination
  by (relation "measure (\<lambda>(x, t, n). advance_measure x t)") (simp_all add: advance_measure_less)

declare kax_count_loop.simps [simp del]

definition kax_nxids :: "TransactionId \<Rightarrow> TransactionId \<Rightarrow> int" where
  "kax_nxids from_xid to_xid =
     (if from_xid \<le> to_xid then sint (to_xid - from_xid + 1) else kax_count_loop from_xid to_xid 1)"

text \<open>The insertion loop: \<open>n\<close> consecutive ids from \<open>next_xid\<close> on at \<open>head\<close>.\<close>

fun kax_insert_loop ::
  "nat \<Rightarrow> nat \<Rightarrow> TransactionId \<Rightarrow> KnownAssignedArray \<Rightarrow> nat \<times> KnownAssignedArray" where
  "kax_insert_loop 0 head next_xid s = (head, s)" |
  "kax_insert_loop (Suc n) head next_xid s =
     kax_insert_loop n (head + 1) (TransactionIdAdvance next_xid)
       (s\<lparr>KnownAssignedXids := (KnownAssignedXids s)(head := next_xid),
          KnownAssignedXidsValid := (KnownAssignedXidsValid s)(head := True)\<rparr>)"

text \<open>
  The sum of the head and the number of new ids is an \<open>int\<close> of 32 bits and wraps around. A wrapped sum passes
  the tests for space, and then the loop writes past the end of the array, which has no defined
  outcome: \<open>KnownAssignedXidsOverrun\<close>. An error in the startup process ends the standby, so it carries no state.
\<close>

definition int32_add :: "int \<Rightarrow> int \<Rightarrow> int" where
  "int32_add x y = sint (word_of_int (x + y) :: 32 word)"

lemma int32_add_fits: "- (2 ^ 31) \<le> x + y \<Longrightarrow> x + y < 2 ^ 31 \<Longrightarrow> int32_add x y = x + y"
  unfolding int32_add_def by (subst signed_of_int) (simp add: signed_take_bit_int_eq_self_iff)

definition KnownAssignedXidsAdd ::
  "TransactionId \<Rightarrow> TransactionId \<Rightarrow> compress_clock \<Rightarrow> KnownAssignedArray \<Rightarrow> kax_error + KnownAssignedArray" where
  "KnownAssignedXidsAdd from_xid to_xid clock s =
     (let nxids = kax_nxids from_xid to_xid;
          head = headKnownAssignedXids s; tail = tailKnownAssignedXids s
      in if tail < head \<and> TransactionIdFollowsOrEquals (KnownAssignedXids s (head - 1)) from_xid
         then Inl OutOfOrderInsertion
         else
           (let s = (if int (maxKnownAssignedXids s) < int32_add (int head) nxids
                     then KnownAssignedXidsCompress KAX_NO_SPACE clock s else s)
            in if int (maxKnownAssignedXids s) < int32_add (int (headKnownAssignedXids s)) nxids
               then Inl TooManyKnownAssignedXids
               else if int (maxKnownAssignedXids s) < int (headKnownAssignedXids s) + nxids
               then Inl KnownAssignedXidsOverrun
               else (let (head, s) = kax_insert_loop (nat nxids) (headKnownAssignedXids s) from_xid s
                     in Inr (s\<lparr>numKnownAssignedXids := numKnownAssignedXids s + nxids,
                               headKnownAssignedXids := head\<rparr>))))"

text \<open>The binary search over the used elements, valid or not; \<open>-1\<close> when the id is not there.\<close>

function kax_search_loop :: "(nat \<Rightarrow> TransactionId) \<Rightarrow> TransactionId \<Rightarrow> int \<Rightarrow> int \<Rightarrow> int" where
  "kax_search_loop xids xid first_index last_index =
     (if first_index \<le> last_index then
        (let mid_index = (first_index + last_index) div 2; mid_xid = xids (nat mid_index)
         in if xid = mid_xid then mid_index
            else if TransactionIdPrecedes xid mid_xid then kax_search_loop xids xid first_index (mid_index - 1)
            else kax_search_loop xids xid (mid_index + 1) last_index)
      else - 1)"
  by pat_completeness auto
termination
  by (relation "measure (\<lambda>(xids, xid, first_index, last_index). nat (last_index - first_index + 1))") auto

declare kax_search_loop.simps [simp del]

text \<open>The first valid element from \<open>i\<close> on, or the head.\<close>

function kax_skip_invalid :: "(nat \<Rightarrow> bool) \<Rightarrow> nat \<Rightarrow> nat \<Rightarrow> nat" where
  "kax_skip_invalid valid i head = (if i < head \<and> \<not> valid i then kax_skip_invalid valid (i + 1) head else i)"
  by pat_completeness auto
termination
  by (relation "measure (\<lambda>(valid, i, head). head - i)") auto

declare kax_skip_invalid.simps [simp del]

definition kax_set_tail :: "nat \<Rightarrow> KnownAssignedArray \<Rightarrow> KnownAssignedArray" where
  "kax_set_tail tail s =
     (if headKnownAssignedXids s \<le> tail then s\<lparr>headKnownAssignedXids := 0, tailKnownAssignedXids := 0\<rparr>
      else s\<lparr>tailKnownAssignedXids := tail\<rparr>)"

definition KnownAssignedXidsSearch ::
  "TransactionId \<Rightarrow> bool \<Rightarrow> KnownAssignedArray \<Rightarrow> bool \<times> KnownAssignedArray" where
  "KnownAssignedXidsSearch xid remove s =
     (let tail = tailKnownAssignedXids s; head = headKnownAssignedXids s;
          result_index = kax_search_loop (KnownAssignedXids s) xid (int tail) (int head - 1)
      in if result_index < 0 then (False, s)
         else if \<not> KnownAssignedXidsValid s (nat result_index) then (False, s)
         else if \<not> remove then (True, s)
         else
           (let s = s\<lparr>KnownAssignedXidsValid := (KnownAssignedXidsValid s)(nat result_index := False),
                      numKnownAssignedXids := numKnownAssignedXids s - 1\<rparr>
            in (True,
                if nat result_index = tail
                then kax_set_tail (kax_skip_invalid (KnownAssignedXidsValid s) (tail + 1) head) s
                else s)))"

definition KnownAssignedXidExists :: "TransactionId \<Rightarrow> KnownAssignedArray \<Rightarrow> bool" where
  "KnownAssignedXidExists xid s = fst (KnownAssignedXidsSearch xid False s)"

definition KnownAssignedXidsRemove :: "TransactionId \<Rightarrow> KnownAssignedArray \<Rightarrow> KnownAssignedArray" where
  "KnownAssignedXidsRemove xid s = snd (KnownAssignedXidsSearch xid True s)"

definition KnownAssignedXidsRemoveTree ::
  "TransactionId \<Rightarrow> TransactionId list \<Rightarrow> compress_clock \<Rightarrow> KnownAssignedArray \<Rightarrow> KnownAssignedArray" where
  "KnownAssignedXidsRemoveTree xid subxids clock s =
     (let s = (if TransactionIdIsValid xid then KnownAssignedXidsRemove xid s else s);
          s = fold KnownAssignedXidsRemove subxids s
      in KnownAssignedXidsCompress KAX_TRANSACTION_END clock s)"

text \<open>
  The pruning loop; \<open>is_prepared\<close> is \<open>StandbyTransactionIdIsPrepared\<close> of the two-phase module.
  It returns the number of entries it marked invalid.
\<close>

function kax_prune_loop ::
  "(TransactionId \<Rightarrow> bool) \<Rightarrow> TransactionId \<Rightarrow> nat \<Rightarrow> nat \<Rightarrow> int \<Rightarrow> KnownAssignedArray \<Rightarrow> int \<times> KnownAssignedArray" where
  "kax_prune_loop is_prepared removeXid i head count s =
     (if i < head then
        (if KnownAssignedXidsValid s i then
           (let knownXid = KnownAssignedXids s i
            in if TransactionIdFollowsOrEquals knownXid removeXid then (count, s)
               else if \<not> is_prepared knownXid then
                 kax_prune_loop is_prepared removeXid (i + 1) head (count + 1)
                   (s\<lparr>KnownAssignedXidsValid := (KnownAssignedXidsValid s)(i := False)\<rparr>)
               else kax_prune_loop is_prepared removeXid (i + 1) head count s)
         else kax_prune_loop is_prepared removeXid (i + 1) head count s)
      else (count, s))"
  by pat_completeness auto
termination
  by (relation "measure (\<lambda>(p, r, i, head, c, s). head - i)") auto

declare kax_prune_loop.simps [simp del]

definition KnownAssignedXidsRemovePreceding ::
  "(TransactionId \<Rightarrow> bool) \<Rightarrow> TransactionId \<Rightarrow> compress_clock \<Rightarrow> KnownAssignedArray \<Rightarrow> KnownAssignedArray" where
  "KnownAssignedXidsRemovePreceding is_prepared removeXid clock s =
     (if \<not> TransactionIdIsValid removeXid then
        s\<lparr>numKnownAssignedXids := 0, headKnownAssignedXids := 0, tailKnownAssignedXids := 0\<rparr>
      else
        (let tail = tailKnownAssignedXids s; head = headKnownAssignedXids s;
             (count, s) = kax_prune_loop is_prepared removeXid tail head 0 s;
             s = s\<lparr>numKnownAssignedXids := numKnownAssignedXids s - count\<rparr>;
             s = kax_set_tail (kax_skip_invalid (KnownAssignedXidsValid s) tail head) s
         in KnownAssignedXidsCompress KAX_PRUNE clock s))"

text \<open>Copying the valid ids out, up to \<open>xmax\<close>; the ids are collected in order.\<close>

function kax_get_loop ::
  "TransactionId \<Rightarrow> KnownAssignedArray \<Rightarrow> nat \<Rightarrow> nat \<Rightarrow> TransactionId list \<Rightarrow> TransactionId
    \<Rightarrow> TransactionId list \<times> TransactionId" where
  "kax_get_loop xmax s i head xarray xmin =
     (if i < head then
        (if KnownAssignedXidsValid s i then
           (let knownXid = KnownAssignedXids s i;
                xmin = (if length xarray = 0 \<and> TransactionIdPrecedes knownXid xmin then knownXid else xmin)
            in if TransactionIdIsValid xmax \<and> TransactionIdFollowsOrEquals knownXid xmax then (xarray, xmin)
               else kax_get_loop xmax s (i + 1) head (xarray @ [knownXid]) xmin)
         else kax_get_loop xmax s (i + 1) head xarray xmin)
      else (xarray, xmin))"
  by pat_completeness auto
termination
  by (relation "measure (\<lambda>(xmax, s, i, head, xarray, xmin). head - i)") auto

declare kax_get_loop.simps [simp del]

definition KnownAssignedXidsGetAndSetXmin ::
  "TransactionId \<Rightarrow> TransactionId \<Rightarrow> KnownAssignedArray \<Rightarrow> TransactionId list \<times> TransactionId" where
  "KnownAssignedXidsGetAndSetXmin xmin xmax s =
     kax_get_loop xmax s (tailKnownAssignedXids s) (headKnownAssignedXids s) [] xmin"

definition KnownAssignedXidsGet :: "TransactionId \<Rightarrow> KnownAssignedArray \<Rightarrow> TransactionId list" where
  "KnownAssignedXidsGet xmax s = fst (KnownAssignedXidsGetAndSetXmin InvalidTransactionId xmax s)"

definition KnownAssignedXidsGetOldestXmin :: "KnownAssignedArray \<Rightarrow> TransactionId" where
  "KnownAssignedXidsGetOldestXmin s =
     (let i = kax_skip_invalid (KnownAssignedXidsValid s) (tailKnownAssignedXids s) (headKnownAssignedXids s)
      in if i < headKnownAssignedXids s then KnownAssignedXids s i else InvalidTransactionId)"

definition KnownAssignedXidsReset :: "KnownAssignedArray \<Rightarrow> KnownAssignedArray" where
  "KnownAssignedXidsReset s =
     s\<lparr>numKnownAssignedXids := 0, tailKnownAssignedXids := 0, headKnownAssignedXids := 0\<rparr>"

subsection \<open>Abstraction and invariant\<close>

text \<open>All used entries, valid or not, and the valid ids.\<close>

definition ka_entries :: "KnownAssignedArray \<Rightarrow> TransactionId list" where
  "ka_entries s = map (KnownAssignedXids s) [tailKnownAssignedXids s ..< headKnownAssignedXids s]"

definition ka_span :: "KnownAssignedArray \<Rightarrow> nat \<Rightarrow> nat \<Rightarrow> TransactionId list" where
  "ka_span s i j = map (KnownAssignedXids s) (filter (KnownAssignedXidsValid s) [i ..< j])"

definition ka_list :: "KnownAssignedArray \<Rightarrow> TransactionId list" where
  "ka_list s = ka_span s (tailKnownAssignedXids s) (headKnownAssignedXids s)"

text \<open>The size of the array is the number of ids that all backends can cache, far below \<open>2 ^ 30\<close>.\<close>

definition ka_wf :: "TransactionId \<Rightarrow> KnownAssignedArray \<Rightarrow> bool" where
  "ka_wf b s \<longleftrightarrow>
     tailKnownAssignedXids s \<le> headKnownAssignedXids s
     \<and> headKnownAssignedXids s \<le> maxKnownAssignedXids s
     \<and> maxKnownAssignedXids s < 2 ^ 30
     \<and> numKnownAssignedXids s = int (length (ka_list s))
     \<and> sorted_wrt TransactionIdPrecedes (ka_entries s)
     \<and> set (ka_entries s) \<subseteq> xid_window b"

text \<open>Between operations, moreover, the tail is at a valid entry, or the array is reset.\<close>

definition ka_tail_ok :: "KnownAssignedArray \<Rightarrow> bool" where
  "ka_tail_ok s \<longleftrightarrow>
     (if tailKnownAssignedXids s < headKnownAssignedXids s
      then KnownAssignedXidsValid s (tailKnownAssignedXids s)
      else tailKnownAssignedXids s = 0)"

definition ka_inv :: "TransactionId \<Rightarrow> KnownAssignedArray \<Rightarrow> bool" where
  "ka_inv b s \<longleftrightarrow> ka_wf b s \<and> ka_tail_ok s"

lemmas ka_inv_defs = ka_inv_def ka_wf_def ka_tail_ok_def

lemma ka_span_empty [simp]: "j \<le> i \<Longrightarrow> ka_span s i j = []"
  by (simp add: ka_span_def)

lemma ka_span_step:
  "i < j \<Longrightarrow> ka_span s i j =
     (if KnownAssignedXidsValid s i then KnownAssignedXids s i # ka_span s (Suc i) j else ka_span s (Suc i) j)"
  by (simp add: ka_span_def upt_conv_Cons)

lemma ka_span_snoc:
  "i \<le> j \<Longrightarrow> ka_span s i (Suc j) =
     ka_span s i j @ (if KnownAssignedXidsValid s j then [KnownAssignedXids s j] else [])"
  by (simp add: ka_span_def)

lemma ka_span_cong:
  assumes "\<And>k. i \<le> k \<Longrightarrow> k < j \<Longrightarrow> KnownAssignedXids s k = KnownAssignedXids t k
      \<and> KnownAssignedXidsValid s k = KnownAssignedXidsValid t k"
  shows "ka_span s i j = ka_span t i j"
  unfolding ka_span_def using assms
  by (intro map_cong filter_cong) auto

lemma ka_span_length: "length (ka_span s i j) \<le> j - i"
  unfolding ka_span_def by (metis length_filter_le length_map length_upt)

lemma ka_list_length:
  assumes "ka_wf b s"
  shows "length (ka_list s) \<le> headKnownAssignedXids s \<and> length (ka_list s) \<le> maxKnownAssignedXids s"
proof -
  have "headKnownAssignedXids s \<le> maxKnownAssignedXids s" using assms by (simp add: ka_wf_def)
  moreover have "length (ka_list s) \<le> headKnownAssignedXids s - tailKnownAssignedXids s"
    unfolding ka_list_def by (rule ka_span_length)
  ultimately show ?thesis by linarith
qed

lemma ka_list_subset: "set (ka_list s) \<subseteq> set (ka_entries s)"
  by (auto simp: ka_list_def ka_span_def ka_entries_def)

lemma sorted_wrt_map_filter:
  "sorted_wrt P (map f xs) \<Longrightarrow> sorted_wrt P (map f (filter Q xs))"
  by (induction xs) auto

lemma ka_list_sorted: "ka_wf b s \<Longrightarrow> sorted_wrt TransactionIdPrecedes (ka_list s)"
  unfolding ka_wf_def ka_list_def ka_span_def ka_entries_def
  by (simp add: sorted_wrt_map_filter)

lemma ka_list_window: "ka_wf b s \<Longrightarrow> set (ka_list s) \<subseteq> xid_window b"
  using ka_list_subset unfolding ka_wf_def by blast

lemma ka_entries_nth:
  assumes "ka_wf b s" and "tailKnownAssignedXids s \<le> i" and "i < headKnownAssignedXids s"
  shows "KnownAssignedXids s i \<in> xid_window b"
  using assms unfolding ka_wf_def ka_entries_def by auto

lemma ka_entries_sorted_nth:
  assumes "ka_wf b s" and "tailKnownAssignedXids s \<le> i" and "i < j" and "j < headKnownAssignedXids s"
  shows "TransactionIdPrecedes (KnownAssignedXids s i) (KnownAssignedXids s j)"
proof -
  let ?t = "tailKnownAssignedXids s"
  have "TransactionIdPrecedes (ka_entries s ! (i - ?t)) (ka_entries s ! (j - ?t))"
    by (rule sorted_wrt_nth_less [of TransactionIdPrecedes])
      (use assms in \<open>auto simp: ka_wf_def ka_entries_def\<close>)
  with assms show ?thesis by (simp add: ka_entries_def)
qed

text \<open>The base of the half circle can move as long as the entries stay inside.\<close>

lemma ka_inv_rebase: "ka_inv b s \<Longrightarrow> set (ka_entries s) \<subseteq> xid_window b' \<Longrightarrow> ka_inv b' s"
  by (simp add: ka_inv_defs)

lemma sorted_precedes_distinct:
  assumes "sorted_wrt TransactionIdPrecedes xs"
  shows "distinct xs"
  using assms by (induction xs) auto

lemma ka_counter [simp]:
  "ka_list (s\<lparr>transactionEndsCounter := c\<rparr>) = ka_list s"
  "ka_entries (s\<lparr>transactionEndsCounter := c\<rparr>) = ka_entries s"
  "ka_wf b (s\<lparr>transactionEndsCounter := c\<rparr>) = ka_wf b s"
  "ka_tail_ok (s\<lparr>transactionEndsCounter := c\<rparr>) = ka_tail_ok s"
  "ka_inv b (s\<lparr>transactionEndsCounter := c\<rparr>) = ka_inv b s"
  by (simp_all add: ka_list_def ka_span_def ka_entries_def ka_inv_defs)

subsection \<open>Compression keeps the ids\<close>

lemma kax_compress_loop_result:
  assumes "kax_compress_loop i head c s = (c', t)" and "c \<le> i"
  shows "c' = c + length (ka_span s i head)
    \<and> (\<forall>k < c. KnownAssignedXids t k = KnownAssignedXids s k
         \<and> KnownAssignedXidsValid t k = KnownAssignedXidsValid s k)
    \<and> map (KnownAssignedXids t) [c ..< c'] = ka_span s i head
    \<and> (\<forall>k. c \<le> k \<longrightarrow> k < c' \<longrightarrow> KnownAssignedXidsValid t k)
    \<and> numKnownAssignedXids t = numKnownAssignedXids s
    \<and> maxKnownAssignedXids t = maxKnownAssignedXids s"
  using assms
proof (induction i head c s arbitrary: c' t rule: kax_compress_loop.induct)
  case (1 i head c s)
  define u where "u = s\<lparr>KnownAssignedXids := (KnownAssignedXids s)(c := KnownAssignedXids s i),
    KnownAssignedXidsValid := (KnownAssignedXidsValid s)(c := True)\<rparr>"
  note loop = kax_compress_loop.simps [of i head c s, folded u_def]
  show ?case
  proof (cases "i < head")
    case False
    with 1(3) show ?thesis unfolding loop by simp
  next
    case True
    show ?thesis
    proof (cases "KnownAssignedXidsValid s i")
      case False
      then have "kax_compress_loop (i + 1) head c s = (c', t)"
        using 1(3) True unfolding loop by simp
      moreover have "ka_span s i head = ka_span s (i + 1) head"
        using True False by (simp add: ka_span_step)
      ultimately show ?thesis
        using 1(2) [OF True False, of c' t] 1(4) by auto
    next
      case valid: True
      with 1(3) True have "kax_compress_loop (i + 1) head (c + 1) u = (c', t)"
        unfolding loop by simp
      moreover have "c + 1 \<le> i + 1" using 1(4) by simp
      moreover note 1(1) [OF True valid, of c' t, folded u_def]
      ultimately have IH: "c' = c + 1 + length (ka_span u (i + 1) head)"
        "\<And>k. k < c + 1 \<Longrightarrow> KnownAssignedXids t k = KnownAssignedXids u k
           \<and> KnownAssignedXidsValid t k = KnownAssignedXidsValid u k"
        "map (KnownAssignedXids t) [c + 1 ..< c'] = ka_span u (i + 1) head"
        "\<And>k. c + 1 \<le> k \<Longrightarrow> k < c' \<Longrightarrow> KnownAssignedXidsValid t k"
        "numKnownAssignedXids t = numKnownAssignedXids u"
        "maxKnownAssignedXids t = maxKnownAssignedXids u"
        by blast+
      have rest: "ka_span u (i + 1) head = ka_span s (i + 1) head"
        using 1(4) by (intro ka_span_cong) (auto simp: u_def)
      have span: "ka_span s i head = KnownAssignedXids s i # ka_span s (i + 1) head"
        using True valid by (simp add: ka_span_step)
      have len: "c' = c + length (ka_span s i head)" unfolding span using IH(1) rest by simp
      have "c < c'" using IH(1) by simp
      then have "[c ..< c'] = c # [c + 1 ..< c']" using upt_conv_Cons by simp
      moreover have "KnownAssignedXids t c = KnownAssignedXids s i" using IH(2) [of c] by (simp add: u_def)
      ultimately have vals: "map (KnownAssignedXids t) [c ..< c'] = ka_span s i head"
        unfolding span using IH(3) rest by simp
      have "KnownAssignedXidsValid t k" if "c \<le> k" "k < c'" for k
        using IH(2) [of k] IH(4) [of k] that by (cases "k = c") (auto simp: u_def)
      moreover have "KnownAssignedXids t k = KnownAssignedXids s k
         \<and> KnownAssignedXidsValid t k = KnownAssignedXidsValid s k" if "k < c" for k
        using IH(2) [of k] that by (simp add: u_def)
      ultimately show ?thesis using len vals IH(5,6) by (simp add: u_def)
    qed
  qed
qed

lemma ka_inv_compressed:
  fixes now :: int
  assumes "ka_wf b s" and "kax_compress_loop (tailKnownAssignedXids s) (headKnownAssignedXids s) 0 s = (c, t)"
  defines "u \<equiv> t\<lparr>tailKnownAssignedXids := 0, headKnownAssignedXids := c, lastCompressTs := now\<rparr>"
  shows "ka_inv b u \<and> ka_list u = ka_list s \<and> ka_entries u = ka_list s
    \<and> headKnownAssignedXids u = length (ka_list s) \<and> maxKnownAssignedXids u = maxKnownAssignedXids s"
proof -
  note loop = kax_compress_loop_result [OF assms(2) le0, folded ka_list_def]
  have r: "c = length (ka_list s)" "map (KnownAssignedXids t) [0 ..< c] = ka_list s"
    "numKnownAssignedXids t = numKnownAssignedXids s" "maxKnownAssignedXids t = maxKnownAssignedXids s"
    using loop unfolding add_0 by blast+
  have r_valid: "KnownAssignedXidsValid t k" if "k < c" for k
    using loop le0 [of k] that by blast
  have e: "ka_entries u = ka_list s"
    using r(2) by (simp add: u_def ka_entries_def)
  moreover have "filter (KnownAssignedXidsValid t) [0 ..< c] = [0 ..< c]"
    by (rule filter_True) (use r_valid in simp)
  then have "ka_list u = map (KnownAssignedXids t) [0 ..< c]"
    by (simp add: u_def ka_list_def ka_span_def)
  then have l: "ka_list u = ka_list s" using r(2) by simp
  moreover have "c \<le> maxKnownAssignedXids s"
    using ka_list_length [OF assms(1)] r(1) by simp
  moreover have "tailKnownAssignedXids u = 0" "headKnownAssignedXids u = length (ka_list s)"
    "numKnownAssignedXids u = int (length (ka_list s))" "maxKnownAssignedXids u = maxKnownAssignedXids s"
    "\<And>k. k < length (ka_list s) \<Longrightarrow> KnownAssignedXidsValid u k"
    using r(1,3,4) r_valid assms(1) by (simp_all add: u_def ka_wf_def)
  moreover have "maxKnownAssignedXids s < 2 ^ 30" using assms(1) by (simp add: ka_wf_def)
  moreover note ka_list_sorted [OF assms(1)] ka_list_window [OF assms(1)] r(1)
  ultimately show ?thesis
    by (simp add: ka_inv_defs)
qed

lemma kax_should_compress_state:
  "\<exists>c. snd (kax_should_compress reason now s) = s\<lparr>transactionEndsCounter := c\<rparr>"
proof -
  have "snd (kax_should_compress reason now s) \<in> {s, s\<lparr>transactionEndsCounter := transactionEndsCounter s + 1\<rparr>}"
    by (simp add: kax_should_compress_def Let_def)
  moreover have "\<exists>c. s = s\<lparr>transactionEndsCounter := c\<rparr>"
    by (rule exI [of _ "transactionEndsCounter s"]) simp
  ultimately show ?thesis by auto
qed

lemma kax_compress_cases:
  obtains c where "KnownAssignedXidsCompress reason clock s = s\<lparr>transactionEndsCounter := c\<rparr>"
    "\<not> fst (kax_should_compress reason (fst clock) s)"
  | c ci t where "KnownAssignedXidsCompress reason clock s
      = t\<lparr>tailKnownAssignedXids := 0, headKnownAssignedXids := ci, lastCompressTs := snd clock\<rparr>"
    "kax_compress_loop (tailKnownAssignedXids s) (headKnownAssignedXids s) 0 (s\<lparr>transactionEndsCounter := c\<rparr>) = (ci, t)"
proof -
  obtain c where c: "snd (kax_should_compress reason (fst clock) s) = s\<lparr>transactionEndsCounter := c\<rparr>"
    using kax_should_compress_state by blast
  obtain ci t where t: "kax_compress_loop (tailKnownAssignedXids s) (headKnownAssignedXids s) 0
      (s\<lparr>transactionEndsCounter := c\<rparr>) = (ci, t)" by fastforce
  show ?thesis
    by (cases "fst (kax_should_compress reason (fst clock) s)")
      (use c t that in \<open>simp_all add: KnownAssignedXidsCompress_def case_prod_unfold\<close>)
qed

lemma KnownAssignedXidsCompress_keeps:
  fixes reason clock
  assumes "ka_inv b s"
  defines "t \<equiv> KnownAssignedXidsCompress reason clock s"
  shows "ka_inv b t \<and> ka_list t = ka_list s \<and> set (ka_entries t) \<subseteq> set (ka_entries s)
    \<and> maxKnownAssignedXids t = maxKnownAssignedXids s"
proof (cases rule: kax_compress_cases [of reason clock s])
  case (1 c)
  with assms show ?thesis by simp
next
  case (2 c ci u)
  have "ka_wf b (s\<lparr>transactionEndsCounter := c\<rparr>)" using assms by (simp add: ka_inv_def)
  from ka_inv_compressed [OF this, of ci u "snd clock"] 2(2) show ?thesis
    unfolding t_def 2(1) using ka_list_subset [of s] by auto
qed

lemma KnownAssignedXidsCompress_no_space:
  assumes "ka_inv b s"
  shows "headKnownAssignedXids (KnownAssignedXidsCompress KAX_NO_SPACE clock s) = length (ka_list s)
    \<and> ka_entries (KnownAssignedXidsCompress KAX_NO_SPACE clock s) = ka_list s"
proof (cases rule: kax_compress_cases [of KAX_NO_SPACE clock s])
  case (1 c)
  then show ?thesis by (simp add: kax_should_compress_def Let_def split: if_splits)
next
  case (2 c ci u)
  have "ka_wf b (s\<lparr>transactionEndsCounter := c\<rparr>)" using assms by (simp add: ka_inv_def)
  from ka_inv_compressed [OF this, of ci u "snd clock"] 2(2) show ?thesis
    unfolding 2(1) by auto
qed

subsection \<open>Searching and removing\<close>

lemma kax_search_loop_result:
  fixes lo hi :: int and xid :: TransactionId
  assumes "ka_wf b s" and "int (tailKnownAssignedXids s) \<le> lo" and "hi < int (headKnownAssignedXids s)"
  defines "r \<equiv> kax_search_loop (KnownAssignedXids s) xid lo hi"
  shows "(lo \<le> r \<and> r \<le> hi \<and> KnownAssignedXids s (nat r) = xid)
    \<or> (r = - 1 \<and> (\<forall>i. lo \<le> int i \<longrightarrow> int i \<le> hi \<longrightarrow> KnownAssignedXids s i \<noteq> xid))"
  using assms(2,3) unfolding r_def
proof (induction "KnownAssignedXids s" xid lo hi rule: kax_search_loop.induct)
  case (1 xid lo hi)
  let ?X = "KnownAssignedXids s"
  define m where "m = (lo + hi) div 2"
  show ?case
  proof (cases "lo \<le> hi")
    case False
    then show ?thesis by (simp add: kax_search_loop.simps)
  next
    case True
    then have m: "lo \<le> m" "m \<le> hi" "0 \<le> m" using 1(3) by (auto simp: m_def)
    have w: "?X i \<in> xid_window b" if "lo \<le> int i" "int i \<le> hi" for i
      using that 1(3,4) by (intro ka_entries_nth [OF assms(1)]) auto
    have lt: "TransactionIdPrecedes (?X i) (?X j)" if "lo \<le> int i" "i < j" "int j \<le> hi" for i j
      using that 1(3,4) by (intro ka_entries_sorted_nth [OF assms(1)]) auto
    have unfold: "kax_search_loop ?X xid lo hi =
        (if xid = ?X (nat m) then m
         else if TransactionIdPrecedes xid (?X (nat m)) then kax_search_loop ?X xid lo (m - 1)
         else kax_search_loop ?X xid (m + 1) hi)"
      using True by (subst kax_search_loop.simps) (simp add: m_def Let_def)
    consider "xid = ?X (nat m)" | (below) "xid \<noteq> ?X (nat m)" "TransactionIdPrecedes xid (?X (nat m))"
      | (above) "xid \<noteq> ?X (nat m)" "\<not> TransactionIdPrecedes xid (?X (nat m))" by blast
    then show ?thesis
    proof cases
      case 1
      with unfold m show ?thesis by simp
    next
      case below
      have "int i \<le> m - 1" if i: "lo \<le> int i" "int i \<le> hi" "?X i = xid" for i
      proof (rule ccontr)
        assume "\<not> int i \<le> m - 1"
        moreover have "i \<noteq> nat m" using below(1) i(3) by blast
        ultimately have "TransactionIdPrecedes (?X (nat m)) (?X i)"
          using i m by (intro lt) auto
        then show False
          using below(2) i xid_order.prec_asym [OF w w, of "nat m" i] m by auto
      qed
      with 1(1) [OF True m_def refl below] 1(3,4) m below unfold show ?thesis by auto
    next
      case above
      have "m + 1 \<le> int i" if i: "lo \<le> int i" "int i \<le> hi" "?X i = xid" for i
      proof (rule ccontr)
        assume "\<not> m + 1 \<le> int i"
        moreover have "i \<noteq> nat m" using above(1) i(3) by blast
        ultimately have "TransactionIdPrecedes (?X i) (?X (nat m))"
          using i m by (intro lt) auto
        then show False using above(2) i by simp
      qed
      with 1(2) [OF True m_def refl above] 1(3,4) m above unfold show ?thesis by auto
    qed
  qed
qed

lemma kax_skip_invalid_result:
  fixes valid :: "nat \<Rightarrow> bool"
  assumes "i \<le> head"
  defines "r \<equiv> kax_skip_invalid valid i head"
  shows "i \<le> r \<and> r \<le> head \<and> (\<forall>k. i \<le> k \<longrightarrow> k < r \<longrightarrow> \<not> valid k) \<and> (r < head \<longrightarrow> valid r)"
  using assms(1) unfolding r_def
proof (induction valid i head rule: kax_skip_invalid.induct)
  case (1 valid i head)
  show ?case
  proof (cases "i < head \<and> \<not> valid i")
    case True
    then have eq: "kax_skip_invalid valid i head = kax_skip_invalid valid (i + 1) head"
      by (subst kax_skip_invalid.simps) simp
    have IH: "i + 1 \<le> kax_skip_invalid valid (i + 1) head" "kax_skip_invalid valid (i + 1) head \<le> head"
      "\<And>k. i + 1 \<le> k \<Longrightarrow> k < kax_skip_invalid valid (i + 1) head \<Longrightarrow> \<not> valid k"
      "kax_skip_invalid valid (i + 1) head < head \<Longrightarrow> valid (kax_skip_invalid valid (i + 1) head)"
      using 1(1) [OF True] True by auto
    have "\<not> valid k" if "i \<le> k" "k < kax_skip_invalid valid (i + 1) head" for k
      using that IH(3) True by (cases "k = i") auto
    with IH show ?thesis unfolding eq by simp
  next
    case False
    then have "kax_skip_invalid valid i head = i" by (subst kax_skip_invalid.simps) auto
    with False 1(2) show ?thesis by auto
  qed
qed

lemma upt_split: "i \<le> k \<Longrightarrow> k \<le> j \<Longrightarrow> [i ..< j] = [i ..< k] @ [k ..< j]"
  using upt_add_eq_append [of i k "j - k"] by simp

lemma ka_span_skip:
  assumes "i \<le> k" and "k \<le> j" and "\<And>l. i \<le> l \<Longrightarrow> l < k \<Longrightarrow> \<not> KnownAssignedXidsValid s l"
  shows "ka_span s i j = ka_span s k j"
proof -
  have "[i ..< j] = [i ..< k] @ [k ..< j]"
    using assms(1,2) by (rule upt_split)
  moreover have "filter (KnownAssignedXidsValid s) [i ..< k] = []"
    using assms(3) by (auto simp: filter_empty_conv)
  ultimately show ?thesis by (simp add: ka_span_def)
qed

text \<open>Moving the tail over invalid entries restores the invariant and keeps the ids.\<close>

lemma kax_set_tail_restores:
  assumes "ka_wf b s" and "tailKnownAssignedXids s \<le> i" and "i \<le> headKnownAssignedXids s"
    and "\<And>l. tailKnownAssignedXids s \<le> l \<Longrightarrow> l < i \<Longrightarrow> \<not> KnownAssignedXidsValid s l"
  defines "t \<equiv> kax_set_tail (kax_skip_invalid (KnownAssignedXidsValid s) i (headKnownAssignedXids s)) s"
  shows "ka_inv b t \<and> ka_list t = ka_list s \<and> set (ka_entries t) \<subseteq> set (ka_entries s)
    \<and> maxKnownAssignedXids t = maxKnownAssignedXids s"
proof -
  let ?h = "headKnownAssignedXids s"
  define r where "r = kax_skip_invalid (KnownAssignedXidsValid s) i ?h"
  have r: "i \<le> r" "r \<le> ?h" "\<And>k. i \<le> k \<Longrightarrow> k < r \<Longrightarrow> \<not> KnownAssignedXidsValid s k"
    "r < ?h \<Longrightarrow> KnownAssignedXidsValid s r"
    using kax_skip_invalid_result [OF assms(3), of "KnownAssignedXidsValid s"] by (auto simp: r_def)
  have inv: "\<not> KnownAssignedXidsValid s k" if "tailKnownAssignedXids s \<le> k" "k < r" for k
    using that r(3) assms(4) by (cases "k < i") auto
  have l: "ka_list s = ka_span s r ?h"
    unfolding ka_list_def using r(1,2) assms(2) inv by (intro ka_span_skip) auto
  show ?thesis
  proof (cases "r < ?h")
    case True
    have t: "t = s\<lparr>tailKnownAssignedXids := r\<rparr>"
      using True by (simp add: t_def kax_set_tail_def r_def)
    have e: "ka_entries s = map (KnownAssignedXids s) [tailKnownAssignedXids s ..< r] @ ka_entries t"
      using upt_split [of "tailKnownAssignedXids s" r ?h] r(1,2) assms(2) by (simp add: t ka_entries_def)
    have lt: "ka_list t = ka_list s" unfolding l by (simp add: t ka_list_def ka_span_def)
    have "sorted_wrt TransactionIdPrecedes (ka_entries t)" "set (ka_entries t) \<subseteq> xid_window b"
      using assms(1) unfolding ka_wf_def e by (auto simp: sorted_wrt_append)
    then have "ka_inv b t"
      using assms(1) True r(4) lt by (auto simp: ka_inv_defs t)
    then show ?thesis using lt e by (auto simp: t)
  next
    case False
    then have "t = s\<lparr>headKnownAssignedXids := 0, tailKnownAssignedXids := 0\<rparr>"
      by (simp add: t_def kax_set_tail_def r_def)
    moreover have "ka_list s = []" using l False by simp
    ultimately show ?thesis
      using assms(1) by (simp add: ka_inv_defs ka_list_def ka_entries_def)
  qed
qed

lemma ka_entries_inj:
  assumes "ka_wf b s" and "tailKnownAssignedXids s \<le> i" and "i < headKnownAssignedXids s"
    and "tailKnownAssignedXids s \<le> j" and "j < headKnownAssignedXids s"
    and "KnownAssignedXids s i = KnownAssignedXids s j"
  shows "i = j"
proof (rule ccontr)
  assume "i \<noteq> j"
  then consider "i < j" | "j < i" by linarith
  then show False
    using ka_entries_sorted_nth [OF assms(1), of i j] ka_entries_sorted_nth [OF assms(1), of j i] assms(2-)
    by cases simp_all
qed

lemma in_ka_list:
  "xid \<in> set (ka_list s) \<longleftrightarrow>
     (\<exists>i. tailKnownAssignedXids s \<le> i \<and> i < headKnownAssignedXids s
        \<and> KnownAssignedXidsValid s i \<and> KnownAssignedXids s i = xid)"
  by (auto simp: ka_list_def ka_span_def)

text \<open>A search either finds the one used index of a valid id, or the id is not in the array.\<close>

lemma kax_search_cases:
  assumes "ka_wf b s"
  obtains (found) i where "tailKnownAssignedXids s \<le> i" "i < headKnownAssignedXids s"
    "KnownAssignedXidsValid s i" "KnownAssignedXids s i = xid" "xid \<in> set (ka_list s)"
    "kax_search_loop (KnownAssignedXids s) xid (int (tailKnownAssignedXids s)) (int (headKnownAssignedXids s) - 1) = int i"
  | (absent) "xid \<notin> set (ka_list s)" "\<And>remove. KnownAssignedXidsSearch xid remove s = (False, s)"
proof -
  define r where "r = kax_search_loop (KnownAssignedXids s) xid
    (int (tailKnownAssignedXids s)) (int (headKnownAssignedXids s) - 1)"
  consider (at) "int (tailKnownAssignedXids s) \<le> r" "r \<le> int (headKnownAssignedXids s) - 1"
      "KnownAssignedXids s (nat r) = xid"
    | (no) "r = - 1" "\<And>i. tailKnownAssignedXids s \<le> i \<Longrightarrow> i < headKnownAssignedXids s \<Longrightarrow> KnownAssignedXids s i \<noteq> xid"
    using kax_search_loop_result [OF assms, of "int (tailKnownAssignedXids s)" "int (headKnownAssignedXids s) - 1" xid]
    by (force simp: r_def)
  then show ?thesis
  proof cases
    case at
    then have i: "tailKnownAssignedXids s \<le> nat r" "nat r < headKnownAssignedXids s" "r = int (nat r)" by auto
    show ?thesis
    proof (cases "KnownAssignedXidsValid s (nat r)")
      case True
      then show ?thesis using i at(3) by (intro found [of "nat r"]) (auto simp: in_ka_list r_def)
    next
      case False
      then have "xid \<notin> set (ka_list s)"
        using ka_entries_inj [OF assms _ _ i(1,2)] at(3) by (auto simp: in_ka_list)
      then show ?thesis
        using False by (intro absent) (auto simp: KnownAssignedXidsSearch_def Let_def r_def)
    qed
  next
    case no
    then show ?thesis
      by (intro absent) (auto simp: KnownAssignedXidsSearch_def Let_def in_ka_list r_def)
  qed
qed

lemma KnownAssignedXidsSearch_iff:
  assumes "ka_wf b s"
  shows "fst (KnownAssignedXidsSearch xid remove s) \<longleftrightarrow> xid \<in> set (ka_list s)"
  using assms
proof (cases rule: kax_search_cases [where xid = xid])
  case (found i)
  then show ?thesis by (simp add: KnownAssignedXidsSearch_def Let_def)
qed simp

lemma KnownAssignedXidsSearch_reads: "snd (KnownAssignedXidsSearch xid False s) = s"
  by (simp add: KnownAssignedXidsSearch_def Let_def)

lemma ka_list_unmark:
  assumes "ka_wf b s" and "tailKnownAssignedXids s \<le> i" and "i < headKnownAssignedXids s"
  shows "ka_list (s\<lparr>KnownAssignedXidsValid := (KnownAssignedXidsValid s)(i := False), numKnownAssignedXids := n\<rparr>)
    = filter (\<lambda>x. x \<noteq> KnownAssignedXids s i) (ka_list s)"
proof -
  have "filter ((KnownAssignedXidsValid s)(i := False)) [tailKnownAssignedXids s ..< headKnownAssignedXids s]
    = filter (\<lambda>k. KnownAssignedXids s k \<noteq> KnownAssignedXids s i)
        (filter (KnownAssignedXidsValid s) [tailKnownAssignedXids s ..< headKnownAssignedXids s])"
    unfolding filter_filter
    by (rule filter_cong [OF refl]) (use ka_entries_inj [OF assms(1)] assms(2,3) in auto)
  then show ?thesis by (simp add: ka_list_def ka_span_def filter_map o_def)
qed

lemma length_filter_remove:
  assumes "distinct xs" and "x \<in> set xs"
  shows "length xs = Suc (length (filter (\<lambda>y. y \<noteq> x) xs))"
  using assms by (induction xs) (auto intro!: arg_cong [OF filter_True, symmetric])

lemma ka_wf_unmark:
  assumes "ka_wf b s" and "tailKnownAssignedXids s \<le> i" and "i < headKnownAssignedXids s"
    and "KnownAssignedXidsValid s i"
  shows "ka_wf b (s\<lparr>KnownAssignedXidsValid := (KnownAssignedXidsValid s)(i := False),
                    numKnownAssignedXids := numKnownAssignedXids s - 1\<rparr>)"
proof -
  have "KnownAssignedXids s i \<in> set (ka_list s)" using assms by (auto simp: in_ka_list)
  moreover have "distinct (ka_list s)"
    by (rule sorted_precedes_distinct [OF ka_list_sorted [OF assms(1)]])
  ultimately have "length (ka_list s) = Suc (length (filter (\<lambda>x. x \<noteq> KnownAssignedXids s i) (ka_list s)))"
    by (intro length_filter_remove)
  with assms(1) show ?thesis
    unfolding ka_wf_def ka_list_unmark [OF assms(1-3)] by (simp add: ka_entries_def)
qed

lemma KnownAssignedXidsRemove_keeps:
  assumes "ka_inv b s"
  shows "ka_inv b (KnownAssignedXidsRemove xid s)
    \<and> ka_list (KnownAssignedXidsRemove xid s) = filter (\<lambda>x. x \<noteq> xid) (ka_list s)
    \<and> set (ka_entries (KnownAssignedXidsRemove xid s)) \<subseteq> set (ka_entries s)
    \<and> maxKnownAssignedXids (KnownAssignedXidsRemove xid s) = maxKnownAssignedXids s"
proof -
  have wf: "ka_wf b s" using assms by (simp add: ka_inv_def)
  then show ?thesis
  proof (cases rule: kax_search_cases [where xid = xid])
    case absent
    then have "KnownAssignedXidsRemove xid s = s" by (simp add: KnownAssignedXidsRemove_def)
    moreover have "filter (\<lambda>x. x \<noteq> xid) (ka_list s) = ka_list s"
      using absent(1) by (auto simp: filter_id_conv)
    ultimately show ?thesis using assms by simp
  next
    case (found i)
    define u where "u = s\<lparr>KnownAssignedXidsValid := (KnownAssignedXidsValid s)(i := False),
      numKnownAssignedXids := numKnownAssignedXids s - 1\<rparr>"
    have u: "ka_wf b u" "ka_list u = filter (\<lambda>x. x \<noteq> xid) (ka_list s)"
      using ka_wf_unmark [OF wf found(1-3)] ka_list_unmark [OF wf found(1,2)] found(4) by (simp_all add: u_def)
    have f: "tailKnownAssignedXids u = tailKnownAssignedXids s" "headKnownAssignedXids u = headKnownAssignedXids s"
      "maxKnownAssignedXids u = maxKnownAssignedXids s" "ka_entries u = ka_entries s"
      "KnownAssignedXidsValid u = (KnownAssignedXidsValid s)(i := False)"
      by (simp_all add: u_def ka_entries_def)
    have r: "KnownAssignedXidsRemove xid s =
        (if i = tailKnownAssignedXids s
         then kax_set_tail (kax_skip_invalid (KnownAssignedXidsValid u) (tailKnownAssignedXids s + 1) (headKnownAssignedXids s)) u
         else u)"
      using found(3,6) by (simp add: KnownAssignedXidsRemove_def KnownAssignedXidsSearch_def Let_def u_def)
    show ?thesis
    proof (cases "i = tailKnownAssignedXids s")
      case True
      with kax_set_tail_restores [OF u(1), of "tailKnownAssignedXids s + 1"] found(2) f u(2)
      show ?thesis unfolding r by auto
    next
      case False
      then have "ka_inv b u" using assms u(1) f found(1) by (auto simp: ka_inv_def ka_tail_ok_def split: if_splits)
      then show ?thesis using False u(2) f by (simp add: r)
    qed
  qed
qed

lemma KnownAssignedXidsRemove_fold:
  assumes "ka_inv b s"
  shows "ka_inv b (fold KnownAssignedXidsRemove xs s)
    \<and> ka_list (fold KnownAssignedXidsRemove xs s) = filter (\<lambda>x. x \<notin> set xs) (ka_list s)
    \<and> set (ka_entries (fold KnownAssignedXidsRemove xs s)) \<subseteq> set (ka_entries s)
    \<and> maxKnownAssignedXids (fold KnownAssignedXidsRemove xs s) = maxKnownAssignedXids s"
  using assms
proof (induction xs arbitrary: s)
  case Nil
  then show ?case by simp
next
  case (Cons a xs)
  note r = KnownAssignedXidsRemove_keeps [OF Cons.prems, of a]
  then have "ka_inv b (KnownAssignedXidsRemove a s)" by blast
  from Cons.IH [OF this] r show ?case
    by (auto simp: filter_filter intro: filter_cong)
qed

text \<open>The subtransactions and, unless it is invalid, the top-level id leave the array; nothing else does.\<close>

lemma KnownAssignedXidsRemoveTree_keeps:
  assumes "ka_inv b s"
  shows "ka_inv b (KnownAssignedXidsRemoveTree xid subxids clock s)
    \<and> ka_list (KnownAssignedXidsRemoveTree xid subxids clock s) = filter (\<lambda>x. x \<notin> set (xid # subxids)) (ka_list s)
    \<and> set (ka_entries (KnownAssignedXidsRemoveTree xid subxids clock s)) \<subseteq> set (ka_entries s)
    \<and> maxKnownAssignedXids (KnownAssignedXidsRemoveTree xid subxids clock s) = maxKnownAssignedXids s"
proof -
  define u where "u = (if TransactionIdIsValid xid then KnownAssignedXidsRemove xid s else s)"
  have wf: "ka_wf b s" using assms by (simp add: ka_inv_def)
  have "filter (\<lambda>x. x \<noteq> xid) (ka_list s) = ka_list s" if "\<not> TransactionIdIsValid xid"
    using ka_list_window [OF wf] that normal_valid window_normal by (auto intro!: filter_True)
  then have u: "ka_inv b u" "ka_list u = filter (\<lambda>x. x \<noteq> xid) (ka_list s)"
    "set (ka_entries u) \<subseteq> set (ka_entries s)" "maxKnownAssignedXids u = maxKnownAssignedXids s"
    using KnownAssignedXidsRemove_keeps [OF assms, of xid] assms by (simp_all add: u_def)
  define v where "v = fold KnownAssignedXidsRemove subxids u"
  have v: "ka_inv b v" "ka_list v = filter (\<lambda>x. x \<notin> set subxids) (ka_list u)"
    "set (ka_entries v) \<subseteq> set (ka_entries u)" "maxKnownAssignedXids v = maxKnownAssignedXids u"
    using KnownAssignedXidsRemove_fold [OF u(1), of subxids] by (simp_all add: v_def)
  have "KnownAssignedXidsRemoveTree xid subxids clock s = KnownAssignedXidsCompress KAX_TRANSACTION_END clock v"
    by (simp add: KnownAssignedXidsRemoveTree_def u_def v_def)
  moreover have "ka_list v = filter (\<lambda>x. x \<notin> set (xid # subxids)) (ka_list s)"
    unfolding v(2) u(2) filter_filter by (auto intro: filter_cong)
  ultimately show ?thesis
    using KnownAssignedXidsCompress_keeps [OF v(1), of KAX_TRANSACTION_END clock] u(3,4) v(3,4) by auto
qed

subsection \<open>Pruning\<close>

lemma kax_prune_loop_result:
  assumes "kax_prune_loop is_prepared r i head count s = (n, t)"
    and "r \<in> xid_window b"
    and "\<And>k. i \<le> k \<Longrightarrow> k < head \<Longrightarrow> KnownAssignedXids s k \<in> xid_window b"
    and "\<And>k l. i \<le> k \<Longrightarrow> k < l \<Longrightarrow> l < head \<Longrightarrow> TransactionIdPrecedes (KnownAssignedXids s k) (KnownAssignedXids s l)"
  shows "\<exists>valid. t = s\<lparr>KnownAssignedXidsValid := valid\<rparr>
    \<and> (\<forall>k < i. valid k = KnownAssignedXidsValid s k)
    \<and> ka_span t i head = filter (\<lambda>x. \<not> TransactionIdPrecedes x r \<or> is_prepared x) (ka_span s i head)
    \<and> n = count + int (length (ka_span s i head)) - int (length (ka_span t i head))"
  using assms
proof (induction is_prepared r i head count s arbitrary: n t rule: kax_prune_loop.induct)
  case (1 is_prepared r i head count s)
  define x where "x = KnownAssignedXids s i"
  define u where "u = s\<lparr>KnownAssignedXidsValid := (KnownAssignedXidsValid s)(i := False)\<rparr>"
  define keep where "keep = (\<lambda>x. \<not> TransactionIdPrecedes x r \<or> is_prepared x)"
  note loop = kax_prune_loop.simps [of is_prepared r i head count s, folded x_def u_def, unfolded Let_def]
  note IH = "1.IH" [folded x_def u_def keep_def]
  have keep_self: "\<exists>valid. s = s\<lparr>KnownAssignedXidsValid := valid\<rparr> \<and> (\<forall>k < i. valid k = KnownAssignedXidsValid s k)"
    by (rule exI [of _ "KnownAssignedXidsValid s"]) simp
  consider (over) "\<not> i < head" | (skip) "i < head" "\<not> KnownAssignedXidsValid s i"
    | (stop) "i < head" "KnownAssignedXidsValid s i" "TransactionIdFollowsOrEquals x r"
    | (remove) "i < head" "KnownAssignedXidsValid s i" "\<not> TransactionIdFollowsOrEquals x r" "\<not> is_prepared x"
    | (prep) "i < head" "KnownAssignedXidsValid s i" "\<not> TransactionIdFollowsOrEquals x r" "is_prepared x"
    by blast
  then have "\<exists>valid. t = s\<lparr>KnownAssignedXidsValid := valid\<rparr>
    \<and> (\<forall>k < i. valid k = KnownAssignedXidsValid s k)
    \<and> ka_span t i head = filter keep (ka_span s i head)
    \<and> n = count + int (length (ka_span s i head)) - int (length (ka_span t i head))"
  proof cases
    case over
    then have "t = s" "n = count" using "1.prems"(1) unfolding loop by auto
    with keep_self over show ?thesis by auto
  next
    case stop
    then have e: "t = s" "n = count" using "1.prems"(1) unfolding loop by auto
    have "keep y" if y: "y \<in> set (ka_span s i head)" for y
    proof -
      obtain k where k: "i \<le> k" "k < head" "y = KnownAssignedXids s k"
        using y by (auto simp: ka_span_def)
      have w: "y \<in> xid_window b" "x \<in> xid_window b"
        using "1.prems"(3) k stop(1) by (auto simp: x_def)
      have "x = y \<or> TransactionIdPrecedes x y"
        using "1.prems"(4) [of i k] k by (cases "i = k") (auto simp: x_def)
      then show ?thesis
        using stop(3) "1.prems"(2) w by (auto simp: keep_def follows_or_equals_window precedes_window)
    qed
    then have "filter keep (ka_span s i head) = ka_span s i head" by (auto intro!: filter_True)
    with keep_self show ?thesis unfolding e by auto
  next
    case skip
    then have "kax_prune_loop is_prepared r (i + 1) head count s = (n, t)" using "1.prems"(1) unfolding loop by simp
    from IH(3) [OF skip this] "1.prems"(2-4)
    obtain valid where v: "t = s\<lparr>KnownAssignedXidsValid := valid\<rparr>" "\<forall>k < i + 1. valid k = KnownAssignedXidsValid s k"
      "ka_span t (i + 1) head = filter keep (ka_span s (i + 1) head)"
      "n = count + int (length (ka_span s (i + 1) head)) - int (length (ka_span t (i + 1) head))"
      by auto
    have "ka_span s i head = ka_span s (i + 1) head" "ka_span t i head = ka_span t (i + 1) head"
      using skip v(1,2) by (auto simp: ka_span_step x_def)
    with v show ?thesis by auto
  next
    case prep
    then have "kax_prune_loop is_prepared r (i + 1) head count s = (n, t)" using "1.prems"(1) unfolding loop by simp
    from IH(2) [OF prep(1,2) refl _ _ this] prep(3,4) "1.prems"(2-4)
    obtain valid where v: "t = s\<lparr>KnownAssignedXidsValid := valid\<rparr>" "\<forall>k < i + 1. valid k = KnownAssignedXidsValid s k"
      "ka_span t (i + 1) head = filter keep (ka_span s (i + 1) head)"
      "n = count + int (length (ka_span s (i + 1) head)) - int (length (ka_span t (i + 1) head))"
      by (auto simp: x_def)
    have "ka_span s i head = x # ka_span s (i + 1) head" "ka_span t i head = x # ka_span t (i + 1) head"
      using prep v(1,2) by (auto simp: ka_span_step x_def)
    moreover have "keep x" using prep(4) by (simp add: keep_def)
    ultimately show ?thesis using v by auto
  next
    case remove
    then have "kax_prune_loop is_prepared r (i + 1) head (count + 1) u = (n, t)" using "1.prems"(1) unfolding loop by simp
    from IH(1) [OF remove(1,2) refl _ _ this] remove(3,4) "1.prems"(2-4)
    obtain valid where v: "t = u\<lparr>KnownAssignedXidsValid := valid\<rparr>" "\<forall>k < i + 1. valid k = KnownAssignedXidsValid u k"
      "ka_span t (i + 1) head = filter keep (ka_span u (i + 1) head)"
      "n = count + 1 + int (length (ka_span u (i + 1) head)) - int (length (ka_span t (i + 1) head))"
      by (auto simp: x_def u_def)
    have "ka_span u (i + 1) head = ka_span s (i + 1) head"
      by (intro ka_span_cong) (auto simp: u_def)
    moreover have "ka_span s i head = x # ka_span s (i + 1) head" "ka_span t i head = ka_span t (i + 1) head"
      using remove v(1,2) by (auto simp: ka_span_step x_def u_def)
    moreover have "\<not> keep x" using remove(3,4) by (simp add: keep_def precedes_not_follows)
    moreover have "t = s\<lparr>KnownAssignedXidsValid := valid\<rparr>" "\<forall>k < i. valid k = KnownAssignedXidsValid s k"
      using v(1,2) by (auto simp: u_def)
    ultimately show ?thesis using v(3,4) by auto
  qed
  then show ?case unfolding keep_def .
qed

lemma KnownAssignedXidsRemovePreceding_keeps:
  assumes "ka_inv b s" and "r \<in> xid_window b"
  shows "ka_inv b (KnownAssignedXidsRemovePreceding is_prepared r clock s)
    \<and> ka_list (KnownAssignedXidsRemovePreceding is_prepared r clock s)
        = filter (\<lambda>x. \<not> TransactionIdPrecedes x r \<or> is_prepared x) (ka_list s)
    \<and> set (ka_entries (KnownAssignedXidsRemovePreceding is_prepared r clock s)) \<subseteq> set (ka_entries s)
    \<and> maxKnownAssignedXids (KnownAssignedXidsRemovePreceding is_prepared r clock s) = maxKnownAssignedXids s"
proof -
  have wf: "ka_wf b s" using assms by (simp add: ka_inv_def)
  obtain n t where loop: "kax_prune_loop is_prepared r (tailKnownAssignedXids s) (headKnownAssignedXids s) 0 s = (n, t)"
    by fastforce
  obtain valid where v: "t = s\<lparr>KnownAssignedXidsValid := valid\<rparr>"
    "ka_list t = filter (\<lambda>x. \<not> TransactionIdPrecedes x r \<or> is_prepared x) (ka_list s)"
    "n = int (length (ka_list s)) - int (length (ka_list t))"
    using kax_prune_loop_result [OF loop assms(2) ka_entries_nth [OF wf] ka_entries_sorted_nth [OF wf]]
    by (auto simp: ka_list_def)
  define u where "u = t\<lparr>numKnownAssignedXids := numKnownAssignedXids t - n\<rparr>"
  have ul: "ka_list u = ka_list t" by (simp add: u_def ka_list_def ka_span_def)
  have ue: "ka_entries u = ka_entries s" by (simp add: u_def v(1) ka_entries_def)
  have uf: "tailKnownAssignedXids u = tailKnownAssignedXids s" "headKnownAssignedXids u = headKnownAssignedXids s"
    "maxKnownAssignedXids u = maxKnownAssignedXids s" "numKnownAssignedXids u = numKnownAssignedXids s - n"
    by (simp_all add: u_def v(1))
  have uw: "ka_wf b u" using wf v(3) by (simp add: ka_wf_def uf ue ul)
  define w where "w = kax_set_tail (kax_skip_invalid (KnownAssignedXidsValid u) (tailKnownAssignedXids s) (headKnownAssignedXids s)) u"
  have w: "ka_inv b w" "ka_list w = ka_list u" "set (ka_entries w) \<subseteq> set (ka_entries u)"
    "maxKnownAssignedXids w = maxKnownAssignedXids u"
    using kax_set_tail_restores [OF uw order.refl] uw by (simp_all add: w_def uf ka_wf_def)
  have "TransactionIdIsValid r" using assms(2) by (simp add: window_normal normal_valid)
  then have "KnownAssignedXidsRemovePreceding is_prepared r clock s = KnownAssignedXidsCompress KAX_PRUNE clock w"
    by (simp add: KnownAssignedXidsRemovePreceding_def loop Let_def w_def u_def)
  then show ?thesis
    using KnownAssignedXidsCompress_keeps [OF w(1), of KAX_PRUNE clock] w(2-4) ul ue v(2) uf(3) by auto
qed

lemma KnownAssignedXidsRemovePreceding_all:
  "maxKnownAssignedXids s < 2 ^ 30 \<Longrightarrow> ka_inv b' (KnownAssignedXidsRemovePreceding is_prepared InvalidTransactionId clock s)
    \<and> ka_list (KnownAssignedXidsRemovePreceding is_prepared InvalidTransactionId clock s) = []
    \<and> ka_entries (KnownAssignedXidsRemovePreceding is_prepared InvalidTransactionId clock s) = []"
  by (simp add: KnownAssignedXidsRemovePreceding_def ka_inv_defs ka_list_def ka_entries_def)

lemma KnownAssignedXidsReset_empty:
  "maxKnownAssignedXids s < 2 ^ 30 \<Longrightarrow> ka_inv b (KnownAssignedXidsReset s) \<and> ka_list (KnownAssignedXidsReset s) = []
    \<and> ka_entries (KnownAssignedXidsReset s) = []
    \<and> maxKnownAssignedXids (KnownAssignedXidsReset s) = maxKnownAssignedXids s"
  by (simp add: KnownAssignedXidsReset_def ka_inv_defs ka_list_def ka_entries_def)

subsection \<open>Reading the ids\<close>

lemma kax_get_loop_result:
  "kax_get_loop xmax s i head xarray xmin =
     (xarray @ takeWhile (\<lambda>x. \<not> (TransactionIdIsValid xmax \<and> TransactionIdFollowsOrEquals x xmax)) (ka_span s i head),
      if xarray = [] \<and> ka_span s i head \<noteq> [] \<and> TransactionIdPrecedes (hd (ka_span s i head)) xmin
      then hd (ka_span s i head) else xmin)"
proof (induction xmax s i head xarray xmin rule: kax_get_loop.induct)
  case (1 xmax s i head xarray xmin)
  show ?case
  proof (cases "i < head \<and> KnownAssignedXidsValid s i")
    case True
    with "1.IH"(1) show ?thesis
      by (subst kax_get_loop.simps) (simp add: ka_span_step Let_def)
  next
    case False
    with "1.IH"(2) show ?thesis
      by (subst kax_get_loop.simps) (auto simp: ka_span_step)
  qed
qed

lemma takeWhile_sorted:
  assumes "sorted_wrt TransactionIdPrecedes xs" and "set xs \<subseteq> xid_window b" and "r \<in> xid_window b"
  shows "takeWhile (\<lambda>x. TransactionIdPrecedes x r) xs = filter (\<lambda>x. TransactionIdPrecedes x r) xs"
  using assms
proof (induction xs)
  case (Cons x xs)
  have "\<not> TransactionIdPrecedes y r" if "\<not> TransactionIdPrecedes x r" "y \<in> set xs" for y
    using that Cons.prems xid_order.prec_trans [of x b y r] by auto
  then have "filter (\<lambda>x. TransactionIdPrecedes x r) xs = []" if "\<not> TransactionIdPrecedes x r"
    using that by (auto simp: filter_empty_conv)
  with Cons show ?case by auto
qed simp

text \<open>
  A snapshot gets exactly the valid ids before its \<open>xmax\<close>, in order, and its \<open>xmin\<close> is lowered to
  the oldest valid id.
\<close>

lemma KnownAssignedXidsGetAndSetXmin_result:
  assumes "ka_wf b s" and "xmax \<in> xid_window b"
  shows "KnownAssignedXidsGetAndSetXmin xmin xmax s =
    (filter (\<lambda>x. TransactionIdPrecedes x xmax) (ka_list s),
     if ka_list s \<noteq> [] \<and> TransactionIdPrecedes (hd (ka_list s)) xmin then hd (ka_list s) else xmin)"
proof -
  have "TransactionIdIsValid xmax" using assms(2) by (simp add: window_normal normal_valid)
  with takeWhile_sorted [OF ka_list_sorted [OF assms(1)] ka_list_window [OF assms(1)] assms(2)]
  show ?thesis
    unfolding KnownAssignedXidsGetAndSetXmin_def kax_get_loop_result ka_list_def [symmetric]
    by (simp add: precedes_not_follows)
qed

lemma ka_tail_first:
  assumes "ka_inv b s"
  shows "KnownAssignedXidsGetOldestXmin s = (if ka_list s = [] then InvalidTransactionId else hd (ka_list s))"
proof (cases "tailKnownAssignedXids s < headKnownAssignedXids s")
  case True
  then have "KnownAssignedXidsValid s (tailKnownAssignedXids s)"
    using assms by (simp add: ka_inv_def ka_tail_ok_def)
  with True show ?thesis
    by (simp add: KnownAssignedXidsGetOldestXmin_def kax_skip_invalid.simps [of _ "tailKnownAssignedXids s"]
        ka_list_def ka_span_step)
next
  case False
  then show ?thesis
    by (simp add: KnownAssignedXidsGetOldestXmin_def kax_skip_invalid.simps [of _ "tailKnownAssignedXids s"]
        ka_list_def)
qed

subsection \<open>Adding a run of ids\<close>

text \<open>The \<open>n\<close> ids from \<open>x\<close> on, and the ids of a half circle between two of its ids.\<close>

fun xid_run :: "nat \<Rightarrow> TransactionId \<Rightarrow> TransactionId list" where
  "xid_run 0 x = []" |
  "xid_run (Suc n) x = x # xid_run n (TransactionIdAdvance x)"

definition xid_between :: "TransactionId \<Rightarrow> TransactionId \<Rightarrow> TransactionId \<Rightarrow> TransactionId set" where
  "xid_between b from_xid to_xid =
     {x \<in> xid_window b. unat (from_xid - b) \<le> unat (x - b) \<and> unat (x - b) \<le> unat (to_xid - b)}"

lemma xid_offset:
  fixes x b :: TransactionId
  assumes "unat (x - b) + n < 4294967296"
  shows "unat (x + of_nat n - b) = unat (x - b) + n"
proof -
  have e: "x + of_nat n - b = (x - b) + of_nat n" by simp
  have "unat ((x - b) + of_nat n :: TransactionId) = (unat (x - b) + n) mod 4294967296"
    by (simp add: unat_word_ariths unat_of_nat mod_simps)
  with assms show ?thesis unfolding e by simp
qed

lemma xid_at_offset:
  fixes x y b :: TransactionId
  assumes "unat (y - b) = unat (x - b) + n"
  shows "y = x + of_nat n"
proof -
  have "of_nat (unat (y - b)) = (of_nat (unat (x - b)) + of_nat n :: TransactionId)"
    using assms by simp
  then have "y - b = x - b + of_nat n" by simp
  then show ?thesis by (simp add: algebra_simps)
qed

text \<open>Inside a half circle, \<open>TransactionIdAdvance\<close> goes to the next normal id and skips none.\<close>

lemma window_advance:
  assumes x: "x \<in> xid_window b" and t: "t \<in> xid_window b" and lt: "unat (x - b) < unat (t - b)"
  shows "TransactionIdAdvance x \<in> xid_window b \<and> unat (x - b) < unat (TransactionIdAdvance x - b)
    \<and> unat (TransactionIdAdvance x - b) \<le> unat (t - b)
    \<and> (\<forall>y \<in> xid_window b. unat (x - b) < unat (y - b) \<longrightarrow> unat (TransactionIdAdvance x - b) \<le> unat (y - b))"
proof -
  have tb: "unat (t - b) < 2147483648" using t by (simp add: xid_window_def)
  have nx: "TransactionIdIsNormal x" using x by (rule window_normal)
  show ?thesis
  proof (cases "x + 1 = 0")
    case False
    have "x \<noteq> 0" "x \<noteq> 1" using nx not_normal_iff by blast+
    then have "x + 1 \<noteq> 1" "x + 1 \<noteq> 2" by (auto simp: eq_diff_eq [symmetric])
    with False have "\<not> x + 1 < FirstNormalTransactionId" by (simp add: special_cases)
    then have a: "TransactionIdAdvance x = x + of_nat 1" by (simp add: TransactionIdAdvance_def)
    have "unat (TransactionIdAdvance x - b) = unat (x - b) + 1"
      unfolding a using lt tb by (intro xid_offset) simp
    then show ?thesis
      using lt tb TransactionIdAdvance_normal [of x] by (simp add: xid_window_def)
  next
    case True
    then have x1: "x = - 1" by (simp add: eq_neg_iff_add_eq_0)
    have a: "TransactionIdAdvance x = x + of_nat 4"
      by (simp add: x1 TransactionIdAdvance_def FirstNormalTransactionId_def)
    have four: "unat (x - b) + 4 \<le> unat (y - b)" if y: "y \<in> xid_window b" "unat (x - b) < unat (y - b)" for y
    proof (rule ccontr)
      assume "\<not> unat (x - b) + 4 \<le> unat (y - b)"
      then consider "unat (y - b) = unat (x - b) + 1" | "unat (y - b) = unat (x - b) + 2" | "unat (y - b) = unat (x - b) + 3"
        using y(2) by linarith
      then have "y = 0 \<or> y = 1 \<or> y = 2"
        by cases (drule xid_at_offset, simp add: x1)+
      then show False using y(1) window_normal not_normal_iff by blast
    qed
    have "unat (TransactionIdAdvance x - b) = unat (x - b) + 4"
      unfolding a using four [OF t lt] tb by (intro xid_offset) simp
    then show ?thesis
      using four [OF t lt] four tb TransactionIdAdvance_normal [of x] by (simp add: xid_window_def)
  qed
qed

lemma kax_count_run:
  assumes "f \<in> xid_window b" and "t \<in> xid_window b" and "unat (f - b) \<le> unat (t - b)"
  shows "\<exists>k. kax_count_loop f t n = n + int k \<and> set (xid_run (Suc k) f) = xid_between b f t
    \<and> sorted_wrt TransactionIdPrecedes (xid_run (Suc k) f)"
  using assms
proof (induction "unat (t - b) - unat (f - b)" arbitrary: f n rule: less_induct)
  case less
  show ?case
  proof (cases "unat (f - b) < unat (t - b)")
    case False
    with less.prems(3) have "unat (f - b) = unat (t - b)" by simp
    then have "f = t" using xid_at_offset [of f b t 0] by simp
    moreover have "x = t" if "unat (x - b) = unat (t - b)" for x
      using that xid_at_offset [of x b t 0] by simp
    ultimately show ?thesis
      using less.prems(1) by (intro exI [of _ 0]) (auto simp: kax_count_loop.simps xid_between_def)
  next
    case True
    let ?a = "TransactionIdAdvance f"
    note adv = window_advance [OF less.prems(1,2) True]
    then have "unat (t - b) - unat (?a - b) < unat (t - b) - unat (f - b)" using True by linarith
    with less.hyps [of ?a "n + 1"] adv less.prems(2)
    obtain k where k: "kax_count_loop ?a t (n + 1) = n + 1 + int k"
      "set (xid_run (Suc k) ?a) = xid_between b ?a t"
      "sorted_wrt TransactionIdPrecedes (xid_run (Suc k) ?a)"
      by blast
    have "kax_count_loop f t n = n + int (Suc k)"
      using k(1) True less.prems(1,2) by (simp add: kax_count_loop.simps [of f] precedes_window)
    moreover have f_first: "xid_between b f t = insert f (xid_between b ?a t)"
    proof -
      have "x = f \<or> unat (?a - b) \<le> unat (x - b)" if "x \<in> xid_window b" "unat (f - b) \<le> unat (x - b)" for x
        using adv that xid_at_offset [of x b f 0] by (cases "unat (f - b) = unat (x - b)") auto
      then show ?thesis using adv less.prems(1) True by (auto simp: xid_between_def)
    qed
    moreover have "TransactionIdPrecedes f x" if "x \<in> xid_between b ?a t" for x
      using that adv less.prems(1) by (auto simp: xid_between_def precedes_window)
    ultimately show ?thesis
      using k(2,3) by (intro exI [of _ "Suc k"]) (simp add: xid_run.simps(2) [of "Suc k"] del: xid_run.simps)
  qed
qed

lemma kax_count_no_wrap:
  assumes "f \<le> t" and "TransactionIdIsNormal f" and "unat (t - f) < 2147483648"
  shows "kax_count_loop f t n = n + int (unat (t - f))"
  using assms
proof (induction "unat (t - f)" arbitrary: f n)
  case 0
  then have "f = t" using xid_at_offset [of t f f 0] by simp
  then show ?case by (simp add: kax_count_loop.simps)
next
  case (Suc m)
  then have ne: "f \<noteq> t" by auto
  then have "unat f < unat t" using Suc.prems(1) by (simp add: word_le_nat_alt order_less_le word_unat_eq_iff)
  then have f1: "unat (f + 1) = unat f + 1" by unat_arith
  then have le: "f + 1 \<le> t" using \<open>unat f < unat t\<close> by (simp add: word_le_nat_alt)
  have "3 \<le> unat f" using Suc.prems(2)
    by (simp add: TransactionIdIsNormal_def FirstNormalTransactionId_def word_le_nat_alt)
  then have a: "TransactionIdAdvance f = f + 1" and na: "TransactionIdIsNormal (f + 1)"
    using f1 by (simp_all add: TransactionIdAdvance_def TransactionIdIsNormal_def FirstNormalTransactionId_def
        word_less_nat_alt word_le_nat_alt)
  have d: "unat (t - (f + 1)) = m" using Suc.hyps(2) ne by unat_arith
  have "f \<in> xid_window f" "t \<in> xid_window f"
    using Suc.prems na le by (auto simp: xid_window_def TransactionIdIsNormal_def)
  then have "TransactionIdPrecedes f t" using Suc.hyps(2) by (simp add: precedes_window)
  moreover have "kax_count_loop (f + 1) t (n + 1) = n + 1 + int m"
    using Suc.hyps(1) [of "f + 1" "n + 1"] d le na Suc.hyps(2) Suc.prems(3) by simp
  moreover have "int (unat (t - f)) = 1 + int m" using Suc.hyps(2) by linarith
  ultimately show ?case using a by (simp add: kax_count_loop.simps [of f])
qed

text \<open>The slots counted are exactly those of the ids between the two, on either path.\<close>

lemma kax_nxids_run:
  assumes "f \<in> xid_window b" and "t \<in> xid_window b" and "unat (f - b) \<le> unat (t - b)"
    and "unat (t - f) < 2147483647"
  shows "0 < kax_nxids f t \<and> set (xid_run (nat (kax_nxids f t)) f) = xid_between b f t
    \<and> sorted_wrt TransactionIdPrecedes (xid_run (nat (kax_nxids f t)) f)"
proof -
  have "kax_nxids f t = kax_count_loop f t 1"
  proof (cases "f \<le> t")
    case True
    have "uint (t - f) < 2147483647" unfolding uint_of_unat using assms(4) by linarith
    moreover from this have "uint (t - f + 1) = uint (t - f) + 1" by (simp add: uint_word_ariths)
    ultimately have "sint (t - f + 1) = 1 + int (unat (t - f))"
      by (simp add: sint_word32)
    with True show ?thesis
      using assms(4) window_normal [OF assms(1)] by (simp add: kax_nxids_def kax_count_no_wrap)
  qed (simp add: kax_nxids_def)
  moreover obtain k where "kax_count_loop f t 1 = 1 + int k" "set (xid_run (Suc k) f) = xid_between b f t"
    "sorted_wrt TransactionIdPrecedes (xid_run (Suc k) f)"
    using kax_count_run [OF assms(1-3)] by blast
  moreover have "nat (1 + int k) = Suc k" by simp
  ultimately show ?thesis by simp
qed

lemma kax_insert_loop_result:
  assumes "kax_insert_loop n h x s = (h', t)"
  shows "h' = h + n
    \<and> (\<exists>X V. t = s\<lparr>KnownAssignedXids := X, KnownAssignedXidsValid := V\<rparr>
       \<and> (\<forall>k < h. X k = KnownAssignedXids s k \<and> V k = KnownAssignedXidsValid s k)
       \<and> map X [h ..< h + n] = xid_run n x \<and> (\<forall>k. h \<le> k \<longrightarrow> k < h + n \<longrightarrow> V k))"
  using assms
proof (induction n arbitrary: h x s)
  case 0
  then have "h' = h" "t = s" by simp_all
  then show ?case
    by (intro conjI exI [of _ "KnownAssignedXids s"] exI [of _ "KnownAssignedXidsValid s"]) simp_all
next
  case (Suc n)
  define u where "u = s\<lparr>KnownAssignedXids := (KnownAssignedXids s)(h := x),
    KnownAssignedXidsValid := (KnownAssignedXidsValid s)(h := True)\<rparr>"
  have "kax_insert_loop n (h + 1) (TransactionIdAdvance x) u = (h', t)"
    using Suc.prems by (simp add: u_def)
  from Suc.IH [OF this] obtain X V where v: "h' = h + 1 + n"
    "t = u\<lparr>KnownAssignedXids := X, KnownAssignedXidsValid := V\<rparr>"
    "\<And>k. k < h + 1 \<Longrightarrow> X k = KnownAssignedXids u k \<and> V k = KnownAssignedXidsValid u k"
    "map X [h + 1 ..< h + 1 + n] = xid_run n (TransactionIdAdvance x)"
    "\<And>k. h + 1 \<le> k \<Longrightarrow> k < h + 1 + n \<Longrightarrow> V k"
    by blast
  have "[h ..< h + Suc n] = h # [h + 1 ..< h + 1 + n]" by (subst upt_conv_Cons) auto
  then have "map X [h ..< h + Suc n] = xid_run (Suc n) x"
    using v(3) [of h] v(4) by (simp add: u_def)
  moreover have "V k" if "h \<le> k" "k < h + Suc n" for k
    using v(3) [of k] v(5) [of k] that by (cases "k = h") (auto simp: u_def)
  moreover have "X k = KnownAssignedXids s k \<and> V k = KnownAssignedXidsValid s k" if "k < h" for k
    using v(3) [of k] that by (simp add: u_def)
  moreover have "t = s\<lparr>KnownAssignedXids := X, KnownAssignedXidsValid := V\<rparr>" using v(2) by (simp add: u_def)
  ultimately show ?case using v(1) by (intro conjI exI [of _ X] exI [of _ V]) auto
qed

text \<open>Inserting a run behind the used entries appends it to the ids.\<close>

lemma ka_insert_appends:
  assumes "ka_wf b s" and "kax_insert_loop n (headKnownAssignedXids s) x s = (h', t)" and "0 < n"
    and "headKnownAssignedXids s + n \<le> maxKnownAssignedXids s"
    and "sorted_wrt TransactionIdPrecedes (ka_entries s @ xid_run n x)" and "set (xid_run n x) \<subseteq> xid_window b"
    and "ka_tail_ok s"
  defines "u \<equiv> t\<lparr>numKnownAssignedXids := numKnownAssignedXids t + int n, headKnownAssignedXids := h'\<rparr>"
  shows "ka_inv b u \<and> ka_list u = ka_list s @ xid_run n x \<and> ka_entries u = ka_entries s @ xid_run n x
    \<and> maxKnownAssignedXids u = maxKnownAssignedXids s"
proof -
  let ?t = "tailKnownAssignedXids s" and ?h = "headKnownAssignedXids s"
  obtain X V where v: "h' = ?h + n" "t = s\<lparr>KnownAssignedXids := X, KnownAssignedXidsValid := V\<rparr>"
    "\<And>k. k < ?h \<Longrightarrow> X k = KnownAssignedXids s k \<and> V k = KnownAssignedXidsValid s k"
    "map X [?h ..< ?h + n] = xid_run n x" "\<And>k. ?h \<le> k \<Longrightarrow> k < ?h + n \<Longrightarrow> V k"
    using kax_insert_loop_result [OF assms(2)] by blast
  have uf: "tailKnownAssignedXids u = ?t" "headKnownAssignedXids u = ?h + n"
    "KnownAssignedXids u = X" "KnownAssignedXidsValid u = V"
    "maxKnownAssignedXids u = maxKnownAssignedXids s" "numKnownAssignedXids u = numKnownAssignedXids s + int n"
    by (simp_all add: u_def v(1,2))
  have th: "?t \<le> ?h" using assms(1) by (simp add: ka_wf_def)
  have split: "[?t ..< ?h + n] = [?t ..< ?h] @ [?h ..< ?h + n]" using th by (intro upt_split) auto
  have e: "ka_entries u = ka_entries s @ xid_run n x"
    unfolding ka_entries_def uf split using v(3,4) by simp
  have "filter V [?h ..< ?h + n] = [?h ..< ?h + n]" using v(5) by (intro filter_True) auto
  moreover have "filter V [?t ..< ?h] = filter (KnownAssignedXidsValid s) [?t ..< ?h]"
    by (rule filter_cong) (use v(3) in auto)
  moreover have "map X (filter (KnownAssignedXidsValid s) [?t ..< ?h]) = ka_list s"
    unfolding ka_list_def ka_span_def by (rule map_cong) (use v(3) in auto)
  ultimately have l: "ka_list u = ka_list s @ xid_run n x"
    unfolding ka_list_def [of u] ka_span_def uf split using v(4) by simp
  have len: "length (xid_run n x) = n" using v(4) by (metis add_diff_cancel_left' length_map length_upt)
  have "ka_tail_ok u"
    using assms(3,7) v(3,5) th by (auto simp: ka_tail_ok_def uf order.order_iff_strict split: if_splits)
  then show ?thesis
    using assms(1,4-6) th len by (simp add: ka_inv_def ka_wf_def l e uf)
qed

text \<open>Whether the new ids come after every used entry, and the number of them.\<close>

definition ka_in_order :: "KnownAssignedArray \<Rightarrow> TransactionId \<Rightarrow> bool" where
  "ka_in_order s f \<longleftrightarrow> (\<forall>x \<in> set (ka_entries s). TransactionIdPrecedes x f)"

lemma ka_in_order_last:
  assumes "ka_wf b s" and "f \<in> xid_window b"
  shows "ka_in_order s f \<longleftrightarrow>
    \<not> (tailKnownAssignedXids s < headKnownAssignedXids s
       \<and> TransactionIdFollowsOrEquals (KnownAssignedXids s (headKnownAssignedXids s - 1)) f)"
proof (cases "tailKnownAssignedXids s < headKnownAssignedXids s")
  case False
  then show ?thesis by (simp add: ka_in_order_def ka_entries_def)
next
  case True
  let ?l = "headKnownAssignedXids s - 1"
  have w: "KnownAssignedXids s k \<in> xid_window b" if "tailKnownAssignedXids s \<le> k" "k < headKnownAssignedXids s" for k
    using ka_entries_nth [OF assms(1) that] .
  have "TransactionIdPrecedes (KnownAssignedXids s k) f"
    if k: "tailKnownAssignedXids s \<le> k" "k < headKnownAssignedXids s" and l: "TransactionIdPrecedes (KnownAssignedXids s ?l) f" for k
  proof (cases "k = ?l")
    case False
    then have "TransactionIdPrecedes (KnownAssignedXids s k) (KnownAssignedXids s ?l)"
      using k by (intro ka_entries_sorted_nth [OF assms(1)]) auto
    with l show ?thesis
      using xid_order.prec_trans [OF w [OF k] w assms(2), of ?l] True by simp
  qed (use l in simp)
  with True show ?thesis
    by (auto simp: ka_in_order_def ka_entries_def precedes_not_follows)
qed

lemma KnownAssignedXidsAdd_result:
  assumes inv: "ka_inv b s" and f: "f \<in> xid_window b" and t: "t \<in> xid_window b"
    and le: "unat (f - b) \<le> unat (t - b)" and small: "unat (t - f) < 2147483647"
  defines "n \<equiv> card (xid_between b f t)"
  shows "if \<not> ka_in_order s f then KnownAssignedXidsAdd f t clock s = Inl OutOfOrderInsertion
    else if maxKnownAssignedXids s < length (ka_list s) + n
      then KnownAssignedXidsAdd f t clock s = Inl TooManyKnownAssignedXids
        \<or> KnownAssignedXidsAdd f t clock s = Inl KnownAssignedXidsOverrun \<and> 2 ^ 31 \<le> maxKnownAssignedXids s + n
    else \<exists>u run. KnownAssignedXidsAdd f t clock s = Inr u \<and> ka_inv b u
      \<and> ka_list u = ka_list s @ run \<and> set run = xid_between b f t
      \<and> set (ka_entries u) \<subseteq> set (ka_entries s) \<union> xid_between b f t
      \<and> maxKnownAssignedXids u = maxKnownAssignedXids s"
proof -
  have wf: "ka_wf b s" "ka_tail_ok s" using inv by (simp_all add: ka_inv_def)
  define m where "m = nat (kax_nxids f t)"
  have run: "0 < kax_nxids f t" "set (xid_run m f) = xid_between b f t" "sorted_wrt TransactionIdPrecedes (xid_run m f)"
    using kax_nxids_run [OF f t le small] by (simp_all add: m_def)
  have m: "kax_nxids f t = int m" "0 < m" using run(1) by (simp_all add: m_def)
  have "length (xid_run k x) = k" for k x by (induction k arbitrary: x) auto
  then have n: "n = m"
    unfolding n_def run(2) [symmetric] using distinct_card [OF sorted_precedes_distinct [OF run(3)]] by simp
  have max: "maxKnownAssignedXids s < 2 ^ 30" "headKnownAssignedXids s \<le> maxKnownAssignedXids s"
    using wf(1) by (simp_all add: ka_wf_def)
  define v where "v = (if int (maxKnownAssignedXids s) < int32_add (int (headKnownAssignedXids s)) (int m)
    then KnownAssignedXidsCompress KAX_NO_SPACE clock s else s)"
  have v: "ka_inv b v" "ka_list v = ka_list s" "set (ka_entries v) \<subseteq> set (ka_entries s)"
    "maxKnownAssignedXids v = maxKnownAssignedXids s"
    using KnownAssignedXidsCompress_keeps [OF inv, of KAX_NO_SPACE clock] inv by (auto simp: v_def)
  have hv: "headKnownAssignedXids v \<le> maxKnownAssignedXids s" "length (ka_list s) \<le> headKnownAssignedXids v"
    using v(1,2,4) ka_list_length [of b v] by (auto simp: ka_inv_defs)
  have plain: "int32_add (int k) (int m) = int (k + m)" if "k + m < 2 ^ 31" for k
    using that int32_add_fits [of "int k" "int m"] by simp
  have full: "maxKnownAssignedXids s < headKnownAssignedXids v + m \<longleftrightarrow> maxKnownAssignedXids s < length (ka_list s) + m"
    if "headKnownAssignedXids s + m < 2 ^ 31"
    using KnownAssignedXidsCompress_no_space [OF inv, of clock] ka_list_length [OF wf(1)] plain [OF that] by (auto simp: v_def)
  have add: "KnownAssignedXidsAdd f t clock s =
    (if \<not> ka_in_order s f then Inl OutOfOrderInsertion
     else if int (maxKnownAssignedXids s) < int32_add (int (headKnownAssignedXids v)) (int m) then Inl TooManyKnownAssignedXids
     else if maxKnownAssignedXids s < headKnownAssignedXids v + m then Inl KnownAssignedXidsOverrun
     else (let (head, t) = kax_insert_loop m (headKnownAssignedXids v) f v
           in Inr (t\<lparr>numKnownAssignedXids := numKnownAssignedXids t + int m, headKnownAssignedXids := head\<rparr>)))"
    unfolding KnownAssignedXidsAdd_def Let_def m(1) ka_in_order_last [OF wf(1) f]
    by (simp add: v_def [symmetric] v(4) flip: of_nat_add)
  show ?thesis
  proof (cases "ka_in_order s f \<and> \<not> maxKnownAssignedXids s < length (ka_list s) + m")
    case False
    moreover have "int32_add (int (headKnownAssignedXids v)) (int m) = int (headKnownAssignedXids v + m)"
      if "\<not> 2 ^ 31 \<le> maxKnownAssignedXids s + m"
      using that hv(1) by (intro plain) linarith
    then have "2 ^ 31 \<le> maxKnownAssignedXids s + m \<or> maxKnownAssignedXids s \<ge> headKnownAssignedXids v + m"
      if "\<not> int (maxKnownAssignedXids s) < int32_add (int (headKnownAssignedXids v)) (int m)"
      using that by linarith
    ultimately show ?thesis unfolding n add using hv(2) by auto
  next
    case True
    have small_sum: "headKnownAssignedXids s + m < 2 ^ 31" "headKnownAssignedXids v + m < 2 ^ 31"
      using True max hv by simp_all
    note full = full [OF small_sum(1)] and fits = plain [OF small_sum(2)]
    obtain h' u where u: "kax_insert_loop m (headKnownAssignedXids v) f v = (h', u)" by fastforce
    have between: "xid_between b f t \<subseteq> xid_window b" by (auto simp: xid_between_def)
    have "TransactionIdPrecedes x y" if "x \<in> set (ka_entries v)" "y \<in> xid_between b f t" for x y
    proof -
      have "x \<in> xid_window b" "TransactionIdPrecedes x f"
        using that(1) v(3) True wf(1) by (auto simp: ka_in_order_def ka_wf_def)
      with that(2) f between show ?thesis by (auto simp: xid_between_def precedes_window)
    qed
    then have "sorted_wrt TransactionIdPrecedes (ka_entries v @ xid_run m f)"
      using v(1) run(2,3) by (simp add: sorted_wrt_append ka_inv_def ka_wf_def)
    with ka_insert_appends [OF _ u m(2)] v True full run(2) between
    show ?thesis unfolding n add u fits by (auto simp: ka_inv_def)
  qed
qed

subsection \<open>What the array promises\<close>

text \<open>Four slots in use out of six, the second one marked invalid, across the wrap point.\<close>

definition sample_kax :: KnownAssignedArray where
  "sample_kax = \<lparr>KnownAssignedXids = (\<lambda>i. [4294967290, 4294967293, 4294967295, 3, 0, 0] ! i),
     KnownAssignedXidsValid = (\<lambda>i. i \<noteq> 1), numKnownAssignedXids = 3, tailKnownAssignedXids = 0,
     headKnownAssignedXids = 4, maxKnownAssignedXids = 6, transactionEndsCounter = 0, lastCompressTs = 0\<rparr>"

lemma upt_four: "[0 ..< 4] = [0, 1, 2, 3 :: nat]"
  by (simp add: numeral_eq_Suc)

lemma sample_kax_list: "ka_list sample_kax = [4294967290, 4294967295, 3]"
  by (simp add: sample_kax_def ka_list_def ka_span_def upt_four)

lemma sample_kax_entries: "ka_entries sample_kax = [4294967290, 4294967293, 4294967295, 3]"
  by (simp add: sample_kax_def ka_entries_def upt_four)

lemma sample_kax_inv: "ka_inv 4294967290 sample_kax"
proof -
  have w: "set [4294967290, 4294967293, 4294967295, 3] \<subseteq> xid_window 4294967290"
    by (simp add: xid_window_def TransactionIdIsNormal_def FirstNormalTransactionId_def)
  then have "sorted_wrt TransactionIdPrecedes [4294967290, 4294967293, 4294967295, 3]"
    by (simp add: precedes_window [of _ 4294967290])
  with w show ?thesis
    unfolding ka_inv_defs sample_kax_list sample_kax_entries by (simp add: sample_kax_def)
qed

text \<open>
  C19: adding the ids from \<open>from_xid\<close> to \<open>to_xid\<close> (counted modulo \<open>2 ^ 32\<close>, special ids skipped)
  fails with the out-of-order error exactly when some used entry, valid or not, does not precede
  \<open>from_xid\<close>. Otherwise, when the valid ids and the new ones do not exceed the size of the array, however
  the gaps are spread, it succeeds, keeps the invariant and appends exactly the normal ids between
  the two, in order, to the valid ids. When they do exceed it, it fails with the space error; only if the number of
  ids added to the size of the array leaves the range of an \<open>int\<close> may the code miss this and overrun the array.
\<close>

theorem KnownAssignedXidsAdd_correct:
  assumes "ka_inv b s" and "from_xid \<in> xid_window b" and "to_xid \<in> xid_window b"
    and "unat (from_xid - b) \<le> unat (to_xid - b)" and "unat (to_xid - from_xid) < 2 ^ 31 - 1"
  shows "case KnownAssignedXidsAdd from_xid to_xid clock s of
      Inl OutOfOrderInsertion \<Rightarrow> \<not> ka_in_order s from_xid
    | Inl TooManyKnownAssignedXids \<Rightarrow> ka_in_order s from_xid
        \<and> maxKnownAssignedXids s < length (ka_list s) + card (xid_between b from_xid to_xid)
    | Inl KnownAssignedXidsOverrun \<Rightarrow> ka_in_order s from_xid
        \<and> maxKnownAssignedXids s < length (ka_list s) + card (xid_between b from_xid to_xid)
        \<and> 2 ^ 31 \<le> maxKnownAssignedXids s + card (xid_between b from_xid to_xid)
    | Inr u \<Rightarrow> ka_in_order s from_xid
        \<and> length (ka_list s) + card (xid_between b from_xid to_xid) \<le> maxKnownAssignedXids s
        \<and> ka_inv b u \<and> sorted_wrt TransactionIdPrecedes (ka_list u)
        \<and> (\<exists>run. ka_list u = ka_list s @ run \<and> set run = xid_between b from_xid to_xid)"
proof -
  have small: "unat (to_xid - from_xid) < 2147483647" using assms(5) by simp
  have sorted: "sorted_wrt TransactionIdPrecedes (ka_list u)" if "ka_inv b u" for u
    using that ka_list_sorted unfolding ka_inv_def by blast
  note result = KnownAssignedXidsAdd_result [OF assms(1-4) small, of clock]
  show ?thesis
  proof (cases "KnownAssignedXidsAdd from_xid to_xid clock s")
    case (Inl e)
    with result show ?thesis by (auto split: if_splits)
  next
    case (Inr u)
    with result have "ka_in_order s from_xid" "ka_inv b u"
      "length (ka_list s) + card (xid_between b from_xid to_xid) \<le> maxKnownAssignedXids s"
      "\<exists>run. ka_list u = ka_list s @ run \<and> set run = xid_between b from_xid to_xid"
      by (auto split: if_splits)
    with sorted [of u] Inr show ?thesis by simp
  qed
qed

theorem KnownAssignedXidsAdd_correct_witness:
  "\<exists>u. KnownAssignedXidsAdd 5 6 (0, 0) sample_kax = Inr u \<and> ka_inv 4294967290 u"
proof -
  have w: "5 \<in> xid_window 4294967290" "6 \<in> xid_window 4294967290"
    "unat (5 - 4294967290 :: TransactionId) \<le> unat (6 - 4294967290 :: TransactionId)"
    "unat (6 - 5 :: TransactionId) < 2 ^ 31 - 1"
    by (simp_all add: xid_window_def TransactionIdIsNormal_def FirstNormalTransactionId_def)
  have "ka_in_order sample_kax 5"
    using sample_kax_entries by (simp add: ka_in_order_def TransactionIdPrecedes_def TransactionIdIsNormal_def
        FirstNormalTransactionId_def sint_word32)
  moreover have "xid_between 4294967290 5 6 \<subseteq> {5, 6}"
  proof
    fix x assume "x \<in> xid_between 4294967290 5 6"
    then have "unat (x - 4294967290) = 11 \<or> unat (x - 4294967290) = 12" by (auto simp: xid_between_def)
    then have "x = 4294967290 + of_nat 11 \<or> x = 4294967290 + of_nat 12"
      using xid_at_offset [of x 4294967290 4294967290 11] xid_at_offset [of x 4294967290 4294967290 12]
      by fastforce
    then show "x \<in> {5, 6}" by auto
  qed
  then have "card (xid_between 4294967290 5 6) \<le> 2"
    by (rule order.trans [OF card_mono, rotated]) (simp_all add: card_insert_if)
  ultimately show ?thesis
    using KnownAssignedXidsAdd_correct [OF sample_kax_inv w, of "(0, 0)"] sample_kax_list
    by (auto simp: sample_kax_def split: sum.splits kax_error.splits)
qed

text \<open>
  C20: under the invariant the binary search answers whether the id is one of the valid ids, for
  any id, and changes nothing; ending a transaction removes its id and those of its
  subtransactions, present or not, and no other, and keeps the invariant, whether or not the array
  is compressed on the way.
\<close>

theorem KnownAssignedXids_search_remove:
  assumes "ka_inv b s"
  shows "(KnownAssignedXidExists xid s \<longleftrightarrow> xid \<in> set (ka_list s))
    \<and> snd (KnownAssignedXidsSearch xid False s) = s
    \<and> ka_inv b (KnownAssignedXidsRemoveTree xid subxids clock s)
    \<and> ka_list (KnownAssignedXidsRemoveTree xid subxids clock s) = filter (\<lambda>x. x \<notin> set (xid # subxids)) (ka_list s)"
  using KnownAssignedXidsRemoveTree_keeps [OF assms] KnownAssignedXidsSearch_iff KnownAssignedXidsSearch_reads assms
  unfolding KnownAssignedXidExists_def ka_inv_def by blast

theorem KnownAssignedXids_search_remove_witness:
  "KnownAssignedXidExists 3 sample_kax \<and> \<not> KnownAssignedXidExists 4294967293 sample_kax
    \<and> ka_list (KnownAssignedXidsRemoveTree 4294967290 [4294967293, 3] (0, 0) sample_kax) = [4294967295]"
  using KnownAssignedXids_search_remove [OF sample_kax_inv, of 3]
    KnownAssignedXids_search_remove [OF sample_kax_inv, of 4294967293]
    KnownAssignedXids_search_remove [OF sample_kax_inv, of 4294967290 "[4294967293, 3]" "(0, 0)"]
  by (simp add: sample_kax_list)

text \<open>
  C21: pruning removes exactly the valid ids before \<open>removeXid\<close> whose transaction is not prepared;
  the prepared ones among them stay. It keeps the invariant, and the tail is again at a valid entry.
\<close>

theorem KnownAssignedXidsRemovePreceding_correct:
  assumes "ka_inv b s" and "removeXid \<in> xid_window b"
  shows "ka_inv b (KnownAssignedXidsRemovePreceding is_prepared removeXid clock s)
    \<and> ka_list (KnownAssignedXidsRemovePreceding is_prepared removeXid clock s)
        = filter (\<lambda>x. \<not> TransactionIdPrecedes x removeXid \<or> is_prepared x) (ka_list s)"
  using KnownAssignedXidsRemovePreceding_keeps [OF assms] by blast

theorem KnownAssignedXidsRemovePreceding_correct_witness:
  "ka_list (KnownAssignedXidsRemovePreceding (\<lambda>x. x = 4294967295) 3 (0, 0) sample_kax) = [4294967295, 3]"
proof -
  have "3 \<in> xid_window 4294967290"
    by (simp add: xid_window_def TransactionIdIsNormal_def FirstNormalTransactionId_def)
  from KnownAssignedXidsRemovePreceding_correct [OF sample_kax_inv this, of "\<lambda>x. x = 4294967295" "(0, 0)"]
  show ?thesis
    by (simp add: sample_kax_list TransactionIdPrecedes_def TransactionIdIsNormal_def
        FirstNormalTransactionId_def sint_word32)
qed

end
