(* ===== verification/HotStandby.thy ===== *)
theory HotStandby
  imports KnownAssigned TransactionStatus
begin

section \<open>Transaction ids in a hot standby\<close>

text \<open>
  How the startup process of a standby follows the transactions of the primary, from
  \<open>src/backend/storage/ipc/procarray.c\<close>: the ids seen in the write-ahead log are recorded as
  running, together with the ids in between, which must have been assigned; commit and abort
  records remove them; assignment records move subtransactions from the array to the
  subtransaction log; records of running transactions initialise and prune the array. Errors
  end the standby. Calls to the lock manager are listed, not executed. The clock only steers when
  the array is compressed; within one handler it is read into one pair of values.
\<close>

subsection \<open>State\<close>

datatype HotStandbyState =
  STANDBY_DISABLED | STANDBY_INITIALIZED | STANDBY_SNAPSHOT_PENDING | STANDBY_SNAPSHOT_READY

text \<open>The enumeration is compared by the order of its constants.\<close>

fun standby_rank :: "HotStandbyState \<Rightarrow> nat" where
  "standby_rank STANDBY_DISABLED = 0" |
  "standby_rank STANDBY_INITIALIZED = 1" |
  "standby_rank STANDBY_SNAPSHOT_PENDING = 2" |
  "standby_rank STANDBY_SNAPSHOT_READY = 3"

lemma standby_rank_inj: "standby_rank x = standby_rank y \<Longrightarrow> x = y"
  by (cases x; cases y) auto

instantiation HotStandbyState :: linorder
begin

definition less_eq_HotStandbyState :: "HotStandbyState \<Rightarrow> HotStandbyState \<Rightarrow> bool" where
  "less_eq_HotStandbyState x y \<longleftrightarrow> standby_rank x \<le> standby_rank y"

definition less_HotStandbyState :: "HotStandbyState \<Rightarrow> HotStandbyState \<Rightarrow> bool" where
  "less_HotStandbyState x y \<longleftrightarrow> standby_rank x < standby_rank y"

instance
  by standard (auto simp: less_eq_HotStandbyState_def less_HotStandbyState_def intro: standby_rank_inj)

end

datatype subxids_array_status = SUBXIDS_IN_ARRAY | SUBXIDS_MISSING | SUBXIDS_IN_SUBTRANS

record RunningTransactionsData =
  xcnt :: nat
  subxcnt :: nat
  subxid_status :: subxids_array_status
  running_nextXid :: TransactionId
  oldestRunningXid :: TransactionId
  running_latestCompletedXid :: TransactionId
  running_xids :: "TransactionId list"

record StandbyProcArray =
  known :: KnownAssignedArray
  shared :: VariableCache
  subtrans :: SubTransSlru
  lastOverflowedXid :: TransactionId
  latestObservedXid :: TransactionId
  standbySnapshotPendingXmin :: TransactionId
  standbyState :: HotStandbyState

datatype standby_error = KnownAssignedError kax_error | KnownAssignedNotEmpty

datatype standby_event = StandbyReleaseOldLocks TransactionId

subsection \<open>Completed ids\<close>

text \<open>
  \<open>FullXidRelativeTo\<close> extends a 32-bit id by the epoch that puts it within half the id space of a
  64-bit one: the signed difference is added to the 64-bit id.
\<close>

definition FullXidRelativeTo :: "FullTransactionId \<Rightarrow> TransactionId \<Rightarrow> FullTransactionId" where
  "FullXidRelativeTo rel xid =
     (let rel_xid = XidFromFullTransactionId rel
      in FullTransactionIdFromU64 (U64FromFullTransactionId rel + scast (xid - rel_xid)))"

definition MaintainLatestCompletedXid :: "TransactionId \<Rightarrow> VariableCache \<Rightarrow> VariableCache" where
  "MaintainLatestCompletedXid latestXid vc =
     (let cur_latest = latestCompletedXid vc
      in if TransactionIdPrecedes (XidFromFullTransactionId cur_latest) latestXid
         then vc\<lparr>latestCompletedXid := FullXidRelativeTo cur_latest latestXid\<rparr>
         else vc)"

definition MaintainLatestCompletedXidRecovery :: "TransactionId \<Rightarrow> VariableCache \<Rightarrow> VariableCache" where
  "MaintainLatestCompletedXidRecovery latestXid vc =
     (let cur_latest = latestCompletedXid vc; rel = nextXid vc
      in if \<not> FullTransactionIdIsValid cur_latest
            \<or> TransactionIdPrecedes (XidFromFullTransactionId cur_latest) latestXid
         then vc\<lparr>latestCompletedXid := FullXidRelativeTo rel latestXid\<rparr>
         else vc)"

definition advance_completion_count :: "VariableCache \<Rightarrow> VariableCache" where
  "advance_completion_count vc = vc\<lparr>xactCompletionCount := xactCompletionCount vc + 1\<rparr>"

subsection \<open>Following the log\<close>

definition ProcArrayInitRecovery :: "TransactionId \<Rightarrow> StandbyProcArray \<Rightarrow> StandbyProcArray" where
  "ProcArrayInitRecovery initializedUptoXID st =
     st\<lparr>latestObservedXid := TransactionIdRetreat initializedUptoXID\<rparr>"

text \<open>Extending the subtransaction log over the ids after \<open>next_expected_xid\<close> up to \<open>xid\<close>.\<close>

function extend_subtrans_upto :: "TransactionId \<Rightarrow> TransactionId \<Rightarrow> SubTransSlru \<Rightarrow> SubTransSlru" where
  "extend_subtrans_upto next_expected_xid xid s =
     (if TransactionIdPrecedes next_expected_xid xid
      then (let next_expected_xid = TransactionIdAdvance next_expected_xid
            in extend_subtrans_upto next_expected_xid xid (ExtendSUBTRANS next_expected_xid s))
      else s)"
  by pat_completeness auto
termination
  by (relation "measure (\<lambda>(x, t, s). advance_measure x t)") (simp_all add: advance_measure_less)

declare extend_subtrans_upto.simps [simp del]

definition RecordKnownAssignedTransactionIds ::
  "compress_clock \<Rightarrow> TransactionId \<Rightarrow> StandbyProcArray \<Rightarrow> kax_error + StandbyProcArray" where
  "RecordKnownAssignedTransactionIds clock xid st =
     (if TransactionIdFollows xid (latestObservedXid st) then
        (let st = st\<lparr>subtrans := extend_subtrans_upto (latestObservedXid st) xid (subtrans st)\<rparr>
         in if standbyState st \<le> STANDBY_INITIALIZED then Inr (st\<lparr>latestObservedXid := xid\<rparr>)
            else
              (let next_expected_xid = TransactionIdAdvance (latestObservedXid st)
               in case KnownAssignedXidsAdd next_expected_xid xid clock (known st) of
                    Inl e \<Rightarrow> Inl e
                  | Inr ka \<Rightarrow>
                      Inr (st\<lparr>known := ka, latestObservedXid := xid,
                             shared := AdvanceNextFullTransactionIdPastXid xid (shared st)\<rparr>)))
      else Inr st)"

definition ExpireTreeKnownAssignedTransactionIds ::
  "compress_clock \<Rightarrow> TransactionId \<Rightarrow> TransactionId list \<Rightarrow> TransactionId \<Rightarrow> StandbyProcArray \<Rightarrow> StandbyProcArray" where
  "ExpireTreeKnownAssignedTransactionIds clock xid subxids max_xid st =
     st\<lparr>known := KnownAssignedXidsRemoveTree xid subxids clock (known st),
        shared := advance_completion_count (MaintainLatestCompletedXidRecovery max_xid (shared st))\<rparr>"

definition ExpireAllKnownAssignedTransactionIds ::
  "(TransactionId \<Rightarrow> bool) \<Rightarrow> compress_clock \<Rightarrow> StandbyProcArray \<Rightarrow> StandbyProcArray" where
  "ExpireAllKnownAssignedTransactionIds is_prepared clock st =
     (let vc = shared st; latestXid = FullTransactionIdRetreat (nextXid vc)
      in st\<lparr>known := KnownAssignedXidsRemovePreceding is_prepared InvalidTransactionId clock (known st),
            shared := advance_completion_count (vc\<lparr>latestCompletedXid := latestXid\<rparr>),
            lastOverflowedXid := InvalidTransactionId\<rparr>)"

definition ExpireOldKnownAssignedTransactionIds ::
  "(TransactionId \<Rightarrow> bool) \<Rightarrow> compress_clock \<Rightarrow> TransactionId \<Rightarrow> StandbyProcArray \<Rightarrow> StandbyProcArray" where
  "ExpireOldKnownAssignedTransactionIds is_prepared clock xid st =
     (let latestXid = TransactionIdRetreat xid;
          st = st\<lparr>shared := advance_completion_count (MaintainLatestCompletedXidRecovery latestXid (shared st))\<rparr>;
          st = (if TransactionIdPrecedes (lastOverflowedXid st) xid
                then st\<lparr>lastOverflowedXid := InvalidTransactionId\<rparr> else st)
      in st\<lparr>known := KnownAssignedXidsRemovePreceding is_prepared xid clock (known st)\<rparr>)"

definition KnownAssignedTransactionIdsIdleMaintenance :: "compress_clock \<Rightarrow> StandbyProcArray \<Rightarrow> StandbyProcArray" where
  "KnownAssignedTransactionIdsIdleMaintenance clock st =
     st\<lparr>known := KnownAssignedXidsCompress KAX_STARTUP_PROCESS_IDLE clock (known st)\<rparr>"

text \<open>The clock is read for the insertion and for the removal.\<close>

definition ProcArrayApplyXidAssignment ::
  "compress_clock \<Rightarrow> compress_clock \<Rightarrow> TransactionId \<Rightarrow> TransactionId list \<Rightarrow> StandbyProcArray
    \<Rightarrow> kax_error + StandbyProcArray" where
  "ProcArrayApplyXidAssignment clock clock' topxid subxids st =
     (let max_xid = TransactionIdLatest topxid subxids
      in case RecordKnownAssignedTransactionIds clock max_xid st of
           Inl e \<Rightarrow> Inl e
         | Inr st \<Rightarrow>
             (let st = st\<lparr>subtrans := fold (\<lambda>x. SubTransSetParent x topxid) subxids (subtrans st)\<rparr>
              in if standbyState st = STANDBY_INITIALIZED then Inr st
                 else
                   (let st = st\<lparr>known := KnownAssignedXidsRemoveTree InvalidTransactionId subxids clock' (known st)\<rparr>
                    in Inr (if TransactionIdPrecedes (lastOverflowedXid st) max_xid
                            then st\<lparr>lastOverflowedXid := max_xid\<rparr> else st))))"

subsection \<open>Records of running transactions\<close>

definition xid_completed ::
  "XactSlru \<Rightarrow> SubTransSlru \<Rightarrow> TransactionId \<Rightarrow> TransactionId \<Rightarrow> TransamCache \<Rightarrow> (bool \<times> TransamCache) option" where
  "xid_completed clog sub TransactionXmin xid c =
     (case TransactionIdDidCommit clog sub TransactionXmin xid c of
        None \<Rightarrow> None
      | Some (committed, c) \<Rightarrow>
          if committed then Some (True, c) else TransactionIdDidAbort clog sub TransactionXmin xid c)"

text \<open>The ids of the record that the commit log does not show as completed.\<close>

fun running_uncompleted ::
  "XactSlru \<Rightarrow> SubTransSlru \<Rightarrow> TransactionId \<Rightarrow> TransactionId list \<Rightarrow> TransamCache
    \<Rightarrow> (TransactionId list \<times> TransamCache) option" where
  "running_uncompleted clog sub TransactionXmin [] c = Some ([], c)" |
  "running_uncompleted clog sub TransactionXmin (xid # xids) c =
     (case xid_completed clog sub TransactionXmin xid c of
        None \<Rightarrow> None
      | Some (completed, c) \<Rightarrow>
          (case running_uncompleted clog sub TransactionXmin xids c of
             None \<Rightarrow> None
           | Some (rest, c) \<Rightarrow> Some (if completed then rest else xid # rest, c)))"

definition xidLogicalComparator :: "TransactionId \<Rightarrow> TransactionId \<Rightarrow> int" where
  "xidLogicalComparator xid1 xid2 =
     (if TransactionIdPrecedes xid1 xid2 then - 1 else if TransactionIdPrecedes xid2 xid1 then 1 else 0)"

text \<open>
  The call of \<open>qsort\<close> with that comparison, by insertion. On ids of one half circle, ids that
  compare equal are equal, so every sorting procedure gives the same array.
\<close>

fun insert_xid :: "TransactionId \<Rightarrow> TransactionId list \<Rightarrow> TransactionId list" where
  "insert_xid x [] = [x]" |
  "insert_xid x (y # ys) = (if xidLogicalComparator x y \<le> 0 then x # y # ys else y # insert_xid x ys)"

definition qsort_xids :: "TransactionId list \<Rightarrow> TransactionId list" where
  "qsort_xids xids = foldr insert_xid xids []"

text \<open>Adding the sorted ids, each once; the first argument is the id before, if there is one.\<close>

fun add_running_xids ::
  "TransactionId option \<Rightarrow> compress_clock \<Rightarrow> TransactionId list \<Rightarrow> KnownAssignedArray \<Rightarrow> kax_error + KnownAssignedArray" where
  "add_running_xids prev clock [] ka = Inr ka" |
  "add_running_xids prev clock (xid # xids) ka =
     (if prev = Some xid then add_running_xids (Some xid) clock xids ka
      else (case KnownAssignedXidsAdd xid xid clock ka of
              Inl e \<Rightarrow> Inl e
            | Inr ka \<Rightarrow> add_running_xids (Some xid) clock xids ka))"

function extend_subtrans_before ::
  "TransactionId \<Rightarrow> TransactionId \<Rightarrow> SubTransSlru \<Rightarrow> TransactionId \<times> SubTransSlru" where
  "extend_subtrans_before observed next_xid s =
     (if TransactionIdPrecedes observed next_xid
      then extend_subtrans_before (TransactionIdAdvance observed) next_xid (ExtendSUBTRANS observed s)
      else (observed, s))"
  by pat_completeness auto
termination
  by (relation "measure (\<lambda>(x, t, s). advance_measure x t)") (simp_all add: advance_measure_less)

declare extend_subtrans_before.simps [simp del]

text \<open>The part that builds the array, in the state \<open>STANDBY_INITIALIZED\<close>.\<close>

definition apply_running_xids ::
  "XactSlru \<Rightarrow> TransactionId \<Rightarrow> compress_clock \<Rightarrow> RunningTransactionsData \<Rightarrow> StandbyProcArray \<Rightarrow> TransamCache
    \<Rightarrow> (standby_error + StandbyProcArray \<times> TransamCache) option" where
  "apply_running_xids clog TransactionXmin clock running st c =
     (case running_uncompleted clog (subtrans st) TransactionXmin
             (take (xcnt running + subxcnt running) (running_xids running)) c of
        None \<Rightarrow> None
      | Some (xids, c) \<Rightarrow>
          Some (if xids \<noteq> [] \<and> numKnownAssignedXids (known st) \<noteq> 0 then Inl KnownAssignedNotEmpty
                else
                  (case add_running_xids None clock (qsort_xids xids) (known st) of
                     Inl e \<Rightarrow> Inl (KnownAssignedError e)
                   | Inr ka \<Rightarrow>
                       (let (observed, sub) = extend_subtrans_before (TransactionIdAdvance (latestObservedXid st))
                                                (running_nextXid running) (subtrans st);
                            observed = TransactionIdRetreat observed;
                            st = st\<lparr>known := ka, subtrans := sub, latestObservedXid := observed\<rparr>;
                            st = (if subxid_status running = SUBXIDS_MISSING
                                  then st\<lparr>standbyState := STANDBY_SNAPSHOT_PENDING,
                                          standbySnapshotPendingXmin := observed, lastOverflowedXid := observed\<rparr>
                                  else st\<lparr>standbyState := STANDBY_SNAPSHOT_READY,
                                          standbySnapshotPendingXmin := InvalidTransactionId,
                                          lastOverflowedXid := (if subxid_status running = SUBXIDS_IN_SUBTRANS
                                                                then observed else InvalidTransactionId)\<rparr>)
                        in Inr (st\<lparr>shared := AdvanceNextFullTransactionIdPastXid observed
                                     (MaintainLatestCompletedXidRecovery (running_latestCompletedXid running) (shared st))\<rparr>,
                                c)))))"

definition ProcArrayApplyRecoveryInfo ::
  "XactSlru \<Rightarrow> TransactionId \<Rightarrow> (TransactionId \<Rightarrow> bool) \<Rightarrow> compress_clock \<Rightarrow> RunningTransactionsData
    \<Rightarrow> StandbyProcArray \<Rightarrow> TransamCache
    \<Rightarrow> standby_event list \<times> (standby_error + StandbyProcArray \<times> TransamCache) option" where
  "ProcArrayApplyRecoveryInfo clog TransactionXmin is_prepared clock running st c =
     (let st = ExpireOldKnownAssignedTransactionIds is_prepared clock (oldestRunningXid running) st
      in ([StandbyReleaseOldLocks (oldestRunningXid running)],
          if standbyState st = STANDBY_SNAPSHOT_READY then Some (Inr (st, c))
          else if standbyState st = STANDBY_SNAPSHOT_PENDING then
            (if subxid_status running \<noteq> SUBXIDS_MISSING \<or> xcnt running = 0 then
               apply_running_xids clog TransactionXmin clock running
                 (st\<lparr>known := KnownAssignedXidsReset (known st), standbyState := STANDBY_INITIALIZED\<rparr>) c
             else if TransactionIdPrecedes (standbySnapshotPendingXmin st) (oldestRunningXid running) then
               Some (Inr (st\<lparr>standbyState := STANDBY_SNAPSHOT_READY\<rparr>, c))
             else Some (Inr (st, c)))
          else apply_running_xids clog TransactionXmin clock running st c))"

subsection \<open>Sets of observed ids\<close>

text \<open>Running a list of operations up to the first error.\<close>

fun run_ops :: "('o \<Rightarrow> 's \<Rightarrow> 'e + 's) \<Rightarrow> 'o list \<Rightarrow> 's \<Rightarrow> 'e + 's" where
  "run_ops app [] s = Inr s" |
  "run_ops app (x # xs) s = (case app x s of Inl e \<Rightarrow> Inl e | Inr t \<Rightarrow> run_ops app xs t)"

text \<open>
  A set of live ids next to a growing set of ids seen so far: an operation adds exactly the ids it
  makes seen and removes the ids it names.
\<close>

locale observed_set =
  fixes wf :: "'s \<Rightarrow> bool"
    and ids :: "'s \<Rightarrow> 'x set"
    and seen :: "'s \<Rightarrow> 'x set"
    and ok :: "'o \<Rightarrow> bool"
    and removes :: "'o \<Rightarrow> 'x set"
    and app :: "'o \<Rightarrow> 's \<Rightarrow> 'e + 's"
  assumes app_wf: "wf s \<Longrightarrow> ok x \<Longrightarrow> app x s = Inr t \<Longrightarrow> wf t"
    and app_seen: "wf s \<Longrightarrow> ok x \<Longrightarrow> app x s = Inr t \<Longrightarrow> seen s \<subseteq> seen t"
    and app_ids: "wf s \<Longrightarrow> ok x \<Longrightarrow> app x s = Inr t \<Longrightarrow> ids t = (ids s \<union> (seen t - seen s)) - removes x"
begin

lemma run_wf_seen:
  assumes "wf s" and "\<forall>x \<in> set xs. ok x" and "run_ops app xs s = Inr t"
  shows "wf t \<and> seen s \<subseteq> seen t"
  using assms
proof (induction xs arbitrary: s)
  case (Cons x xs)
  then obtain u where u: "app x s = Inr u" "run_ops app xs u = Inr t" by (auto split: sum.splits)
  have "ok x" using Cons.prems(2) by simp
  note wu = app_wf [OF Cons.prems(1) this u(1)] app_seen [OF Cons.prems(1) this u(1)]
  have "wf t \<and> seen u \<subseteq> seen t" using Cons wu(1) u(2) by auto
  with wu show ?case by blast
qed simp

lemma run_ids:
  assumes "wf s" and "\<forall>x \<in> set xs. ok x" and "run_ops app xs s = Inr t"
  shows "ids t \<subseteq> ids s \<union> (seen t - seen s)
    \<and> (ids s \<union> (seen t - seen s)) - \<Union> (removes ` set xs) \<subseteq> ids t"
  using assms
proof (induction xs arbitrary: s)
  case (Cons x xs)
  then obtain u where u: "app x s = Inr u" "run_ops app xs u = Inr t" by (auto split: sum.splits)
  have "ok x" using Cons.prems(2) by simp
  note wu = app_wf [OF Cons.prems(1) this u(1)] app_seen [OF Cons.prems(1) this u(1)] app_ids [OF Cons.prems(1) this u(1)]
  have "ids t \<subseteq> ids u \<union> (seen t - seen u) \<and> (ids u \<union> (seen t - seen u)) - \<Union> (removes ` set xs) \<subseteq> ids t"
    using Cons wu(1) u(2) by auto
  moreover have "seen u \<subseteq> seen t" using run_wf_seen [OF wu(1) _ u(2)] Cons.prems(2) by auto
  ultimately show ?case using wu(2,3) by auto
qed simp

end

subsection \<open>The ids a standby treats as running\<close>

definition running :: "StandbyProcArray \<Rightarrow> TransactionId set" where
  "running st = set (ka_list (known st))"

definition observed :: "TransactionId \<Rightarrow> StandbyProcArray \<Rightarrow> TransactionId set" where
  "observed b st = {x \<in> xid_window b. unat (x - b) \<le> unat (latestObservedXid st - b)}"

definition standby_inv :: "TransactionId \<Rightarrow> StandbyProcArray \<Rightarrow> bool" where
  "standby_inv b st \<longleftrightarrow> ka_inv b (known st) \<and> latestObservedXid st \<in> xid_window b
     \<and> set (ka_entries (known st)) \<subseteq> observed b st \<and> STANDBY_INITIALIZED < standbyState st"

lemma follows_window:
  assumes "x \<in> xid_window b" and "y \<in> xid_window b"
  shows "TransactionIdFollows x y \<longleftrightarrow> unat (y - b) < unat (x - b)"
  using assms by (simp add: TransactionIdFollows_def sint_window [OF assms] window_normal
      uint_less_unat uint_le_unat)

lemma window_difference:
  fixes t f b :: TransactionId
  assumes "unat (f - b) \<le> unat (t - b)"
  shows "unat (t - f) = unat (t - b) - unat (f - b)"
proof -
  have "t - f = (t - b) - (f - b)" by simp
  also have "unat \<dots> = unat (t - b) - unat (f - b)"
    using assms by (intro unat_sub) (simp add: word_le_nat_alt)
  finally show ?thesis .
qed

lemma standby_ready: "STANDBY_INITIALIZED < s \<longleftrightarrow> s = STANDBY_SNAPSHOT_PENDING \<or> s = STANDBY_SNAPSHOT_READY"
  by (cases s) (auto simp: less_HotStandbyState_def)

text \<open>
  The error of an insertion that does not fit. The array is overrun instead if the number of new ids and the size
  of the array together leave the range of an \<open>int\<close>.
\<close>

definition no_room :: "kax_error \<Rightarrow> StandbyProcArray \<Rightarrow> nat \<Rightarrow> bool" where
  "no_room e st new \<longleftrightarrow> maxKnownAssignedXids (known st) < card (running st) + new
     \<and> (e = TooManyKnownAssignedXids \<or> e = KnownAssignedXidsOverrun \<and> 2 ^ 31 \<le> maxKnownAssignedXids (known st) + new)"

lemma RecordKnownAssigned_result:
  assumes inv: "standby_inv b st" and x: "xid \<in> xid_window b"
  defines "new \<equiv> {x \<in> xid_window b. unat (latestObservedXid st - b) < unat (x - b) \<and> unat (x - b) \<le> unat (xid - b)}"
  shows "case RecordKnownAssignedTransactionIds clock xid st of
      Inl e \<Rightarrow> no_room e st (card new)
    | Inr st' \<Rightarrow> standby_inv b st' \<and> running st' = running st \<union> new
        \<and> observed b st' = observed b st \<union> new \<and> standbyState st' = standbyState st
        \<and> lastOverflowedXid st' = lastOverflowedXid st"
proof (cases "unat (latestObservedXid st - b) < unat (xid - b)")
  case False
  then have "new = {}" by (auto simp: new_def)
  moreover have "\<not> TransactionIdFollows xid (latestObservedXid st)"
    using False x inv by (simp add: standby_inv_def follows_window)
  ultimately show ?thesis using inv by (simp add: RecordKnownAssignedTransactionIds_def)
next
  case True
  let ?o = "latestObservedXid st" and ?f = "TransactionIdAdvance (latestObservedXid st)"
  have o: "?o \<in> xid_window b" and ka: "ka_inv b (known st)" and e: "set (ka_entries (known st)) \<subseteq> observed b st"
    and rdy: "STANDBY_INITIALIZED < standbyState st" "\<not> standbyState st \<le> STANDBY_INITIALIZED"
    using inv by (simp_all add: standby_inv_def not_le)
  note adv = window_advance [OF o x True]
  then have f: "?f \<in> xid_window b" "unat (?f - b) \<le> unat (xid - b)" by blast+
  have small: "unat (xid - ?f) < 2147483647"
  proof -
    have "unat (xid - b) < 2147483648" using x by (simp add: xid_window_def)
    moreover have "0 < unat (?f - b)" using adv by linarith
    ultimately show ?thesis using window_difference [OF f(2)] by linarith
  qed
  have new: "new = xid_between b ?f xid"
    using adv by (auto simp: new_def xid_between_def)
  have ord: "ka_in_order (known st) ?f"
    using e adv f(1) by (auto simp: ka_in_order_def observed_def precedes_window)
  have wf: "ka_wf b (known st)" using ka by (simp add: ka_inv_def)
  have card: "card (running st) = length (ka_list (known st))"
    unfolding running_def by (rule distinct_card [OF sorted_precedes_distinct [OF ka_list_sorted [OF wf]]])
  have fol: "TransactionIdFollows xid ?o" using True x o by (simp add: follows_window)
  note result = KnownAssignedXidsAdd_result [OF ka f(1) x f(2) small, of clock]
  show ?thesis
  proof (cases "KnownAssignedXidsAdd ?f xid clock (known st)")
    case (Inl err)
    with result ord have "no_room err st (card new)"
      by (auto simp: no_room_def card new split: if_splits)
    with Inl fol rdy show ?thesis
      by (simp add: RecordKnownAssignedTransactionIds_def Let_def)
  next
    case (Inr u)
    with result ord obtain run where u: "ka_inv b u" "ka_list u = ka_list (known st) @ run" "set run = new"
      "set (ka_entries u) \<subseteq> set (ka_entries (known st)) \<union> new"
      by (auto simp: new split: if_splits)
    let ?st = "st\<lparr>subtrans := extend_subtrans_upto ?o xid (subtrans st), known := u, latestObservedXid := xid,
      shared := AdvanceNextFullTransactionIdPastXid xid (shared st)\<rparr>"
    have r: "RecordKnownAssignedTransactionIds clock xid st = Inr ?st"
      using Inr fol rdy by (simp add: RecordKnownAssignedTransactionIds_def Let_def)
    have obs: "observed b ?st = observed b st \<union> new"
      using True by (auto simp: observed_def new_def)
    have "standby_inv b ?st"
      using u(1,4) x e rdy obs by (auto simp: standby_inv_def)
    moreover have "running ?st = running st \<union> new" using u(2,3) by (simp add: running_def)
    ultimately show ?thesis unfolding r using obs by simp
  qed
qed

subsection \<open>The operations of a standby in the snapshot states\<close>

datatype standby_op =
    Observe TransactionId
  | EndTree TransactionId "TransactionId list" TransactionId
  | Assignment TransactionId "TransactionId list"
  | PruneBefore TransactionId
  | Idle

fun standby_apply ::
  "(TransactionId \<Rightarrow> bool) \<Rightarrow> compress_clock \<Rightarrow> standby_op \<Rightarrow> StandbyProcArray \<Rightarrow> kax_error + StandbyProcArray" where
  "standby_apply is_prepared clock (Observe xid) st = RecordKnownAssignedTransactionIds clock xid st" |
  "standby_apply is_prepared clock (EndTree xid subxids max_xid) st =
     Inr (ExpireTreeKnownAssignedTransactionIds clock xid subxids max_xid st)" |
  "standby_apply is_prepared clock (Assignment topxid subxids) st =
     ProcArrayApplyXidAssignment clock clock topxid subxids st" |
  "standby_apply is_prepared clock (PruneBefore xid) st =
     Inr (ExpireOldKnownAssignedTransactionIds is_prepared clock xid st)" |
  "standby_apply is_prepared clock Idle st = Inr (KnownAssignedTransactionIdsIdleMaintenance clock st)"

text \<open>
  The ids a record names, and those it takes out of the array: the ids of an ended tree, the subtransactions that an
  assignment record hands over to the subtransaction log, and the ids pruned because they are older than all
  running ones. A record of running transactions is \<open>PruneBefore\<close> on a standby that is ready.
\<close>

fun op_ids :: "standby_op \<Rightarrow> TransactionId set" where
  "op_ids (Observe xid) = {xid}" |
  "op_ids (EndTree xid subxids max_xid) = {}" |
  "op_ids (Assignment topxid subxids) = set (topxid # subxids)" |
  "op_ids (PruneBefore xid) = {xid}" |
  "op_ids Idle = {}"

fun op_removes :: "(TransactionId \<Rightarrow> bool) \<Rightarrow> standby_op \<Rightarrow> TransactionId set" where
  "op_removes is_prepared (Observe xid) = {}" |
  "op_removes is_prepared (EndTree xid subxids max_xid) = set (xid # subxids)" |
  "op_removes is_prepared (Assignment topxid subxids) = set subxids" |
  "op_removes is_prepared (PruneBefore xid) = {x. TransactionIdPrecedes x xid \<and> \<not> is_prepared x}" |
  "op_removes is_prepared Idle = {}"

text \<open>The ids first observed with an operation.\<close>

fun op_observes :: "standby_op \<Rightarrow> TransactionId option" where
  "op_observes (Observe xid) = Some xid" |
  "op_observes (Assignment topxid subxids) = Some (TransactionIdLatest topxid subxids)" |
  "op_observes _ = None"

definition newly_observed :: "TransactionId \<Rightarrow> standby_op \<Rightarrow> StandbyProcArray \<Rightarrow> TransactionId set" where
  "newly_observed b x st =
     (case op_observes x of
        None \<Rightarrow> {}
      | Some xid \<Rightarrow> {y \<in> xid_window b. unat (latestObservedXid st - b) < unat (y - b) \<and> unat (y - b) \<le> unat (xid - b)})"

lemma standby_inv_known:
  assumes "standby_inv b st" and "ka_inv b ka" and "set (ka_entries ka) \<subseteq> set (ka_entries (known st))"
    and "known st' = ka" and "latestObservedXid st' = latestObservedXid st" and "standbyState st' = standbyState st"
  shows "standby_inv b st' \<and> observed b st' = observed b st"
  using assms by (auto simp: standby_inv_def observed_def)

lemma latest_in_window:
  assumes "set (topxid # subxids) \<subseteq> xid_window b"
  shows "TransactionIdLatest topxid subxids \<in> xid_window b"
    and "\<forall>x \<in> set (topxid # subxids). unat (x - b) \<le> unat (TransactionIdLatest topxid subxids - b)"
proof -
  have "set (topxid # rev subxids) \<subseteq> xid_window b" using assms by simp
  from foldl_latest [OF this]
  have l: "TransactionIdLatest topxid subxids \<in> set (topxid # subxids)"
    "\<forall>x \<in> set (topxid # subxids). \<not> TransactionIdPrecedes (TransactionIdLatest topxid subxids) x"
    unfolding TransactionIdLatest_def by simp_all
  then show w: "TransactionIdLatest topxid subxids \<in> xid_window b" using assms by blast
  show "\<forall>x \<in> set (topxid # subxids). unat (x - b) \<le> unat (TransactionIdLatest topxid subxids - b)"
    using l(2) assms w by (auto simp: precedes_window not_less subset_iff)
qed

lemma assignment_result:
  assumes inv: "standby_inv b st" and ids: "set (topxid # subxids) \<subseteq> xid_window b"
  defines "new \<equiv> newly_observed b (Assignment topxid subxids) st"
  shows "case ProcArrayApplyXidAssignment clock clock' topxid subxids st of
      Inl e \<Rightarrow> no_room e st (card new)
    | Inr st' \<Rightarrow> standby_inv b st' \<and> observed b st' = observed b st \<union> new
        \<and> running st' = (running st \<union> new) - set subxids
        \<and> (\<exists>sub. subtrans st' = fold (\<lambda>x. SubTransSetParent x topxid) subxids sub)
        \<and> (let m = TransactionIdLatest topxid subxids in
             lastOverflowedXid st' = (if TransactionIdPrecedes (lastOverflowedXid st) m then m else lastOverflowedXid st))"
proof -
  let ?m = "TransactionIdLatest topxid subxids"
  note rec = RecordKnownAssigned_result [OF inv latest_in_window(1) [OF ids], of clock]
  have new: "new = {x \<in> xid_window b. unat (latestObservedXid st - b) < unat (x - b) \<and> unat (x - b) \<le> unat (?m - b)}"
    by (simp add: new_def newly_observed_def)
  show ?thesis
  proof (cases "RecordKnownAssignedTransactionIds clock ?m st")
    case (Inl e)
    with rec show ?thesis by (simp add: ProcArrayApplyXidAssignment_def Let_def new)
  next
    case (Inr st1)
    with rec have st1: "standby_inv b st1" "running st1 = running st \<union> new" "observed b st1 = observed b st \<union> new"
      "lastOverflowedXid st1 = lastOverflowedXid st" by (simp_all add: new)
    let ?ka = "KnownAssignedXidsRemoveTree InvalidTransactionId subxids clock' (known st1)"
    define st' where "st' = st1\<lparr>subtrans := fold (\<lambda>x. SubTransSetParent x topxid) subxids (subtrans st1), known := ?ka,
      lastOverflowedXid := (if TransactionIdPrecedes (lastOverflowedXid st) ?m then ?m else lastOverflowedXid st)\<rparr>"
    have "standbyState st1 \<noteq> STANDBY_INITIALIZED" using st1(1) by (auto simp: standby_inv_def)
    then have r: "ProcArrayApplyXidAssignment clock clock' topxid subxids st = Inr st'"
      using Inr st1(4) by (auto simp: ProcArrayApplyXidAssignment_def Let_def st'_def)
    have ka: "ka_inv b (known st1)" using st1(1) by (simp add: standby_inv_def)
    note rm = KnownAssignedXidsRemoveTree_keeps [OF ka, of InvalidTransactionId subxids clock']
    have "standby_inv b st' \<and> observed b st' = observed b st1"
      using rm by (intro standby_inv_known [OF st1(1), of ?ka]) (simp_all add: st'_def)
    moreover have "ka_wf b (known st1)" using ka by (simp add: ka_inv_def)
    then have "InvalidTransactionId \<notin> running st1"
      unfolding running_def using ka_list_window window_normal normal_valid invalid_not_valid by blast
    then have "running st' = running st1 - set subxids"
      using rm by (auto simp: running_def st'_def)
    ultimately show ?thesis unfolding r using st1(2,3) by (auto simp: st'_def Let_def)
  qed
qed

text \<open>One operation: the array stays well-formed and holds exactly the ids observed and not taken out.\<close>

lemma standby_apply_result:
  assumes inv: "standby_inv b st" and ids: "op_ids x \<subseteq> xid_window b"
  shows "case standby_apply is_prepared clock x st of
      Inl e \<Rightarrow> no_room e st (card (newly_observed b x st))
    | Inr st' \<Rightarrow> standby_inv b st' \<and> observed b st' = observed b st \<union> newly_observed b x st
        \<and> running st' = (running st \<union> newly_observed b x st) - op_removes is_prepared x"
proof (cases x)
  case (Observe xid)
  with RecordKnownAssigned_result [OF inv, of xid clock] ids show ?thesis
    by (simp add: newly_observed_def split: sum.splits)
next
  case (EndTree xid subxids max_xid)
  let ?ka = "KnownAssignedXidsRemoveTree xid subxids clock (known st)"
  have ka: "ka_inv b (known st)" using inv by (simp add: standby_inv_def)
  note rm = KnownAssignedXidsRemoveTree_keeps [OF ka, of xid subxids clock]
  with standby_inv_known [OF inv, of ?ka] show ?thesis
    by (auto simp: EndTree newly_observed_def running_def ExpireTreeKnownAssignedTransactionIds_def)
next
  case (Assignment topxid subxids)
  with assignment_result [OF inv, of topxid subxids clock clock] ids show ?thesis
    by (auto simp: newly_observed_def split: sum.splits)
next
  case (PruneBefore xid)
  let ?ka = "KnownAssignedXidsRemovePreceding is_prepared xid clock (known st)"
  have ka: "ka_inv b (known st)" using inv by (simp add: standby_inv_def)
  have "xid \<in> xid_window b" using ids PruneBefore by simp
  note rm = KnownAssignedXidsRemovePreceding_keeps [OF ka this, of is_prepared clock]
  with standby_inv_known [OF inv, of ?ka] show ?thesis
    by (auto simp: PruneBefore newly_observed_def running_def ExpireOldKnownAssignedTransactionIds_def Let_def)
next
  case Idle
  let ?ka = "KnownAssignedXidsCompress KAX_STARTUP_PROCESS_IDLE clock (known st)"
  have ka: "ka_inv b (known st)" using inv by (simp add: standby_inv_def)
  note rm = KnownAssignedXidsCompress_keeps [OF ka, of KAX_STARTUP_PROCESS_IDLE clock]
  with standby_inv_known [OF inv, of ?ka] show ?thesis
    by (auto simp: Idle newly_observed_def running_def KnownAssignedTransactionIdsIdleMaintenance_def)
qed

interpretation standby_ids: observed_set "standby_inv b" running "observed b" "\<lambda>x. op_ids x \<subseteq> xid_window b"
  "op_removes is_prepared" "standby_apply is_prepared clock" for b is_prepared clock
proof
  fix s x t
  assume h: "standby_inv b s" "op_ids x \<subseteq> xid_window b" "standby_apply is_prepared clock x s = Inr t"
  note r = standby_apply_result [OF h(1,2), of is_prepared clock]
  show "standby_inv b t" using r h(3) by simp
  show "observed b s \<subseteq> observed b t" using r h(3) by simp
  have "newly_observed b x s \<inter> observed b s = {}"
    by (auto simp: newly_observed_def observed_def split: option.splits)
  then show "running t = running s \<union> (observed b t - observed b s) - op_removes is_prepared x"
    using r h(3) by auto
qed

subsection \<open>What the standby promises\<close>

text \<open>A standby that has observed the ids up to 3, of which the array of the samples holds three as running.\<close>

definition sample_standby :: StandbyProcArray where
  "sample_standby = \<lparr>known = sample_kax, shared = sample_vcache\<lparr>nextXid := \<lparr>fxid_value = 0x100000004\<rparr>,
       latestCompletedXid := \<lparr>fxid_value = 0xFFFFFFFD\<rparr>\<rparr>, subtrans = zero_subtrans, lastOverflowedXid = 0,
     latestObservedXid = 3, standbySnapshotPendingXmin = 0, standbyState = STANDBY_SNAPSHOT_READY\<rparr>"

lemma sample_standby_inv: "standby_inv 4294967290 sample_standby"
  using sample_kax_inv
  by (simp add: standby_inv_def sample_standby_def sample_kax_entries observed_def xid_window_def
      TransactionIdIsNormal_def FirstNormalTransactionId_def less_HotStandbyState_def)

text \<open>
  C17: a standby in a snapshot state never fails with the out-of-order error. An operation fails
  only when the ids it newly observes do not fit next to those in the array; otherwise the array
  holds exactly the ids that it held or that are newly observed, including all ids
  between the last observed one and the new one, without those the record takes out (the ids of an ended tree,
  the subtransactions of an assignment, the ids pruned as too old), and the invariant holds again.
\<close>

theorem standby_apply_correct:
  assumes "standby_inv b st" and "op_ids x \<subseteq> xid_window b"
  shows "case standby_apply is_prepared clock x st of
      Inl e \<Rightarrow> no_room e st (card (newly_observed b x st))
    | Inr st' \<Rightarrow> standby_inv b st' \<and> observed b st' = observed b st \<union> newly_observed b x st
        \<and> running st' = (running st \<union> newly_observed b x st) - op_removes is_prepared x"
  using assms by (rule standby_apply_result)

theorem standby_apply_correct_witness:
  "running (ExpireTreeKnownAssignedTransactionIds (0, 0) 4294967290 [3] 3 sample_standby) = {4294967295}"
  using standby_apply_correct [OF sample_standby_inv, of "EndTree 4294967290 [3] 3" "\<lambda>_. False" "(0, 0)"]
  by (auto simp: newly_observed_def running_def sample_standby_def sample_kax_list)



subsection \<open>Extending ids by their epoch\<close>

lemma FullXidRelativeTo_exact:
  assumes "\<bar>uint (fxid_value F) - uint (fxid_value rel)\<bar> < 2 ^ 31"
  shows "FullXidRelativeTo rel (XidFromFullTransactionId F) = F"
proof -
  have "sint (XidFromFullTransactionId F - XidFromFullTransactionId rel) = uint (fxid_value F) - uint (fxid_value rel)"
    using assms by (intro sint_xid_difference) simp
  then have "(scast (XidFromFullTransactionId F - XidFromFullTransactionId rel) :: uint64)
      = word_of_int (uint (fxid_value F) - uint (fxid_value rel))"
    by (metis of_int_sint)
  then have "fxid_value rel + scast (XidFromFullTransactionId F - XidFromFullTransactionId rel) = fxid_value F"
    by simp
  then show ?thesis
    by (simp add: FullXidRelativeTo_def U64FromFullTransactionId_def FullTransactionIdFromU64_def)
qed

text \<open>
  The newest completed id is kept exact over 64 bits. If the id passed to
  \<open>MaintainLatestCompletedXid\<close> is the low half of a 64-bit id less than \<open>2 ^ 31\<close> away from the
  current one, the new value is the larger of the two 64-bit ids, across any change of epoch.
\<close>

theorem MaintainLatestCompletedXid_max:
  assumes "TransactionIdIsNormal (XidFromFullTransactionId F)"
    and "TransactionIdIsNormal (XidFromFullTransactionId (latestCompletedXid vc))"
    and "\<bar>uint (fxid_value F) - uint (fxid_value (latestCompletedXid vc))\<bar> < 2 ^ 31"
  shows "latestCompletedXid (MaintainLatestCompletedXid (XidFromFullTransactionId F) vc)
    = (if FullTransactionIdPrecedes (latestCompletedXid vc) F then F else latestCompletedXid vc)"
proof -
  have "\<bar>uint (fxid_value (latestCompletedXid vc)) - uint (fxid_value F)\<bar> < 2 ^ 31"
    using assms(3) by (simp add: abs_minus_commute)
  from precedes_full [OF assms(2,1) this] FullXidRelativeTo_exact [OF assms(3)]
  show ?thesis by (simp add: MaintainLatestCompletedXid_def Let_def)
qed

theorem MaintainLatestCompletedXid_max_witness:
  "latestCompletedXid (MaintainLatestCompletedXid 5 (sample_vcache\<lparr>latestCompletedXid := \<lparr>fxid_value = 0x1FFFFFFFE\<rparr>\<rparr>))
    = \<lparr>fxid_value = 0x200000005\<rparr>"
proof -
  have "XidFromFullTransactionId \<lparr>fxid_value = 0x200000005\<rparr> = 5"
    "XidFromFullTransactionId \<lparr>fxid_value = 0x1FFFFFFFE\<rparr> = 0xFFFFFFFE"
    by code_simp+
  then show ?thesis
    using MaintainLatestCompletedXid_max [of "\<lparr>fxid_value = 0x200000005\<rparr>"
        "sample_vcache\<lparr>latestCompletedXid := \<lparr>fxid_value = 0x1FFFFFFFE\<rparr>\<rparr>"]
    by (simp add: TransactionIdIsNormal_def FirstNormalTransactionId_def FullTransactionIdPrecedes_def)
qed

subsection \<open>Assignment records\<close>

lemma parent_set_fold:
  assumes "x \<in> set xs" and "TransactionIdIsNormal x"
  shows "SubTransGetParent (fold (\<lambda>x. SubTransSetParent x p) xs sub) x = p"
proof -
  have keep: "SubTransGetParent (fold (\<lambda>x. SubTransSetParent x p) ys s) x = p"
    if "SubTransGetParent s x = p" for ys s
    using that by (induction ys arbitrary: s) (simp_all add: parent_set)
  show ?thesis
    using assms(1)
  proof (induction xs arbitrary: sub)
    case (Cons y ys)
    then show ?case
    proof (cases "x = y")
      case True
      with assms(2) keep show ?thesis by (simp add: parent_set)
    next
      case False
      with Cons show ?thesis by simp
    qed
  qed simp
qed

lemma assignment_overflow_window:
  assumes "standby_inv b st" and "set (topxid # subxids) \<subseteq> xid_window b"
    and "lastOverflowedXid st = InvalidTransactionId \<or> lastOverflowedXid st \<in> xid_window b"
    and "ProcArrayApplyXidAssignment clock clock' topxid subxids st = Inr st'"
  shows "lastOverflowedXid st' \<in> xid_window b"
proof -
  let ?m = "TransactionIdLatest topxid subxids"
  note m = latest_in_window [OF assms(2)]
  have "?m \<noteq> 0" using m(1) window_normal not_normal_iff by blast
  then have "TransactionIdPrecedes InvalidTransactionId ?m"
    by (simp add: TransactionIdPrecedes_def InvalidTransactionId_def TransactionIdIsNormal_def
        FirstNormalTransactionId_def word_neq_0_conv)
  moreover have "lastOverflowedXid st' = (if TransactionIdPrecedes (lastOverflowedXid st) ?m then ?m else lastOverflowedXid st)"
    using assignment_result [OF assms(1,2), of clock clock'] assms(4) by (simp add: Let_def)
  ultimately show ?thesis using m(1) assms(3) by (auto split: if_splits)
qed

lemma assignment_covers:
  assumes "standby_inv b st" and "set (topxid # subxids) \<subseteq> xid_window b" and "topxid \<notin> set subxids"
    and "lastOverflowedXid st = InvalidTransactionId \<or> lastOverflowedXid st \<in> xid_window b"
    and "ProcArrayApplyXidAssignment clock clock' topxid subxids st = Inr st'"
  shows "standby_inv b st' \<and> running st' \<inter> set subxids = {}
    \<and> (topxid \<in> running st \<or> topxid \<notin> observed b st \<longrightarrow> topxid \<in> running st')
    \<and> (\<forall>x \<in> set subxids. SubTransGetParent (subtrans st') x = topxid
         \<and> \<not> TransactionIdPrecedes (lastOverflowedXid st') x)"
proof -
  let ?m = "TransactionIdLatest topxid subxids" and ?new = "newly_observed b (Assignment topxid subxids) st"
  have r: "standby_inv b st'" "running st' = (running st \<union> ?new) - set subxids"
    "\<exists>sub. subtrans st' = fold (\<lambda>x. SubTransSetParent x topxid) subxids sub"
    "lastOverflowedXid st' = (if TransactionIdPrecedes (lastOverflowedXid st) ?m then ?m else lastOverflowedXid st)"
    using assignment_result [OF assms(1,2), of clock clock'] assms(5) by (simp_all add: Let_def)
  note m = latest_in_window [OF assms(2)]
  have "topxid \<in> ?new" if "topxid \<notin> observed b st"
    using that m assms(2) by (auto simp: newly_observed_def observed_def)
  moreover have "SubTransGetParent (subtrans st') x = topxid" if "x \<in> set subxids" for x
  proof -
    have "TransactionIdIsNormal x" using that assms(2) window_normal by auto
    then show ?thesis using r(3) parent_set_fold [OF that] by metis
  qed
  moreover have "\<not> TransactionIdPrecedes (lastOverflowedXid st') x" if "x \<in> set subxids" for x
  proof -
    have x: "x \<in> xid_window b" "unat (x - b) \<le> unat (?m - b)" using that m(2) assms(2) by auto
    have mz: "?m \<noteq> 0" using m(1) window_normal not_normal_iff by blast
    then have "TransactionIdPrecedes InvalidTransactionId ?m"
      by (simp add: TransactionIdPrecedes_def InvalidTransactionId_def TransactionIdIsNormal_def
          FirstNormalTransactionId_def word_neq_0_conv)
    then show ?thesis
      using r(4) x m(1) assms(4) by (auto simp: precedes_window split: if_splits)
  qed
  ultimately show ?thesis using r(1,2) assms(3) by auto
qed

text \<open>
  When an assignment record is applied, every subtransaction it names leaves the running ids but
  is not lost: its parent in the subtransaction log is the top-level id, the top-level id is
  running if it was before or is newly observed, and \<open>lastOverflowedXid\<close> is not before any of the
  subtransactions, so that every snapshot that could miss one is marked as overflowed.
\<close>

theorem ProcArrayApplyXidAssignment_covers:
  assumes "standby_inv b st" and "set (topxid # subxids) \<subseteq> xid_window b" and "topxid \<notin> set subxids"
    and "lastOverflowedXid st = InvalidTransactionId \<or> lastOverflowedXid st \<in> xid_window b"
    and "ProcArrayApplyXidAssignment clock clock' topxid subxids st = Inr st'"
  shows "standby_inv b st' \<and> running st' \<inter> set subxids = {}
    \<and> (topxid \<in> running st \<or> topxid \<notin> observed b st \<longrightarrow> topxid \<in> running st')
    \<and> (\<forall>x \<in> set subxids. SubTransGetParent (subtrans st') x = topxid
         \<and> \<not> TransactionIdPrecedes (lastOverflowedXid st') x)"
  using assms by (rule assignment_covers)

theorem ProcArrayApplyXidAssignment_covers_witness:
  "\<exists>st'. ProcArrayApplyXidAssignment (0, 0) (0, 0) 4294967290 [4294967295, 3] sample_standby = Inr st'
    \<and> SubTransGetParent (subtrans st') 3 = 4294967290 \<and> 4294967290 \<in> running st'"
proof -
  have w: "set (4294967290 # [4294967295, 3]) \<subseteq> xid_window 4294967290"
    by (simp add: xid_window_def TransactionIdIsNormal_def FirstNormalTransactionId_def)
  have r: "4294967290 \<in> running sample_standby" by (simp add: running_def sample_standby_def sample_kax_list)
  have "TransactionIdLatest 4294967290 [4294967295, 3] = 3"
    by (simp add: TransactionIdLatest_def TransactionIdPrecedes_def TransactionIdIsNormal_def
        FirstNormalTransactionId_def sint_word32)
  then obtain st' where s: "ProcArrayApplyXidAssignment (0, 0) (0, 0) 4294967290 [4294967295, 3] sample_standby = Inr st'"
    by (simp add: ProcArrayApplyXidAssignment_def RecordKnownAssignedTransactionIds_def sample_standby_def
        TransactionIdFollows_def TransactionIdIsNormal_def FirstNormalTransactionId_def Let_def)
  show ?thesis
    using ProcArrayApplyXidAssignment_covers [OF sample_standby_inv w _ _ s] s r
    by (simp add: sample_standby_def InvalidTransactionId_def)
qed

subsection \<open>Building the array from a record of running transactions\<close>

lemma running_uncompleted_spec:
  assumes "TransactionIdIsNormal xmin" and "subtrans_ok sub" and "cache_ok clog c" and "set xs \<subseteq> xid_window b"
  shows "\<exists>c'. running_uncompleted clog sub xmin xs c
      = Some (filter (\<lambda>x. \<not> did_commit clog sub xmin x \<and> \<not> did_abort clog sub xmin x) xs, c') \<and> cache_ok clog c'"
  using assms(3,4)
proof (induction xs arbitrary: c)
  case (Cons x xs)
  have x: "TransactionIdIsValid x" using Cons.prems(2) window_normal normal_valid by auto
  obtain d where d: "TransactionIdDidCommit clog sub xmin x c = Some (did_commit clog sub xmin x, d)" "cache_ok clog d"
    using TransactionIdDidCommit_spec [OF assms(1,2) Cons.prems(1) x] by blast
  obtain e where e: "TransactionIdDidAbort clog sub xmin x d = Some (did_abort clog sub xmin x, e)" "cache_ok clog e"
    using TransactionIdDidAbort_spec [OF assms(1,2) d(2) x] by blast
  obtain f where "xid_completed clog sub xmin x c = Some (did_commit clog sub xmin x \<or> did_abort clog sub xmin x, f)"
    "cache_ok clog f"
    using d e by (cases "did_commit clog sub xmin x") (auto simp: xid_completed_def)
  moreover from Cons.IH [OF this(2)] Cons.prems(2) obtain g where
    "running_uncompleted clog sub xmin xs f
      = Some (filter (\<lambda>x. \<not> did_commit clog sub xmin x \<and> \<not> did_abort clog sub xmin x) xs, g)" "cache_ok clog g"
    by auto
  ultimately show ?case by auto
qed simp

definition xid_upto :: "TransactionId \<Rightarrow> TransactionId \<Rightarrow> TransactionId \<Rightarrow> bool" where
  "xid_upto b x y \<longleftrightarrow> unat (x - b) \<le> unat (y - b)"

lemma insert_xid_set: "set (insert_xid x ys) = insert x (set ys)"
  by (induction ys) auto

lemma insert_xid_sorted:
  assumes "insert x (set ys) \<subseteq> xid_window b" and "sorted_wrt (xid_upto b) ys"
  shows "sorted_wrt (xid_upto b) (insert_xid x ys)"
  using assms
proof (induction ys)
  case (Cons y ys)
  have c: "xidLogicalComparator x y \<le> 0 \<longleftrightarrow> xid_upto b x y"
    using Cons.prems(1) by (auto simp: xidLogicalComparator_def xid_upto_def precedes_window)
  show ?case
    using Cons c by (auto simp: insert_xid_set xid_upto_def)
qed simp

lemma qsort_xids_sorted:
  assumes "set xs \<subseteq> xid_window b"
  shows "set (qsort_xids xs) = set xs \<and> sorted_wrt (xid_upto b) (qsort_xids xs)"
  using assms unfolding qsort_xids_def
  by (induction xs) (simp_all add: insert_xid_set insert_xid_sorted)

lemma xid_between_self: "x \<in> xid_window b \<Longrightarrow> xid_between b x x = {x}"
  using xid_at_offset [of _ b x 0] by (auto simp: xid_between_def)

text \<open>Adding sorted ids, one copy of each, to an array of ids not after them.\<close>

lemma add_running_xids_result:
  assumes "ka_inv b ka" and "set ys \<subseteq> xid_window b" and "sorted_wrt (xid_upto b) ys"
    and "\<And>x y. x \<in> set (ka_entries ka) \<Longrightarrow> y \<in> set ys \<Longrightarrow> if prev = Some y then y \<in> set (ka_list ka) \<and> xid_upto b x y else unat (x - b) < unat (y - b)"
    and "card (set (ka_list ka) \<union> set ys) \<le> maxKnownAssignedXids ka"
    and "\<And>y. prev = Some y \<Longrightarrow> y \<in> set (ka_list ka)"
  shows "\<exists>u. add_running_xids prev clock ys ka = Inr u \<and> ka_inv b u \<and> set (ka_list u) = set (ka_list ka) \<union> set ys
    \<and> set (ka_entries u) \<subseteq> set (ka_entries ka) \<union> set ys"
  using assms
proof (induction ys arbitrary: prev ka)
  case (Cons y ys)
  show ?case
  proof (cases "prev = Some y")
    case True
    then have y: "y \<in> set (ka_list ka)" using Cons.prems(6) by simp
    have "\<exists>u. add_running_xids (Some y) clock ys ka = Inr u \<and> ka_inv b u \<and> set (ka_list u) = set (ka_list ka) \<union> set ys
      \<and> set (ka_entries u) \<subseteq> set (ka_entries ka) \<union> set ys"
      using Cons.prems True y by (intro Cons.IH) (auto simp: insert_absorb)
    then show ?thesis using True y by auto
  next
    case False
    have yw: "y \<in> xid_window b" using Cons.prems(2) by simp
    have ord: "ka_in_order ka y"
      using Cons.prems(1,4) False yw by (auto simp: ka_in_order_def ka_inv_defs precedes_window)
    have fresh: "y \<notin> set (ka_list ka)"
      using Cons.prems(4) [of y y] False ka_list_subset by fastforce
    have wf: "ka_wf b ka" using Cons.prems(1) by (simp add: ka_inv_def)
    have len: "length (ka_list ka) = card (set (ka_list ka))"
      using distinct_card [OF sorted_precedes_distinct [OF ka_list_sorted [OF wf]]] by simp
    have "card (insert y (set (ka_list ka))) \<le> card (set (ka_list ka) \<union> set (y # ys))"
      by (intro card_mono) auto
    then have room: "length (ka_list ka) + 1 \<le> maxKnownAssignedXids ka"
      using fresh len Cons.prems(5) by simp
    have "unat (y - y) < 2147483647" by simp
    from KnownAssignedXidsAdd_result [OF Cons.prems(1) yw yw order.refl this, of clock] ord room
    obtain v where v: "KnownAssignedXidsAdd y y clock ka = Inr v" "ka_inv b v"
      "set (ka_list v) = set (ka_list ka) \<union> {y}" "set (ka_entries v) \<subseteq> set (ka_entries ka) \<union> {y}"
      "maxKnownAssignedXids v = maxKnownAssignedXids ka"
      by (auto simp: xid_between_self [OF yw])
    have up: "xid_upto b y z" if "z \<in> set ys" for z using Cons.prems(3) that by simp
    have sep: "unat (x - b) < unat (z - b)" if "x \<in> set (ka_entries ka)" "z \<in> set ys" "z \<noteq> y" for x z
      using Cons.prems(4) [of x y] False that up by (fastforce simp: xid_upto_def)
    have strict: "unat (y - b) < unat (z - b)" if "z \<in> set ys" "z \<noteq> y" for z
      using up [OF that(1)] that(2) xid_at_offset [of z b y 0] by (fastforce simp: xid_upto_def order.order_iff_strict)
    have "\<exists>u. add_running_xids (Some y) clock ys v = Inr u \<and> ka_inv b u \<and> set (ka_list u) = set (ka_list v) \<union> set ys
      \<and> set (ka_entries u) \<subseteq> set (ka_entries v) \<union> set ys"
    proof (rule Cons.IH)
      fix x z assume x: "x \<in> set (ka_entries v)" and z: "z \<in> set ys"
      have "x \<in> set (ka_entries ka) \<or> x = y" using x v(4) by auto
      then show "if Some y = Some z then z \<in> set (ka_list v) \<and> xid_upto b x z else unat (x - b) < unat (z - b)"
        using sep [of x z] strict [of z] z v(3) Cons.prems(4) [of x y] False up [OF z]
        by (auto simp: xid_upto_def)
    qed (use Cons.prems v in \<open>auto simp: insert_absorb Un_ac\<close>)
    then obtain u where u: "add_running_xids (Some y) clock ys v = Inr u" "ka_inv b u"
      "set (ka_list u) = set (ka_list v) \<union> set ys" "set (ka_entries u) \<subseteq> set (ka_entries v) \<union> set ys"
      by blast
    have "set (ka_entries u) \<subseteq> set (ka_entries ka) \<union> set (y # ys)" using u(4) v(4) by auto
    with u(1-3) v(1,3) False show ?thesis by simp
  qed
qed simp

lemma xid_skip_down_offset:
  "xid_skip_down 3 y = (if y = 2 then y - 3 else if y = 1 then y - 2 else if y = 0 then y - 1 else y)"
  unfolding numeral_3_eq_3 by (auto simp: special_cases)

text \<open>Inside a half circle, \<open>TransactionIdRetreat\<close> goes to the normal id before and skips none.\<close>

lemma window_retreat:
  assumes n: "n \<in> xid_window b" and x: "x \<in> xid_window b" and lt: "unat (x - b) < unat (n - b)"
  shows "TransactionIdRetreat n \<in> xid_window b \<and> unat (x - b) \<le> unat (TransactionIdRetreat n - b)
    \<and> unat (TransactionIdRetreat n - b) < unat (n - b)"
proof -
  have nb: "unat (n - b) < 2147483648" using n by (simp add: xid_window_def)
  have nn: "n \<noteq> 0" "n \<noteq> 1" "n \<noteq> 2" using window_normal [OF n] not_normal_iff by blast+
  obtain k where k: "unat (n - b) = unat (x - b) + k" "0 < k" using lt less_imp_add_positive by metis
  have nx: "x = n - of_nat k" using xid_at_offset [OF k(1)] by simp
  have norm: "TransactionIdIsNormal (TransactionIdRetreat n)"
    unfolding TransactionIdRetreat_def by (rule xid_skip_down_normal)
  have result: ?thesis if r: "TransactionIdRetreat n = n - of_nat j" and j: "0 < j" "j \<le> k" for j
  proof -
    have jn: "unat (of_nat j :: TransactionId) = j" using j k nb by (simp add: unat_of_nat)
    have "n - of_nat j - b = (n - b) - of_nat j" by (simp add: diff_diff_eq add.commute)
    moreover have "unat ((n - b) - of_nat j) = unat (n - b) - unat (of_nat j :: TransactionId)"
      by (rule unat_sub) (use j k jn in \<open>simp add: word_le_nat_alt\<close>)
    ultimately have "unat (TransactionIdRetreat n - b) = unat (n - b) - j" by (simp only: r jn)
    moreover from this have "unat (TransactionIdRetreat n - b) < unat (n - b)"
      "unat (x - b) \<le> unat (TransactionIdRetreat n - b)" "unat (TransactionIdRetreat n - b) < 2147483648"
      using j k nb by linarith+
    ultimately show ?thesis using norm by (simp add: xid_window_def)
  qed
  show ?thesis
  proof (cases "n = 3")
    case False
    then have "n - 1 \<noteq> 2" "n - 1 \<noteq> 1" "n - 1 \<noteq> 0" using nn by (auto simp: diff_eq_eq)
    then have "TransactionIdRetreat n = n - of_nat 1" by (simp add: TransactionIdRetreat_def xid_skip_down_offset)
    then show ?thesis by (rule result) (use k in simp_all)
  next
    case True
    have r: "TransactionIdRetreat n = n - of_nat 4" by (simp add: True TransactionIdRetreat_def xid_skip_down_offset)
    have "4 \<le> k"
    proof (rule ccontr)
      assume "\<not> 4 \<le> k"
      then have "k = 1 \<or> k = 2 \<or> k = 3" using k(2) by linarith
      then have "x = 2 \<or> x = 1 \<or> x = 0" unfolding nx True by (elim disjE) simp_all
      then show False using window_normal [OF x] not_normal_iff by blast
    qed
    then show ?thesis by (intro result [OF r]) simp_all
  qed
qed

lemma extend_subtrans_before_stops:
  assumes "o' \<in> xid_window b" and "n \<in> xid_window b" and "unat (o' - b) \<le> unat (n - b)"
  shows "fst (extend_subtrans_before o' n s) = n"
  using assms
proof (induction o' n s rule: extend_subtrans_before.induct)
  case (1 o' n s)
  show ?case
  proof (cases "unat (o' - b) < unat (n - b)")
    case True
    then have "TransactionIdPrecedes o' n" using "1.prems" by (simp add: precedes_window)
    then show ?thesis
      using "1.IH" window_advance [OF "1.prems"(1,2) True] "1.prems"(2) by (simp add: extend_subtrans_before.simps [of o'])
  next
    case False
    then have "o' = n" using "1.prems"(3) xid_at_offset [of o' b n 0] by simp
    then show ?thesis by (simp add: extend_subtrans_before.simps)
  qed
qed

text \<open>Extending the log of subtransactions keeps the parents it holds, or clears them with their page.\<close>

lemma ExtendSUBTRANS_parent:
  "SubTransGetParent (ExtendSUBTRANS y s) x \<in> {SubTransGetParent s x, InvalidTransactionId}"
  by (simp add: SubTransGetParent_def ExtendSUBTRANS_def ZeroSUBTRANSPage_def InvalidTransactionId_def)

lemma extend_subtrans_before_parent:
  "SubTransGetParent (snd (extend_subtrans_before o' n s)) x \<in> {SubTransGetParent s x, InvalidTransactionId}"
proof (induction o' n s rule: extend_subtrans_before.induct)
  case (1 o' n s)
  then show ?case
    using ExtendSUBTRANS_parent [of o' s x] by (auto simp: extend_subtrans_before.simps [of o'])
qed

text \<open>The ids of the record that are neither committed nor aborted.\<close>

definition still_running :: "XactSlru \<Rightarrow> TransactionId \<Rightarrow> RunningTransactionsData \<Rightarrow> StandbyProcArray \<Rightarrow> TransactionId set" where
  "still_running clog xmin r st =
     {x \<in> set (take (xcnt r + subxcnt r) (running_xids r)).
        \<not> did_commit clog (subtrans st) xmin x \<and> \<not> did_abort clog (subtrans st) xmin x}"

lemma apply_running_xids_builds:
  assumes ka: "ka_inv b (known st)" "ka_list (known st) = []"
    and log: "TransactionIdIsNormal xmin" "subtrans_ok (subtrans st)" "cache_ok clog c"
    and ids: "set (take (xcnt r + subxcnt r) (running_xids r)) \<subseteq> xid_window b"
    and nxt: "running_nextXid r \<in> xid_window b" "latestObservedXid st \<in> xid_window b"
      "unat (latestObservedXid st - b) < unat (running_nextXid r - b)"
      "\<And>x. x \<in> still_running clog xmin r st \<Longrightarrow> unat (x - b) < unat (running_nextXid r - b)"
    and room: "card (still_running clog xmin r st) \<le> maxKnownAssignedXids (known st)"
  shows "\<exists>st' c'. apply_running_xids clog xmin clock r st c = Some (Inr (st', c')) \<and> standby_inv b st'
    \<and> running st' = still_running clog xmin r st
    \<and> latestObservedXid st' = TransactionIdRetreat (running_nextXid r)
    \<and> standbyState st' = (if subxid_status r = SUBXIDS_MISSING then STANDBY_SNAPSHOT_PENDING else STANDBY_SNAPSHOT_READY)
    \<and> lastOverflowedXid st' = (if subxid_status r = SUBXIDS_IN_ARRAY then InvalidTransactionId else latestObservedXid st')
    \<and> standbySnapshotPendingXmin st' = (if subxid_status r = SUBXIDS_MISSING then latestObservedXid st' else InvalidTransactionId)
    \<and> (\<forall>x. SubTransGetParent (subtrans st') x \<in> {SubTransGetParent (subtrans st) x, InvalidTransactionId})"
proof -
  obtain xs d where xs: "running_uncompleted clog (subtrans st) xmin (take (xcnt r + subxcnt r) (running_xids r)) c = Some (xs, d)"
    "set xs = still_running clog xmin r st"
    using running_uncompleted_spec [OF log ids] by (auto simp: still_running_def)
  have sub: "set xs \<subseteq> xid_window b" using ids xs(2) by (auto simp: still_running_def)
  have num: "numKnownAssignedXids (known st) = 0" and none: "ka_entries (known st) = []"
    using ka by (auto simp: ka_inv_defs ka_entries_def ka_list_def ka_span_step split: if_splits)
  note q = qsort_xids_sorted [OF sub]
  have "\<exists>u. add_running_xids None clock (qsort_xids xs) (known st) = Inr u \<and> ka_inv b u
      \<and> set (ka_list u) = set (ka_list (known st)) \<union> set (qsort_xids xs)
      \<and> set (ka_entries u) \<subseteq> set (ka_entries (known st)) \<union> set (qsort_xids xs)"
    by (rule add_running_xids_result) (use ka q sub room none xs(2) in auto)
  then obtain u where u: "add_running_xids None clock (qsort_xids xs) (known st) = Inr u" "ka_inv b u"
    "set (ka_list u) = set xs" "set (ka_entries u) \<subseteq> set xs"
    using ka(2) none q by auto
  let ?n = "running_nextXid r" and ?o = "latestObservedXid st"
  note adv = window_advance [OF nxt(2,1,3)]
  obtain sub' where e: "extend_subtrans_before (TransactionIdAdvance ?o) ?n (subtrans st) = (?n, sub')"
    using extend_subtrans_before_stops [of "TransactionIdAdvance ?o" b ?n "subtrans st"] adv nxt(1)
    by (metis prod.collapse)
  have par: "SubTransGetParent sub' x = SubTransGetParent (subtrans st) x \<or> SubTransGetParent sub' x = InvalidTransactionId" for x
    using extend_subtrans_before_parent [of "TransactionIdAdvance ?o" ?n "subtrans st" x] by (simp add: e)
  note ret = window_retreat [OF nxt(1)]
  have "set xs \<subseteq> {x \<in> xid_window b. unat (x - b) \<le> unat (TransactionIdRetreat ?n - b)}"
    using sub nxt(4) ret xs(2) by auto
  then have inv: "standby_inv b st'" if "known st' = u" "latestObservedXid st' = TransactionIdRetreat ?n"
      "STANDBY_INITIALIZED < standbyState st'" for st'
    using that u(2,4) ret [OF nxt(2,3)] by (auto simp: standby_inv_def observed_def)
  show ?thesis
    using xs num u e inv par
    by (cases "subxid_status r") (auto simp: apply_running_xids_def running_def Let_def standby_ready)
qed

lemma recovery_info_builds:
  assumes "standbyState st = STANDBY_INITIALIZED" and "ka_inv b (known st)" and "ka_list (known st) = []"
    and "TransactionIdIsNormal xmin" and "subtrans_ok (subtrans st)" and "cache_ok clog c"
    and "set (take (xcnt r + subxcnt r) (running_xids r)) \<subseteq> xid_window b" and "oldestRunningXid r \<in> xid_window b"
    and "running_nextXid r \<in> xid_window b" and "latestObservedXid st \<in> xid_window b"
    and "unat (latestObservedXid st - b) < unat (running_nextXid r - b)"
    and "\<forall>x \<in> still_running clog xmin r st. unat (x - b) < unat (running_nextXid r - b)"
    and "card (still_running clog xmin r st) \<le> maxKnownAssignedXids (known st)"
  shows "\<exists>st' c'. ProcArrayApplyRecoveryInfo clog xmin is_prepared clock r st c
      = ([StandbyReleaseOldLocks (oldestRunningXid r)], Some (Inr (st', c')))
    \<and> standby_inv b st' \<and> running st' = still_running clog xmin r st
    \<and> latestObservedXid st' = TransactionIdRetreat (running_nextXid r)
    \<and> standbyState st' = (if subxid_status r = SUBXIDS_MISSING then STANDBY_SNAPSHOT_PENDING else STANDBY_SNAPSHOT_READY)
    \<and> lastOverflowedXid st' = (if subxid_status r = SUBXIDS_IN_ARRAY then InvalidTransactionId else latestObservedXid st')
    \<and> standbySnapshotPendingXmin st' = (if subxid_status r = SUBXIDS_MISSING then latestObservedXid st' else InvalidTransactionId)
    \<and> (\<forall>x. SubTransGetParent (subtrans st') x \<in> {SubTransGetParent (subtrans st) x, InvalidTransactionId})"
proof -
  define u where "u = ExpireOldKnownAssignedTransactionIds is_prepared clock (oldestRunningXid r) st"
  have u: "known u = KnownAssignedXidsRemovePreceding is_prepared (oldestRunningXid r) clock (known st)"
    "subtrans u = subtrans st" "latestObservedXid u = latestObservedXid st" "standbyState u = STANDBY_INITIALIZED"
    using assms(1) by (simp_all add: u_def ExpireOldKnownAssignedTransactionIds_def Let_def)
  have k: "ka_inv b (known u)" "ka_list (known u) = []" "maxKnownAssignedXids (known u) = maxKnownAssignedXids (known st)"
    using KnownAssignedXidsRemovePreceding_keeps [OF assms(2,8), of is_prepared clock] assms(3) by (simp_all add: u(1))
  have same: "still_running clog xmin r u = still_running clog xmin r st" by (simp add: still_running_def u(2))
  have "\<exists>st' c'. apply_running_xids clog xmin clock r u c = Some (Inr (st', c')) \<and> standby_inv b st'
    \<and> running st' = still_running clog xmin r u \<and> latestObservedXid st' = TransactionIdRetreat (running_nextXid r)
    \<and> standbyState st' = (if subxid_status r = SUBXIDS_MISSING then STANDBY_SNAPSHOT_PENDING else STANDBY_SNAPSHOT_READY)
    \<and> lastOverflowedXid st' = (if subxid_status r = SUBXIDS_IN_ARRAY then InvalidTransactionId else latestObservedXid st')
    \<and> standbySnapshotPendingXmin st' = (if subxid_status r = SUBXIDS_MISSING then latestObservedXid st' else InvalidTransactionId)
    \<and> (\<forall>x. SubTransGetParent (subtrans st') x \<in> {SubTransGetParent (subtrans u) x, InvalidTransactionId})"
    by (rule apply_running_xids_builds [OF k(1,2) assms(4)]) (use assms same k(3) u in auto)
  then show ?thesis
    by (simp add: ProcArrayApplyRecoveryInfo_def Let_def u_def [symmetric] u(2,4) same)
qed

text \<open>
  C18: the first record of running transactions makes the standby ready. In the initialised state
  with an empty array, and with room for the ids, applying the record never fails, whatever the order
  of its ids and however often one occurs: the running ids are exactly those of the record that
  the commit log shows neither as committed nor as aborted, all ids before the next id of the
  record are observed, and snapshots are enabled exactly if no subtransactions are missing.
\<close>

theorem ProcArrayApplyRecoveryInfo_builds:
  assumes "standbyState st = STANDBY_INITIALIZED" and "ka_inv b (known st)" and "ka_list (known st) = []"
    and "TransactionIdIsNormal xmin" and "subtrans_ok (subtrans st)" and "cache_ok clog c"
    and "set (take (xcnt r + subxcnt r) (running_xids r)) \<subseteq> xid_window b" and "oldestRunningXid r \<in> xid_window b"
    and "running_nextXid r \<in> xid_window b" and "latestObservedXid st \<in> xid_window b"
    and "unat (latestObservedXid st - b) < unat (running_nextXid r - b)"
    and "\<forall>x \<in> still_running clog xmin r st. unat (x - b) < unat (running_nextXid r - b)"
    and "card (still_running clog xmin r st) \<le> maxKnownAssignedXids (known st)"
  shows "\<exists>st' c'. ProcArrayApplyRecoveryInfo clog xmin is_prepared clock r st c
      = ([StandbyReleaseOldLocks (oldestRunningXid r)], Some (Inr (st', c')))
    \<and> standby_inv b st' \<and> running st' = still_running clog xmin r st
    \<and> latestObservedXid st' = TransactionIdRetreat (running_nextXid r)
    \<and> (standbyState st' = STANDBY_SNAPSHOT_READY \<longleftrightarrow> subxid_status r \<noteq> SUBXIDS_MISSING)"
  using recovery_info_builds [OF assms, of is_prepared clock] by fastforce

definition sample_running :: RunningTransactionsData where
  "sample_running = \<lparr>xcnt = 2, subxcnt = 1, subxid_status = SUBXIDS_IN_ARRAY, running_nextXid = 5,
     oldestRunningXid = 4294967295, running_latestCompletedXid = 4, running_xids = [3, 4294967295, 3]\<rparr>"

theorem ProcArrayApplyRecoveryInfo_builds_witness:
  "\<exists>st' c'. ProcArrayApplyRecoveryInfo zero_clog 3 (\<lambda>_. False) (0, 0) sample_running
       (sample_standby\<lparr>known := KnownAssignedXidsReset sample_kax, latestObservedXid := 4294967290,
          standbyState := STANDBY_INITIALIZED\<rparr>) empty_cache
      = ([StandbyReleaseOldLocks 4294967295], Some (Inr (st', c')))
    \<and> standby_inv 4294967290 st' \<and> standbyState st' = STANDBY_SNAPSHOT_READY"
proof -
  let ?st = "sample_standby\<lparr>known := KnownAssignedXidsReset sample_kax, latestObservedXid := 4294967290,
    standbyState := STANDBY_INITIALIZED\<rparr>"
  have sub: "still_running zero_clog 3 sample_running ?st \<subseteq> {3, 4294967295}"
    by (auto simp: still_running_def sample_running_def)
  have "card (still_running zero_clog 3 sample_running ?st) \<le> card {3, 4294967295 :: TransactionId}"
    using sub by (intro card_mono) simp_all
  then have room: "card (still_running zero_clog 3 sample_running ?st) \<le> 6" by (simp add: card_insert_if)
  have inv: "ka_inv 4294967290 (KnownAssignedXidsReset sample_kax)" "ka_list (KnownAssignedXidsReset sample_kax) = []"
    "maxKnownAssignedXids (KnownAssignedXidsReset sample_kax) = 6"
    using KnownAssignedXidsReset_empty [of sample_kax] by (simp_all add: sample_kax_def)
  have xs: "\<forall>x \<in> still_running zero_clog 3 sample_running ?st. unat (x - 4294967290) < unat (5 - 4294967290 :: TransactionId)"
    using sub by auto
  note normal = xid_window_def TransactionIdIsNormal_def FirstNormalTransactionId_def
  show ?thesis
    using ProcArrayApplyRecoveryInfo_builds
      [of ?st 4294967290 3 zero_clog empty_cache sample_running "\<lambda>_. False" "(0, 0)"] inv room xs cache_ok_empty
    by (auto simp: sample_running_def sample_standby_def normal subtrans_ok_def)
qed

end
