(* ===== verification/XactState.thy ===== *)
theory XactState
  imports VarSup "HOL-Library.Multiset"
begin

section \<open>The transaction state stack\<close>

text \<open>
  The part of \<open>src/backend/access/transam/xact.c\<close> that keeps track of which transaction ids belong
  to the current transaction. The linked list of \<open>TransactionStateData\<close> blocks is the list
  \<open>xstack\<close>, the current (sub)transaction first and the top-level transaction last; \<open>childXids\<close>
  and \<open>nChildXids\<close> of a block are one list. Callbacks, resource owners, memory contexts, locks and
  the other subsystems told about the start and end of a subtransaction are not part of the state.
  \<open>unreportedXids\<close> and the assignment records written to the WAL are.
\<close>

subsection \<open>State\<close>

datatype TransState = TRANS_DEFAULT | TRANS_START | TRANS_INPROGRESS | TRANS_COMMIT | TRANS_ABORT
  | TRANS_PREPARE

record TransactionStateData =
  fullTransactionId :: FullTransactionId
  subTransactionId :: uint32
  xact_state :: TransState
  childXids :: "TransactionId list"
  maxChildXids :: nat

record XactBackend =
  XactTopFullTransactionId :: FullTransactionId
  xstack :: "TransactionStateData list"
  ParallelCurrentXids :: "TransactionId list"
  currentSubTransactionId :: uint32
  currentCommandId :: CommandId
  unreportedXids :: "TransactionId list"
  didLogXid :: bool
  assignment_records :: "(TransactionId \<times> TransactionId list) list"

datatype xact_error = XidGenError varsup_error | CannotAssignInParallelOperation
  | TooManySubtransactions | TooManyCommittedSubtransactions | PopWithNoParent

definition InvalidFullTransactionId :: FullTransactionId where
  "InvalidFullTransactionId = FullTransactionIdFromEpochAndXid 0 InvalidTransactionId"

subsection \<open>Looking up transaction ids\<close>

definition GetTopTransactionIdIfAny :: "XactBackend \<Rightarrow> TransactionId" where
  "GetTopTransactionIdIfAny b = XidFromFullTransactionId (XactTopFullTransactionId b)"

definition GetCurrentTransactionIdIfAny :: "XactBackend \<Rightarrow> TransactionId" where
  "GetCurrentTransactionIdIfAny b = XidFromFullTransactionId (fullTransactionId (hd (xstack b)))"

definition xactGetCommittedChildren :: "XactBackend \<Rightarrow> TransactionId list" where
  "xactGetCommittedChildren b = childXids (hd (xstack b))"

definition SubTransactionIsActive :: "uint32 \<Rightarrow> XactBackend \<Rightarrow> bool" where
  "SubTransactionIsActive subxid b = (\<exists>s \<in> set (xstack b). xact_state s \<noteq> TRANS_ABORT \<and> subTransactionId s = subxid)"

fun xid_in_stack :: "TransactionId \<Rightarrow> TransactionStateData list \<Rightarrow> bool" where
  "xid_in_stack xid [] = False"
| "xid_in_stack xid (s # parents) =
     (if xact_state s = TRANS_ABORT then xid_in_stack xid parents
      else if \<not> FullTransactionIdIsValid (fullTransactionId s) then xid_in_stack xid parents
      else if xid = XidFromFullTransactionId (fullTransactionId s) then True
      else if bsearch_array TransactionIdPrecedes (childXids s) xid then True
      else xid_in_stack xid parents)"

definition TransactionIdIsCurrentTransactionId :: "XactBackend \<Rightarrow> TransactionId \<Rightarrow> bool" where
  "TransactionIdIsCurrentTransactionId b xid =
     (if \<not> TransactionIdIsNormal xid then False
      else if xid = GetTopTransactionIdIfAny b then True
      else if length (ParallelCurrentXids b) > 0 then bsearch_array (<) (ParallelCurrentXids b) xid
      else xid_in_stack xid (xstack b))"

subsection \<open>Assigning ids\<close>

text \<open>What the server is configured to log, and whether this process is a parallel worker.\<close>

record xact_config =
  xact_mode :: process_mode
  IsParallelWorker :: bool
  XLogLogicalInfoActive :: bool
  XLogStandbyInfoActive :: bool

text \<open>
  Reporting the ids of subtransactions in the WAL: an assignment record is written when the
  array of unreported ids is full, or when the id of the top-level transaction is not yet known.
\<close>

definition report_subxid :: "bool \<Rightarrow> TransactionId \<Rightarrow> XactBackend \<Rightarrow> XactBackend" where
  "report_subxid log_unknown_top xid b =
     (let b = b\<lparr>unreportedXids := unreportedXids b @ [xid]\<rparr>
      in if length (unreportedXids b) \<ge> PGPROC_MAX_CACHED_SUBXIDS \<or> log_unknown_top then
           b\<lparr>assignment_records := assignment_records b @ [(GetTopTransactionIdIfAny b, unreportedXids b)],
             unreportedXids := [], didLogXid := True\<rparr>
         else b)"

text \<open>
  Assigning an id to the block at position \<open>i\<close> of the stack, its parents having theirs. While
  \<open>GetNewTransactionId\<close> has released the lock, the other backends act as \<open>others\<close>.
\<close>

definition assign_one_xid ::
  "xact_config \<Rightarrow> (XidGenState \<Rightarrow> XidGenState) \<Rightarrow> nat \<Rightarrow> XactBackend \<times> XidGenState \<Rightarrow>
   xact_error + XactBackend \<times> XidGenState" where
  "assign_one_xid cfg others i = (\<lambda>(b, st).
     (let isSubXact = (i + 1 < length (xstack b));
          log_unknown_top = (isSubXact \<and> XLogLogicalInfoActive cfg \<and> \<not> didLogXid b)
      in case snd (GetNewTransactionId (xact_mode cfg) others isSubXact st) of
           Inl e \<Rightarrow> Inl (XidGenError e)
         | Inr (full_xid, st) \<Rightarrow>
             (let xid = XidFromFullTransactionId full_xid;
                  b = b\<lparr>xstack := (xstack b)[i := (xstack b ! i)\<lparr>fullTransactionId := full_xid\<rparr>]\<rparr>;
                  b = (if \<not> isSubXact then b\<lparr>XactTopFullTransactionId := full_xid\<rparr> else b);
                  st = (if isSubXact
                        then st\<lparr>sub_slru := SubTransSetParent xid
                               (XidFromFullTransactionId (fullTransactionId (xstack b ! (i + 1)))) (sub_slru st)\<rparr>
                        else st);
                  b = (if isSubXact \<and> XLogStandbyInfoActive cfg then report_subxid log_unknown_top xid b else b)
              in Inr (b, st))))"

text \<open>Assigning ids to the blocks at positions \<open>k - 1\<close>, ..., \<open>i\<close>, the oldest first.\<close>

fun assign_xids_down ::
  "xact_config \<Rightarrow> (XidGenState \<Rightarrow> XidGenState) \<Rightarrow> nat \<Rightarrow> nat \<Rightarrow> XactBackend \<times> XidGenState \<Rightarrow>
   xact_error + XactBackend \<times> XidGenState" where
  "assign_xids_down cfg others i 0 s = Inr s"
| "assign_xids_down cfg others i (Suc k) s =
     (case assign_one_xid cfg others (i + k) s of
        Inl e \<Rightarrow> Inl e
      | Inr s' \<Rightarrow> assign_xids_down cfg others i k s')"

definition AssignTransactionId ::
  "xact_config \<Rightarrow> (XidGenState \<Rightarrow> XidGenState) \<Rightarrow> nat \<Rightarrow> XactBackend \<times> XidGenState \<Rightarrow>
   xact_error + XactBackend \<times> XidGenState" where
  "AssignTransactionId cfg others i s =
     (if IsInParallelMode (xact_mode cfg) \<or> IsParallelWorker cfg then Inl CannotAssignInParallelOperation
      else
        (let parents = drop (i + 1) (xstack (fst s));
             n = length (takeWhile (\<lambda>p. \<not> FullTransactionIdIsValid (fullTransactionId p)) parents)
         in assign_xids_down cfg others i (n + 1) s))"

definition GetCurrentTransactionId ::
  "xact_config \<Rightarrow> (XidGenState \<Rightarrow> XidGenState) \<Rightarrow> XactBackend \<times> XidGenState \<Rightarrow>
   xact_error + TransactionId \<times> XactBackend \<times> XidGenState" where
  "GetCurrentTransactionId cfg others s =
     (if \<not> FullTransactionIdIsValid (fullTransactionId (hd (xstack (fst s)))) then
        (case AssignTransactionId cfg others 0 s of
           Inl e \<Rightarrow> Inl e
         | Inr s' \<Rightarrow> Inr (GetCurrentTransactionIdIfAny (fst s'), s'))
      else Inr (GetCurrentTransactionIdIfAny (fst s), s))"

subsection \<open>Starting and ending subtransactions\<close>

definition PushTransaction :: "XactBackend \<Rightarrow> xact_error + XactBackend" where
  "PushTransaction b =
     (let csid = currentSubTransactionId b + 1
      in if csid = 0 then Inl TooManySubtransactions
         else Inr (b\<lparr>currentSubTransactionId := csid,
                     xstack := \<lparr>fullTransactionId = InvalidFullTransactionId, subTransactionId = csid,
                                xact_state = TRANS_DEFAULT, childXids = [], maxChildXids = 0\<rparr> # xstack b\<rparr>))"

definition set_current_state :: "TransState \<Rightarrow> XactBackend \<Rightarrow> XactBackend" where
  "set_current_state ts b = b\<lparr>xstack := (hd (xstack b))\<lparr>xact_state := ts\<rparr> # tl (xstack b)\<rparr>"

definition StartSubTransaction :: "XactBackend \<Rightarrow> XactBackend" where
  "StartSubTransaction b = set_current_state TRANS_INPROGRESS (set_current_state TRANS_START b)"

definition PopTransaction :: "XactBackend \<Rightarrow> xact_error + XactBackend" where
  "PopTransaction b = (if tl (xstack b) = [] then Inl PopWithNoParent else Inr (b\<lparr>xstack := tl (xstack b)\<rparr>))"

definition MaxChildXidsLimit :: nat where
  "MaxChildXidsLimit = 0x3FFFFFFF div 4"

definition AtSubCommit_childXids :: "XactBackend \<Rightarrow> xact_error + XactBackend" where
  "AtSubCommit_childXids b =
     (case xstack b of
        s # p # rest \<Rightarrow>
          (let new_nChildXids = length (childXids p) + length (childXids s) + 1;
               new_max = (if maxChildXids p < new_nChildXids then min (new_nChildXids * 2) MaxChildXidsLimit
                          else maxChildXids p)
           in if new_max < new_nChildXids then Inl TooManyCommittedSubtransactions
              else Inr (b\<lparr>xstack :=
                  s\<lparr>childXids := [], maxChildXids := 0\<rparr>
                  # p\<lparr>childXids := childXids p @ XidFromFullTransactionId (fullTransactionId s) # childXids s,
                      maxChildXids := new_max\<rparr>
                  # rest\<rparr>))
      | _ \<Rightarrow> Inl PopWithNoParent)"

definition AtSubAbort_childXids :: "XactBackend \<Rightarrow> XactBackend" where
  "AtSubAbort_childXids b =
     b\<lparr>xstack := (hd (xstack b))\<lparr>childXids := [], maxChildXids := 0\<rparr> # tl (xstack b)\<rparr>"

definition CommitSubTransaction :: "XactBackend \<Rightarrow> xact_error + XactBackend" where
  "CommitSubTransaction b =
     (let b = set_current_state TRANS_COMMIT b
      in case (if FullTransactionIdIsValid (fullTransactionId (hd (xstack b)))
               then AtSubCommit_childXids b else Inr b) of
           Inl e \<Rightarrow> Inl e
         | Inr b \<Rightarrow> PopTransaction (set_current_state TRANS_DEFAULT b))"

text \<open>The resource owner exists once the subtransaction has started.\<close>

definition AbortSubTransaction :: "bool \<Rightarrow> XactBackend \<Rightarrow> XactBackend" where
  "AbortSubTransaction has_owner b =
     (let b = set_current_state TRANS_ABORT b
      in if has_owner \<and> FullTransactionIdIsValid (fullTransactionId (hd (xstack b)))
         then AtSubAbort_childXids b else b)"

definition CleanupSubTransaction :: "XactBackend \<Rightarrow> xact_error + XactBackend" where
  "CleanupSubTransaction b = PopTransaction (set_current_state TRANS_DEFAULT b)"

subsection \<open>Handing the state to parallel workers\<close>

record SerializedTransactionState =
  topFullTransactionId :: FullTransactionId
  currentFullTransactionId :: FullTransactionId
  sts_currentCommandId :: CommandId
  sts_parallelCurrentXids :: "TransactionId list"

definition entry_xids :: "TransactionStateData \<Rightarrow> TransactionId list" where
  "entry_xids s = (if FullTransactionIdIsValid (fullTransactionId s)
                   then [XidFromFullTransactionId (fullTransactionId s)] else []) @ childXids s"

definition EstimateTransactionStateSpace :: "nat \<Rightarrow> XactBackend \<Rightarrow> nat" where
  "EstimateTransactionStateSpace header_size b =
     header_size + 4 * sum_list (map (\<lambda>s. (if FullTransactionIdIsValid (fullTransactionId s) then 1 else 0)
       + length (childXids s)) (xstack b))"

definition SerializeTransactionState :: "XactBackend \<Rightarrow> SerializedTransactionState" where
  "SerializeTransactionState b =
     \<lparr>topFullTransactionId = XactTopFullTransactionId b,
      currentFullTransactionId = fullTransactionId (hd (xstack b)),
      sts_currentCommandId = currentCommandId b,
      sts_parallelCurrentXids =
        (if length (ParallelCurrentXids b) > 0 then ParallelCurrentXids b
         else sort (concat (map entry_xids (xstack b))))\<rparr>"

text \<open>The worker has just started a transaction of its own, with a stack of one block.\<close>

definition StartParallelWorkerTransaction :: "SerializedTransactionState \<Rightarrow> XactBackend \<Rightarrow> XactBackend" where
  "StartParallelWorkerTransaction ts b =
     b\<lparr>XactTopFullTransactionId := topFullTransactionId ts,
       xstack := (hd (xstack b))\<lparr>fullTransactionId := currentFullTransactionId ts\<rparr> # tl (xstack b),
       currentCommandId := sts_currentCommandId ts,
       ParallelCurrentXids := sts_parallelCurrentXids ts\<rparr>"

subsection \<open>The invariant of the stack\<close>

abbreviation assigned :: "TransactionStateData \<Rightarrow> bool" where
  "assigned s \<equiv> FullTransactionIdIsValid (fullTransactionId s)"

text \<open>All ids on the stack, from the top-level transaction to the innermost subtransaction.\<close>

definition chain :: "TransactionStateData list \<Rightarrow> TransactionId list" where
  "chain stack = concat (map entry_xids (rev stack))"

lemma chain_simps [simp]: "chain [] = []" "chain (s # ps) = chain ps @ entry_xids s"
  by (simp_all add: chain_def)

lemma chain_append: "chain (xs @ ys) = chain ys @ chain xs"
  by (simp add: chain_def)

text \<open>A block without an id has no children, and only blocks above it can be without one.\<close>

fun assigned_closed :: "TransactionStateData list \<Rightarrow> bool" where
  "assigned_closed [] = True"
| "assigned_closed (s # ps) = ((if assigned s then list_all assigned ps else childXids s = []) \<and> assigned_closed ps)"

definition stack_inv :: "TransactionId \<Rightarrow> TransactionId \<Rightarrow> TransactionStateData list \<Rightarrow> bool" where
  "stack_inv base nxt stack \<longleftrightarrow> sorted_wrt TransactionIdPrecedes (chain stack @ [nxt])
     \<and> set (chain stack @ [nxt]) \<subseteq> xid_window base \<and> assigned_closed stack \<and> stack \<noteq> []"

text \<open>The ids that count as current: those of the blocks that are not being aborted.\<close>

definition current_xids :: "TransactionStateData list \<Rightarrow> TransactionId set" where
  "current_xids stack = (\<Union>s \<in> {s \<in> set stack. xact_state s \<noteq> TRANS_ABORT \<and> assigned s}. set (entry_xids s))"

lemma xid_in_stack_iff:
  assumes "sorted_wrt TransactionIdPrecedes (chain stack)" and "set (chain stack) \<subseteq> xid_window base"
    and "xid \<in> xid_window base"
  shows "xid_in_stack xid stack \<longleftrightarrow> xid \<in> current_xids stack"
  using assms(1,2)
proof (induction stack)
  case Nil
  then show ?case by (simp add: current_xids_def)
next
  case (Cons s ps)
  then have "sorted_wrt TransactionIdPrecedes (childXids s)" "set (childXids s) \<subseteq> xid_window base"
    by (auto simp: sorted_wrt_append entry_xids_def)
  from xid_order.bsearch_array_iff [OF this assms(3)]
  have "bsearch_array TransactionIdPrecedes (childXids s) xid \<longleftrightarrow> xid \<in> set (childXids s)" .
  moreover have "xid_in_stack xid ps \<longleftrightarrow> xid \<in> current_xids ps"
    using Cons by (auto simp: sorted_wrt_append)
  ultimately show ?case by (auto simp: current_xids_def entry_xids_def)
qed

lemma current_iff:
  assumes "stack_inv base nxt (xstack b)" and "ParallelCurrentXids b = []" and "xid \<in> xid_window base"
  shows "TransactionIdIsCurrentTransactionId b xid \<longleftrightarrow>
    xid = GetTopTransactionIdIfAny b \<or> xid \<in> current_xids (xstack b)"
  using xid_in_stack_iff [of "xstack b" base xid] assms window_normal [OF assms(3)]
  by (simp add: TransactionIdIsCurrentTransactionId_def stack_inv_def sorted_wrt_append)

subsection \<open>The operations keep the invariant\<close>

lemma invalid_full: "\<not> FullTransactionIdIsValid InvalidFullTransactionId"
  by (simp add: FullTransactionIdIsValid_def InvalidFullTransactionId_def FullTransactionIdFromEpochAndXid_def
      XidFromFullTransactionId_def xid_defs)

lemma PushTransaction_inv:
  assumes "stack_inv base nxt (xstack b)" and "PushTransaction b = Inr b'"
  shows "stack_inv base nxt (xstack (StartSubTransaction b'))"
  using assms by (auto simp: PushTransaction_def StartSubTransaction_def set_current_state_def stack_inv_def
      entry_xids_def invalid_full Let_def split: if_splits)

lemma entry_state [simp]: "entry_xids (s\<lparr>xact_state := ts\<rparr>) = entry_xids s"
  by (simp add: entry_xids_def)

lemma set_state_inv: "stack_inv base nxt (xstack b) \<Longrightarrow> stack_inv base nxt (xstack (set_current_state ts b))"
  by (cases "xstack b") (simp_all add: set_current_state_def stack_inv_def)

lemma set_state_chain: "xstack b \<noteq> [] \<Longrightarrow> chain (xstack (set_current_state ts b)) = chain (xstack b)"
  by (cases "xstack b") (simp_all add: set_current_state_def)

lemma sorted_drop_middle:
  "sorted_wrt P (xs @ ys @ zs) \<Longrightarrow> sorted_wrt P (xs @ zs)"
  by (auto simp: sorted_wrt_append)

lemma stack_inv_shrink:
  assumes "stack_inv base nxt (s # ps)" and "assigned s' = assigned s" and "fullTransactionId s' = fullTransactionId s"
    and "childXids s' = []"
  shows "stack_inv base nxt (s' # ps)"
proof -
  have "entry_xids s = entry_xids s' @ childXids s" using assms by (simp add: entry_xids_def)
  then show ?thesis using assms
    by (auto simp: stack_inv_def sorted_wrt_append)
qed

lemma PopTransaction_inv:
  assumes "stack_inv base nxt (xstack b)" and "PopTransaction b = Inr b'"
  shows "stack_inv base nxt (xstack b')"
  using assms by (cases "xstack b")
    (auto simp: PopTransaction_def stack_inv_def sorted_wrt_append split: if_splits)

lemma AbortSubTransaction_inv:
  assumes "stack_inv base nxt (xstack b)"
  shows "stack_inv base nxt (xstack (AbortSubTransaction has_owner b))"
proof -
  have i: "stack_inv base nxt (xstack (set_current_state TRANS_ABORT b))" by (rule set_state_inv [OF assms])
  then obtain s ps where "xstack (set_current_state TRANS_ABORT b) = s # ps"
    by (cases "xstack (set_current_state TRANS_ABORT b)") (auto simp: stack_inv_def)
  with i show ?thesis
    by (auto simp: AbortSubTransaction_def AtSubAbort_childXids_def Let_def intro: stack_inv_shrink)
qed

lemma CleanupSubTransaction_inv:
  "stack_inv base nxt (xstack b) \<Longrightarrow> CleanupSubTransaction b = Inr b' \<Longrightarrow> stack_inv base nxt (xstack b')"
  unfolding CleanupSubTransaction_def by (blast intro: PopTransaction_inv set_state_inv)

text \<open>The commit of a subtransaction moves its ids to the parent, and keeps the chain as it is.\<close>

lemma CommitSubTransaction_chain:
  assumes "assigned_closed (xstack b)" and "CommitSubTransaction b = Inr b'"
  shows "chain (xstack b') = chain (xstack b) \<and> assigned_closed (xstack b') \<and> xstack b' \<noteq> []"
proof (cases "xstack b")
  case Nil
  with assms(2) show ?thesis
    by (auto simp: CommitSubTransaction_def set_current_state_def PopTransaction_def AtSubCommit_childXids_def
        Let_def split: if_splits)
next
  case (Cons s ps)
  with assms show ?thesis
    by (auto simp: CommitSubTransaction_def set_current_state_def PopTransaction_def AtSubCommit_childXids_def
        entry_xids_def Let_def split: if_splits list.splits)
qed

lemma CommitSubTransaction_inv:
  assumes "stack_inv base nxt (xstack b)" and "CommitSubTransaction b = Inr b'"
  shows "stack_inv base nxt (xstack b')"
  using CommitSubTransaction_chain [OF _ assms(2)] assms(1) by (simp add: stack_inv_def)

subsection \<open>Assigning ids keeps the invariant\<close>

text \<open>Other backends keep the oldest id and advance the next id by at most two million at a time.\<close>

definition others_ok :: "FullTransactionId \<Rightarrow> (XidGenState \<Rightarrow> XidGenState) \<Rightarrow> bool" where
  "others_ok F others \<longleftrightarrow> (\<forall>st. wrap_inv F (vcache st) \<longrightarrow> lock_gap F (vcache st) F (vcache (others st)))"

definition xact_inv :: "FullTransactionId \<Rightarrow> XactBackend \<times> XidGenState \<Rightarrow> bool" where
  "xact_inv F s \<longleftrightarrow> uint (fxid_value F) < 2 ^ 62 \<and> wrap_inv F (vcache (snd s))
     \<and> stack_inv (XidFromFullTransactionId F) (XidFromFullTransactionId (nextXid (vcache (snd s)))) (xstack (fst s))"

text \<open>The process is an ordinary backend.\<close>

definition ordinary_backend :: "xact_config \<Rightarrow> bool" where
  "ordinary_backend cfg \<longleftrightarrow> IsUnderPostmaster (xact_mode cfg) \<and> \<not> IsBootstrapProcessingMode (xact_mode cfg)"

lemma wrap_inv_oldest: "wrap_inv F vc \<Longrightarrow> oldestXid vc = XidFromFullTransactionId F"
  by (simp add: wrap_inv_def ids_wf_def)

lemma stack_inv_advance:
  assumes "stack_inv base nxt stack" and "nxt' \<in> xid_window base" and "unat (nxt - base) \<le> unat (nxt' - base)"
  shows "stack_inv base nxt' stack"
proof -
  have "TransactionIdPrecedes x nxt'" if "x \<in> set (chain stack)" for x
  proof -
    from that assms(1) have "x \<in> xid_window base" "nxt \<in> xid_window base" "TransactionIdPrecedes x nxt"
      by (auto simp: stack_inv_def sorted_wrt_append)
    with assms(2,3) show ?thesis by (simp add: precedes_window [of _ base])
  qed
  with assms(1,2) show ?thesis by (auto simp: stack_inv_def sorted_wrt_append)
qed

lemma chain_unassigned:
  "assigned_closed xs \<Longrightarrow> list_all (\<lambda>s. \<not> assigned s) xs \<Longrightarrow> chain xs = []"
  by (induction xs) (auto simp: entry_xids_def)

lemma assigned_closed_append:
  "list_all (\<lambda>s. \<not> assigned s) xs \<Longrightarrow>
   assigned_closed (xs @ ys) \<longleftrightarrow> assigned_closed xs \<and> assigned_closed ys"
  by (induction xs) auto

lemma assign_one_xid_result:
  assumes "assign_one_xid cfg others i (b, st) = Inr (b', st')"
  shows "\<exists>ev full st1. GetNewTransactionId (xact_mode cfg) others (i + 1 < length (xstack b)) st = (ev, Inr (full, st1))
    \<and> vcache st' = vcache st1
    \<and> xstack b' = (xstack b)[i := (xstack b ! i)\<lparr>fullTransactionId := full\<rparr>]
    \<and> ParallelCurrentXids b' = ParallelCurrentXids b"
proof -
  obtain ev r where g: "GetNewTransactionId (xact_mode cfg) others (i + 1 < length (xstack b)) st = (ev, r)"
    by fastforce
  with assms obtain full st1 where "r = Inr (full, st1)"
    by (auto simp: assign_one_xid_def Let_def split: sum.splits)
  with assms g show ?thesis
    by (auto simp: assign_one_xid_def report_subxid_def Let_def)
qed

lemma assign_one_xid_inv:
  assumes "xact_inv F (b, st)" and "others_ok F others" and "ordinary_backend cfg"
    and "xstack b = xs @ s # ps" and "length xs = i"
    and "list_all (\<lambda>s. \<not> assigned s) (xs @ [s])" and "list_all assigned ps"
    and "assign_one_xid cfg others i (b, st) = Inr (b', st')"
  shows "xact_inv F (b', st') \<and> (\<exists>s'. assigned s' \<and> xstack b' = xs @ s' # ps)"
proof -
  let ?base = "XidFromFullTransactionId F" and ?nxt = "\<lambda>st. XidFromFullTransactionId (nextXid (vcache st))"
  have w: "wrap_inv F (vcache st)" "uint (fxid_value F) < 2 ^ 62" "stack_inv ?base (?nxt st) (xstack b)"
    using assms(1) by (simp_all add: xact_inv_def)
  obtain ev full st1 where g: "GetNewTransactionId (xact_mode cfg) others (i + 1 < length (xstack b)) st = (ev, Inr (full, st1))"
    and v: "vcache st' = vcache st1" and x: "xstack b' = xs @ s\<lparr>fullTransactionId := full\<rparr> # ps"
    using assign_one_xid_result [OF assms(8)] assms(4,5) by auto
  have gap: "lock_gap F (vcache st) F (vcache (others st))"
    using assms(2) w(1) by (simp add: others_ok_def)
  then have "id_span F (vcache (others st)) < 2 ^ 31 + 2000000" "id_span F (vcache st) \<le> id_span F (vcache (others st))"
    using w(1) by (auto simp: lock_gap_def wrap_inv_def)
  then have "uint (fxid_value (nextXid (vcache (others st)))) < 2 ^ 63"
    using w(2) by (simp add: id_span_def)
  with assms(3) obtain G st0 where s0: "(G, st0) \<in> {(F, st), (F, others st)}" "(full, st1) = assign_next_xid (i + 1 < length (xstack b)) st0"
    "ids_wf G (vcache st0)" "id_span G (vcache st0) < 2 ^ 31 - 4" "uint (fxid_value (nextXid (vcache st0))) < 2 ^ 64 - 5"
    using GetNewTransactionId_source [OF w(1) _ _ gap _ g] unfolding ordinary_backend_def by blast
  then have G: "G = F" by auto
  note k = assign_next_xid_wrap [OF s0(3-5,2), unfolded G]
  have le: "id_span F (vcache st) \<le> id_span F (vcache st0)" using s0(1) gap by (auto simp: lock_gap_def)
  have n: "?nxt y \<in> xid_window ?base \<and> int (unat (?nxt y - ?base)) = id_span F (vcache y)"
    if "wrap_inv F (vcache y)" for y
    using next_xid_window [OF that] wrap_inv_oldest [OF that] by simp
  have "unat (?nxt st - ?base) \<le> unat (?nxt st0 - ?base)" using le n [of st] n [of st0] w(1) k by linarith
  then have 0: "stack_inv ?base (?nxt st0) (xstack b)"
    using k n [of st0] by (intro stack_inv_advance [OF w(3)]) auto
  have c: "chain (xs @ [s]) = []" "childXids s = []"
    using 0 assms(4,6) assigned_closed_append [of xs] by (auto simp: stack_inv_def chain_append chain_unassigned entry_xids_def)
  have a: "FullTransactionIdIsValid full"
    using k n [of st0] unfolding FullTransactionIdIsValid_def by (blast intro: normal_valid window_normal)
  have ch: "chain (xstack b') = chain (xstack b) @ [?nxt st0]"
    using c k a by (simp add: x assms(4) chain_append entry_xids_def)
  have lt: "unat (?nxt st0 - ?base) < unat (?nxt st1 - ?base)"
    using k n [of st0] n [of st1] by linarith
  have win: "?nxt st0 \<in> xid_window ?base" "?nxt st1 \<in> xid_window ?base" using k n by blast+
  from lt have "TransactionIdPrecedes (?nxt st0) (?nxt st1)"
    unfolding precedes_window [OF win] .
  moreover have 1: "stack_inv ?base (?nxt st1) (xstack b)"
    using win(2) lt by (intro stack_inv_advance [OF 0]) auto
  moreover have "assigned_closed (xstack b')"
    using 0 assms(4,6,7) a c(2) by (simp add: stack_inv_def x assigned_closed_append)
  moreover have "xstack b' \<noteq> []" by (simp add: x)
  ultimately have "stack_inv ?base (?nxt st1) (xstack b')"
    using 0 by (auto simp: stack_inv_def ch sorted_wrt_append)
  with k v w(2) x a show ?thesis by (auto simp: xact_inv_def)
qed

lemma assign_xids_down_inv:
  assumes "xact_inv F (b, st)" and "others_ok F others" and "ordinary_backend cfg"
    and "xstack b = xs @ ys @ ps" and "length xs = i" and "length ys = k"
    and "list_all (\<lambda>s. \<not> assigned s) (xs @ ys)" and "list_all assigned ps"
    and "assign_xids_down cfg others i k (b, st) = Inr (b', st')"
  shows "xact_inv F (b', st') \<and> (\<exists>zs. length zs = k \<and> list_all assigned zs \<and> xstack b' = xs @ zs @ ps)"
  using assms
proof (induction k arbitrary: b st ys ps)
  case 0
  then show ?case by simp
next
  case (Suc k)
  then obtain us s where us: "ys = us @ [s]" "length us = k"
    by (metis length_Suc_conv_rev)
  from Suc.prems(9) obtain b1 st1 where one: "assign_one_xid cfg others (i + k) (b, st) = Inr (b1, st1)"
    and rest: "assign_xids_down cfg others i k (b1, st1) = Inr (b', st')"
    by (auto split: sum.splits)
  have "xact_inv F (b1, st1) \<and> (\<exists>s'. assigned s' \<and> xstack b1 = (xs @ us) @ s' # ps)"
    using us Suc.prems by (intro assign_one_xid_inv [OF Suc.prems(1-3) _ _ _ _ one]) auto
  then obtain s' where 1: "xact_inv F (b1, st1)" "assigned s'" "xstack b1 = xs @ us @ s' # ps" by auto
  have "xact_inv F (b', st') \<and> (\<exists>zs. length zs = k \<and> list_all assigned zs \<and> xstack b' = xs @ zs @ s' # ps)"
    using us 1 Suc.prems by (intro Suc.IH [OF 1(1) Suc.prems(2,3) _ _ _ _ _ rest]) auto
  then obtain zs where "xact_inv F (b', st')" "length zs = k" "list_all assigned zs" "xstack b' = xs @ zs @ s' # ps"
    by blast
  with 1(2) show ?case by (intro conjI exI [of _ "zs @ [s']"]) simp_all
qed

lemma AssignTransactionId_inv:
  assumes "xact_inv F (b, st)" and "others_ok F others" and "ordinary_backend cfg"
    and "\<not> assigned (hd (xstack b))" and "AssignTransactionId cfg others 0 (b, st) = Inr (b', st')"
  shows "xact_inv F (b', st') \<and> length (xstack b') = length (xstack b) \<and> list_all assigned (xstack b')"
proof -
  let ?P = "\<lambda>s. \<not> assigned s"
  have c: "assigned_closed (xstack b)" "xstack b \<noteq> []" using assms(1) by (simp_all add: xact_inv_def stack_inv_def)
  then obtain s ps where x: "xstack b = s # ps" by (cases "xstack b") auto
  let ?ys = "s # takeWhile ?P ps" and ?ds = "dropWhile ?P ps"
  have tw: "list_all ?P (takeWhile ?P ps)" by (induction ps) auto
  have d: "list_all assigned ?ds"
  proof (cases ?ds)
    case (Cons p qs)
    then have "assigned p" by (metis dropWhile_eq_Cons_conv)
    moreover have "assigned_closed ?ds"
      using c(1) x assms(4) tw assigned_closed_append [of "takeWhile ?P ps" ?ds] by simp
    ultimately show ?thesis using Cons by simp
  next
    case Nil
    then show ?thesis by (simp only: list.pred_inject)
  qed
  have "assign_xids_down cfg others 0 (length (takeWhile ?P ps) + 1) (b, st) = Inr (b', st')"
    using assms(5) x by (simp add: AssignTransactionId_def Let_def split: if_splits)
  then have "xact_inv F (b', st') \<and> (\<exists>zs. length zs = length (takeWhile ?P ps) + 1 \<and> list_all assigned zs
      \<and> xstack b' = [] @ zs @ ?ds)"
    using assms(4) x tw d by (intro assign_xids_down_inv [OF assms(1-3), where ys = ?ys]) auto
  moreover have "length (takeWhile ?P ps) + length ?ds = length ps"
    by (metis length_append takeWhile_dropWhile_id)
  ultimately show ?thesis using d x by auto
qed

subsection \<open>Reachable states\<close>

text \<open>
  What a backend does with the stack inside a transaction, and what others do meanwhile:
  starting a subtransaction, assigning an id to the current transaction, committing, aborting
  and cleaning up the current subtransaction, and activity of other backends.
\<close>

inductive xact_step :: "xact_config \<Rightarrow> FullTransactionId \<Rightarrow> XactBackend \<times> XidGenState \<Rightarrow> XactBackend \<times> XidGenState \<Rightarrow> bool"
  for cfg F where
  start_sub: "PushTransaction b = Inr b' \<Longrightarrow> xact_step cfg F (b, st) (StartSubTransaction b', st)"
| assign: "others_ok F others \<Longrightarrow> GetCurrentTransactionId cfg others (b, st) = Inr (xid, b', st') \<Longrightarrow>
    xact_step cfg F (b, st) (b', st')"
| commit_sub: "CommitSubTransaction b = Inr b' \<Longrightarrow> xact_step cfg F (b, st) (b', st)"
| abort_sub: "xact_step cfg F (b, st) (AbortSubTransaction has_owner b, st)"
| cleanup_sub: "CleanupSubTransaction b = Inr b' \<Longrightarrow> xact_step cfg F (b, st) (b', st)"
| other_backends: "lock_gap F (vcache st) F (vcache st') \<Longrightarrow> id_span F (vcache st') < 2 ^ 31 \<Longrightarrow>
    xact_step cfg F (b, st) (b, st')"

lemma assign_keeps_parallel:
  "assign_xids_down cfg others i k (b, st) = Inr (b', st') \<Longrightarrow> ParallelCurrentXids b' = ParallelCurrentXids b"
proof (induction k arbitrary: b st)
  case (Suc k)
  then show ?case by (auto split: sum.splits dest: assign_one_xid_result)
qed simp

lemma AssignTransactionId_parallel:
  "AssignTransactionId cfg others i (b, st) = Inr (b', st') \<Longrightarrow> ParallelCurrentXids b' = ParallelCurrentXids b"
  by (auto simp: AssignTransactionId_def Let_def simp del: assign_xids_down.simps split: if_splits
      dest: assign_keeps_parallel)

lemma push_parallel: "PushTransaction b = Inr b' \<Longrightarrow> ParallelCurrentXids (StartSubTransaction b') = ParallelCurrentXids b"
  by (auto simp: PushTransaction_def StartSubTransaction_def set_current_state_def Let_def split: if_splits)

lemma commit_parallel: "CommitSubTransaction b = Inr b' \<Longrightarrow> ParallelCurrentXids b' = ParallelCurrentXids b"
  by (auto simp: CommitSubTransaction_def set_current_state_def PopTransaction_def AtSubCommit_childXids_def
      Let_def split: if_splits list.splits sum.splits)

lemma abort_parallel: "ParallelCurrentXids (AbortSubTransaction has_owner b) = ParallelCurrentXids b"
  by (simp add: AbortSubTransaction_def AtSubAbort_childXids_def set_current_state_def Let_def)

lemma cleanup_parallel: "CleanupSubTransaction b = Inr b' \<Longrightarrow> ParallelCurrentXids b' = ParallelCurrentXids b"
  by (auto simp: CleanupSubTransaction_def set_current_state_def PopTransaction_def split: if_splits)

lemma other_backends_inv:
  assumes "xact_inv F (b, st)" and "lock_gap F (vcache st) F (vcache st')" and "id_span F (vcache st') < 2 ^ 31"
  shows "xact_inv F (b, st')"
proof -
  have w: "wrap_inv F (vcache st')" "wrap_inv F (vcache st)" "id_span F (vcache st) \<le> id_span F (vcache st')"
    using assms by (auto simp: xact_inv_def wrap_inv_def lock_gap_def)
  let ?base = "XidFromFullTransactionId F" and ?nxt = "\<lambda>st. XidFromFullTransactionId (nextXid (vcache st))"
  have "?nxt st' \<in> xid_window ?base" "int (unat (?nxt st' - ?base)) = id_span F (vcache st')"
    "int (unat (?nxt st - ?base)) = id_span F (vcache st)"
    using next_xid_window [OF w(1)] next_xid_window [OF w(2)]
    unfolding wrap_inv_oldest [OF w(1)] wrap_inv_oldest [OF w(2)] by blast+
  moreover from this(2,3) w(3) have "unat (?nxt st - ?base) \<le> unat (?nxt st' - ?base)" by linarith
  ultimately have "stack_inv ?base (?nxt st') (xstack b)"
    using assms(1) unfolding xact_inv_def by (auto intro: stack_inv_advance)
  with w(1) assms(1) show ?thesis by (simp add: xact_inv_def)
qed

lemma xact_step_inv:
  assumes "xact_step cfg F s s'" and "ordinary_backend cfg" and "xact_inv F s"
  shows "xact_inv F s' \<and> ParallelCurrentXids (fst s') = ParallelCurrentXids (fst s)"
  using assms(1)
proof cases
  case (start_sub b b' st)
  with assms(3) PushTransaction_inv [OF _ start_sub(3)] push_parallel [OF start_sub(3)] show ?thesis
    by (simp add: xact_inv_def)
next
  case (assign others b st xid b' st')
  show ?thesis
  proof (cases "assigned (hd (xstack b))")
    case True
    with assign assms(3) show ?thesis by (simp add: GetCurrentTransactionId_def)
  next
    case False
    with assign(4) have a: "AssignTransactionId cfg others 0 (b, st) = Inr (b', st')"
      by (auto simp: GetCurrentTransactionId_def split: sum.splits)
    show ?thesis
      using AssignTransactionId_inv [OF _ assign(3) assms(2) False a] AssignTransactionId_parallel [OF a]
        assms(3) assign(1,2) by simp
  qed
next
  case (commit_sub b b' st)
  with assms(3) CommitSubTransaction_inv [OF _ commit_sub(3)] commit_parallel [OF commit_sub(3)] show ?thesis
    by (simp add: xact_inv_def)
next
  case (abort_sub b st has_owner)
  with assms(3) AbortSubTransaction_inv [of _ _ b has_owner] show ?thesis
    by (simp add: xact_inv_def abort_parallel)
next
  case (cleanup_sub b b' st)
  with assms(3) CleanupSubTransaction_inv [OF _ cleanup_sub(3)] cleanup_parallel [OF cleanup_sub(3)] show ?thesis
    by (simp add: xact_inv_def)
next
  case (other_backends st st' b)
  with assms(3) other_backends_inv show ?thesis by simp
qed

lemma xact_reach_inv:
  assumes "(xact_step cfg F)\<^sup>*\<^sup>* s s'" and "ordinary_backend cfg" and "xact_inv F s"
  shows "xact_inv F s' \<and> ParallelCurrentXids (fst s') = ParallelCurrentXids (fst s)"
  using assms(1)
proof (induction rule: rtranclp_induct)
  case base
  with assms(3) show ?case by simp
next
  case (step s1 s2)
  with xact_step_inv [OF step(2) assms(2)] show ?case by simp
qed

text \<open>
  C25: which ids are current. In every state that a backend reaches from a state in order by
  starting, committing, aborting and cleaning up subtransactions and by assigning ids, with other
  backends assigning ids in between, \<open>TransactionIdIsCurrentTransactionId\<close> answers true for
  exactly the id of the top-level transaction and, for every block of the stack that is not being
  aborted, the id of that block and of its subcommitted children. The binary search is right
  because the ids along the stack stay in circular order. The id of the top-level transaction
  counts as current even while that transaction is being aborted.
\<close>

theorem TransactionIdIsCurrentTransactionId_reachable:
  assumes "xact_inv F s" and "ordinary_backend cfg" and "ParallelCurrentXids (fst s) = []"
    and "(xact_step cfg F)\<^sup>*\<^sup>* s (b, st)" and "xid \<in> xid_window (XidFromFullTransactionId F)"
  shows "TransactionIdIsCurrentTransactionId b xid \<longleftrightarrow>
    xid = GetTopTransactionIdIfAny b
    \<or> (\<exists>blk \<in> set (xstack b). xact_state blk \<noteq> TRANS_ABORT \<and> FullTransactionIdIsValid (fullTransactionId blk)
        \<and> (xid = XidFromFullTransactionId (fullTransactionId blk) \<or> xid \<in> set (childXids blk)))"
proof -
  have "xact_inv F (b, st)" "ParallelCurrentXids b = []"
    using xact_reach_inv [OF assms(4,2,1)] assms(3) by simp_all
  from current_iff [OF _ this(2) assms(5)] this(1) show ?thesis
    by (auto simp: xact_inv_def current_xids_def entry_xids_def)
qed

text \<open>A transaction with one subcommitted child, for the witnesses.\<close>

definition sample_backend :: XactBackend where
  "sample_backend = \<lparr>XactTopFullTransactionId = \<lparr>fxid_value = 2139999990\<rparr>,
     xstack = [\<lparr>fullTransactionId = \<lparr>fxid_value = 2139999990\<rparr>, subTransactionId = 1, xact_state = TRANS_INPROGRESS,
                childXids = [2139999995], maxChildXids = 2\<rparr>],
     ParallelCurrentXids = [], currentSubTransactionId = 2, currentCommandId = 5, unreportedXids = [],
     didLogXid = False, assignment_records = []\<rparr>"

lemma sample_stack_inv: "stack_inv 3 2140000000 (xstack sample_backend)"
proof -
  have "TransactionIdPrecedes 2139999990 2139999995" "TransactionIdPrecedes 2139999990 2140000000"
    "TransactionIdPrecedes 2139999995 2140000000" by code_simp+
  moreover have "FullTransactionIdIsValid \<lparr>fxid_value = 2139999990\<rparr>"
    "XidFromFullTransactionId \<lparr>fxid_value = 2139999990\<rparr> = 2139999990" by code_simp+
  ultimately show ?thesis
    by (simp add: stack_inv_def sample_backend_def entry_xids_def xid_window_def xid_defs)
qed

lemma sample_xact_inv:
  "xact_inv \<lparr>fxid_value = 3\<rparr> (sample_backend, (undefined :: XidGenState)\<lparr>vcache := sample_vcache\<rparr>)"
proof -
  have "XidFromFullTransactionId \<lparr>fxid_value = 3\<rparr> = 3" "XidFromFullTransactionId \<lparr>fxid_value = 2140000000\<rparr> = 2140000000"
    by code_simp+
  then show ?thesis using sample_stack_inv sample_wrap_inv by (simp add: xact_inv_def)
qed

theorem TransactionIdIsCurrentTransactionId_reachable_witness:
  "\<exists>b. PushTransaction sample_backend = Inr b
     \<and> TransactionIdIsCurrentTransactionId (StartSubTransaction b) 2139999995
     \<and> \<not> TransactionIdIsCurrentTransactionId (StartSubTransaction b) 2139999996"
proof -
  let ?st = "(undefined :: XidGenState)\<lparr>vcache := sample_vcache\<rparr>" and ?F = "\<lparr>fxid_value = 3\<rparr>"
  let ?cfg = "\<lparr>xact_mode = \<lparr>IsInParallelMode = False, IsBootstrapProcessingMode = False,
     RecoveryInProgress = False, IsUnderPostmaster = True\<rparr>, IsParallelWorker = False,
     XLogLogicalInfoActive = False, XLogStandbyInfoActive = True\<rparr>"
  obtain b where b: "PushTransaction sample_backend = Inr b"
    "xstack b = \<lparr>fullTransactionId = InvalidFullTransactionId, subTransactionId = 3,
       xact_state = TRANS_DEFAULT, childXids = [], maxChildXids = 0\<rparr> # xstack sample_backend"
    "XactTopFullTransactionId b = \<lparr>fxid_value = 2139999990\<rparr>"
    by (simp add: PushTransaction_def sample_backend_def)
  have r: "(xact_step ?cfg ?F)\<^sup>*\<^sup>* (sample_backend, ?st) (StartSubTransaction b, ?st)"
    using b(1) by (blast intro: xact_step.start_sub)
  have c: "TransactionIdIsCurrentTransactionId (StartSubTransaction b) xid \<longleftrightarrow> xid = 2139999990 \<or> xid = 2139999995"
    if "xid \<in> xid_window 3" for xid
  proof -
    have "XidFromFullTransactionId \<lparr>fxid_value = 3\<rparr> = 3" "FullTransactionIdIsValid \<lparr>fxid_value = 2139999990\<rparr>"
      "XidFromFullTransactionId \<lparr>fxid_value = 2139999990\<rparr> = 2139999990" by code_simp+
    then show ?thesis
      using TransactionIdIsCurrentTransactionId_reachable [OF sample_xact_inv _ _ r, of xid] that b
      by (auto simp: ordinary_backend_def sample_backend_def StartSubTransaction_def set_current_state_def
          GetTopTransactionIdIfAny_def invalid_full)
  qed
  have "2139999995 \<in> xid_window 3" "2139999996 \<in> xid_window 3" by (simp_all add: xid_window_def xid_defs)
  with c b(1) show ?thesis by auto
qed

subsection \<open>Parallel workers\<close>

lemma sorted_window_distinct:
  "sorted_wrt TransactionIdPrecedes xs \<Longrightarrow> set xs \<subseteq> xid_window base \<Longrightarrow> distinct xs"
  by (induction xs) (auto simp: xid_order.prec_irrefl)

lemma current_xids_chain:
  assumes "assigned_closed stack" and "\<forall>s \<in> set stack. xact_state s \<noteq> TRANS_ABORT"
  shows "current_xids stack = set (chain stack)"
proof -
  have "entry_xids s = []" if "s \<in> set stack" "\<not> assigned s" for s
    using assms(1) that by (induction stack) (auto simp: entry_xids_def split: if_splits)
  with assms(2) show ?thesis by (fastforce simp: current_xids_def chain_def)
qed

lemma set_sorted_chain: "set (sort (concat (map entry_xids stack))) = set (chain stack)"
  by (auto simp: chain_def)

lemma sorted_chain_strict:
  assumes "stack_inv base nxt stack"
  shows "sorted_wrt (<) (sort (concat (map entry_xids stack)))"
proof -
  have "distinct (chain stack)"
    using assms by (intro sorted_window_distinct [of _ base]) (auto simp: stack_inv_def sorted_wrt_append)
  moreover have "mset (chain stack) = mset (concat (map entry_xids stack))"
    by (induction stack) (simp_all add: ac_simps)
  ultimately have "distinct (concat (map entry_xids stack))" by (metis mset_eq_imp_distinct_iff)
  then show ?thesis by (simp add: strict_sorted_iff)
qed

text \<open>The state of a worker that has started its own transaction: one block, without an id.\<close>

definition fresh_worker :: "XactBackend \<Rightarrow> bool" where
  "fresh_worker w \<longleftrightarrow> (\<exists>blk. xstack w = [blk] \<and> childXids blk = [])"

text \<open>
  C26: a parallel worker takes the same ids to be current as its leader. The worker searches the
  ids the leader has serialized, sorted as numbers, where the leader searches its stack in
  circular order.
\<close>

theorem ParallelWorker_current_agrees:
  assumes "stack_inv base nxt (xstack b)" and "ParallelCurrentXids b = []"
    and "\<forall>blk \<in> set (xstack b). xact_state blk \<noteq> TRANS_ABORT" and "fresh_worker w"
    and "xid \<in> xid_window base"
  shows "TransactionIdIsCurrentTransactionId (StartParallelWorkerTransaction (SerializeTransactionState b) w) xid
    = TransactionIdIsCurrentTransactionId b xid"
proof -
  define xs where "xs = sort (concat (map entry_xids (xstack b)))"
  let ?w = "StartParallelWorkerTransaction (SerializeTransactionState b) w"
  have n: "TransactionIdIsNormal xid" using assms(5) by (rule window_normal)
  have w: "ParallelCurrentXids ?w = xs" "GetTopTransactionIdIfAny ?w = GetTopTransactionIdIfAny b"
    using assms(2) by (simp_all add: xs_def StartParallelWorkerTransaction_def SerializeTransactionState_def
        GetTopTransactionIdIfAny_def)
  have leader: "TransactionIdIsCurrentTransactionId b xid \<longleftrightarrow> xid = GetTopTransactionIdIfAny b \<or> xid \<in> set xs"
    using current_iff [OF assms(1,2,5)] current_xids_chain [OF _ assms(3)] assms(1)
    by (simp only: xs_def set_sorted_chain stack_inv_def)
  have search: "bsearch_array (<) xs xid \<longleftrightarrow> xid \<in> set xs"
    using numeric_order.bsearch_array_iff [OF sorted_chain_strict [OF assms(1)]] by (simp add: xs_def)
  have none: "\<not> xid_in_stack xid (xstack ?w)" if "xs = []"
  proof -
    have "chain (xstack b) = []" using that set_sorted_chain [of "xstack b"] unfolding xs_def by (metis list.set(1) set_empty)
    then have "\<not> assigned (hd (xstack b))"
      using assms(1) by (cases "xstack b") (auto simp: stack_inv_def entry_xids_def split: if_splits)
    then show ?thesis
      using assms(4) by (auto simp: fresh_worker_def StartParallelWorkerTransaction_def SerializeTransactionState_def)
  qed
  show ?thesis
    unfolding leader TransactionIdIsCurrentTransactionId_def [of ?w] w
    using n search none by (cases "xs = []") simp_all
qed

theorem ParallelWorker_current_agrees_witness:
  "TransactionIdIsCurrentTransactionId
     (StartParallelWorkerTransaction (SerializeTransactionState sample_backend)
        (sample_backend\<lparr>xstack := [\<lparr>fullTransactionId = InvalidFullTransactionId, subTransactionId = 1,
           xact_state = TRANS_INPROGRESS, childXids = [], maxChildXids = 0\<rparr>]\<rparr>)) 2139999995"
proof -
  have "FullTransactionIdIsValid \<lparr>fxid_value = 2139999990\<rparr>" "TransactionIdIsNormal 2139999995"
    "XidFromFullTransactionId \<lparr>fxid_value = 2139999990\<rparr> = 2139999990" by code_simp+
  moreover have w: "2139999995 \<in> xid_window 3" by (simp add: xid_window_def xid_defs)
  ultimately have "TransactionIdIsCurrentTransactionId sample_backend 2139999995"
    using current_iff [OF sample_stack_inv _ w]
    by (simp add: sample_backend_def current_xids_def entry_xids_def GetTopTransactionIdIfAny_def)
  then show ?thesis
    by (subst ParallelWorker_current_agrees [OF sample_stack_inv])
      (use w in \<open>simp_all add: fresh_worker_def sample_backend_def\<close>)
qed

end
