(* ===== verification/ProcArray.thy ===== *)
theory ProcArray
  imports HotStandby XactState
begin

section \<open>The process array\<close>

text \<open>
  The array of backends of \<open>src/backend/storage/ipc/procarray.c\<close> with the dense arrays of
  \<open>ProcGlobal\<close> that mirror, for the backends in the array, the transaction id, the state of the
  cache of subtransactions and the status flags. A backend is named by its index in
  \<open>allProcs\<close>. Every operation runs under \<open>ProcArrayLock\<close> and is one step; a commit that cannot
  get the lock at once is done by the leader of a group. The part of the shared structure that
  belongs to hot standby is the state of \<open>KnownAssigned\<close> and \<open>HotStandby\<close>.
\<close>

subsection \<open>State\<close>

definition PROC_IS_AUTOVACUUM :: uint8 where
  "PROC_IS_AUTOVACUUM = 0x01"

definition PROC_IN_VACUUM :: uint8 where
  "PROC_IN_VACUUM = 0x02"

definition PROC_IN_SAFE_IC :: uint8 where
  "PROC_IN_SAFE_IC = 0x04"

definition PROC_VACUUM_FOR_WRAPAROUND :: uint8 where
  "PROC_VACUUM_FOR_WRAPAROUND = 0x08"

definition PROC_IN_LOGICAL_DECODING :: uint8 where
  "PROC_IN_LOGICAL_DECODING = 0x10"

definition PROC_AFFECTS_ALL_HORIZONS :: uint8 where
  "PROC_AFFECTS_ALL_HORIZONS = 0x20"

definition PROC_VACUUM_STATE_MASK :: uint8 where
  "PROC_VACUUM_STATE_MASK = PROC_IN_VACUUM OR PROC_IN_SAFE_IC OR PROC_VACUUM_FOR_WRAPAROUND"

definition PROC_XMIN_FLAGS :: uint8 where
  "PROC_XMIN_FLAGS = PROC_IN_VACUUM OR PROC_IN_SAFE_IC"

text \<open>The fields of \<open>PGPROC\<close> this module uses; the count of cached subtransactions is the length of the list.\<close>

record ProcEntry =
  p_xid :: TransactionId
  p_xmin :: TransactionId
  p_lxid :: uint32
  p_pid :: int
  backendId :: int
  pgxactoff :: nat
  databaseId :: Oid
  recoveryConflictPending :: bool
  delayChkptFlags :: int
  statusFlags :: uint8
  subxids :: "TransactionId list"
  suboverflowed :: bool
  procArrayGroupMember :: bool
  procArrayGroupMemberXid :: TransactionId

record ProcArrayStruct =
  allProcs :: "nat \<Rightarrow> ProcEntry"
  pgprocnos :: "nat list"
  maxProcs :: nat
  g_xids :: "TransactionId list"
  g_subxidStates :: "(nat \<times> bool) list"
  g_statusFlags :: "uint8 list"
  replication_slot_xmin :: TransactionId
  replication_slot_catalog_xmin :: TransactionId
  pa_known :: KnownAssignedArray
  pa_lastOverflowedXid :: TransactionId
  pa_shared :: VariableCache

datatype procarray_error = TooManyClients

datatype procarray_event = DidNotFindSubXID TransactionId

abbreviation update_proc :: "nat \<Rightarrow> (ProcEntry \<Rightarrow> ProcEntry) \<Rightarrow> ProcArrayStruct \<Rightarrow> ProcArrayStruct" where
  "update_proc p f s \<equiv> s\<lparr>allProcs := (allProcs s)(p := f (allProcs s p))\<rparr>"

subsection \<open>Creating the array\<close>

text \<open>
  The sizes are in backends (\<open>PROCARRAY_MAXPROCS\<close>); the entries of \<open>PGPROC\<close>s and the array of known
  assigned ids are allocated elsewhere, with any contents.
\<close>

definition TOTAL_MAX_CACHED_SUBXIDS :: "nat \<Rightarrow> nat" where
  "TOTAL_MAX_CACHED_SUBXIDS PROCARRAY_MAXPROCS = (PGPROC_MAX_CACHED_SUBXIDS + 1) * PROCARRAY_MAXPROCS"

definition CreateSharedProcArray ::
  "nat \<Rightarrow> (nat \<Rightarrow> ProcEntry) \<Rightarrow> KnownAssignedArray \<Rightarrow> VariableCache \<Rightarrow> ProcArrayStruct" where
  "CreateSharedProcArray PROCARRAY_MAXPROCS procs ka vc =
     \<lparr>allProcs = procs, pgprocnos = [], maxProcs = PROCARRAY_MAXPROCS, g_xids = [], g_subxidStates = [],
      g_statusFlags = [], replication_slot_xmin = InvalidTransactionId,
      replication_slot_catalog_xmin = InvalidTransactionId,
      pa_known = ka\<lparr>maxKnownAssignedXids := TOTAL_MAX_CACHED_SUBXIDS PROCARRAY_MAXPROCS, numKnownAssignedXids := 0,
        tailKnownAssignedXids := 0, headKnownAssignedXids := 0\<rparr>,
      pa_lastOverflowedXid = InvalidTransactionId, pa_shared = vc\<lparr>xactCompletionCount := 1\<rparr>\<rparr>"

subsection \<open>Joining and leaving the array\<close>

definition insert_at :: "nat \<Rightarrow> 'a \<Rightarrow> 'a list \<Rightarrow> 'a list" where
  "insert_at i x xs = take i xs @ x # drop i xs"

definition remove_at :: "nat \<Rightarrow> 'a list \<Rightarrow> 'a list" where
  "remove_at i xs = take i xs @ drop (Suc i) xs"

text \<open>The loop that renumbers the backends from position \<open>i\<close> on.\<close>

fun renumber :: "nat \<Rightarrow> nat list \<Rightarrow> (nat \<Rightarrow> ProcEntry) \<Rightarrow> nat \<Rightarrow> ProcEntry" where
  "renumber i [] procs = procs" |
  "renumber i (p # ps) procs = renumber (i + 1) ps (procs(p := (procs p)\<lparr>pgxactoff := i\<rparr>))"

definition ProcArrayAdd :: "nat \<Rightarrow> ProcArrayStruct \<Rightarrow> procarray_error + ProcArrayStruct" where
  "ProcArrayAdd p s =
     (if maxProcs s \<le> length (pgprocnos s) then Inl TooManyClients
      else
        (let index = length (takeWhile (\<lambda>q. \<not> p < q) (pgprocnos s));
             proc = allProcs s p;
             nos = insert_at index p (pgprocnos s)
         in Inr (s\<lparr>pgprocnos := nos,
                   g_xids := insert_at index (p_xid proc) (g_xids s),
                   g_subxidStates := insert_at index (length (subxids proc), suboverflowed proc) (g_subxidStates s),
                   g_statusFlags := insert_at index (statusFlags proc) (g_statusFlags s),
                   allProcs := renumber index (drop index nos) (allProcs s)\<rparr>)))"

definition ProcArrayRemove :: "nat \<Rightarrow> TransactionId \<Rightarrow> ProcArrayStruct \<Rightarrow> ProcArrayStruct" where
  "ProcArrayRemove p latestXid s =
     (let myoff = pgxactoff (allProcs s p);
          s = (if TransactionIdIsValid latestXid then
                 s\<lparr>pa_shared := advance_completion_count (MaintainLatestCompletedXid latestXid (pa_shared s)),
                   g_xids := (g_xids s)[myoff := InvalidTransactionId],
                   g_subxidStates := (g_subxidStates s)[myoff := (0, False)]\<rparr>
               else s);
          s = s\<lparr>g_statusFlags := (g_statusFlags s)[myoff := 0]\<rparr>;
          nos = remove_at myoff (pgprocnos s)
      in s\<lparr>pgprocnos := nos, g_xids := remove_at myoff (g_xids s),
           g_subxidStates := remove_at myoff (g_subxidStates s),
           g_statusFlags := remove_at myoff (g_statusFlags s),
           allProcs := renumber myoff (drop myoff nos) (allProcs s)\<rparr>)"

subsection \<open>Ending transactions\<close>

definition end_proc_fields :: "ProcEntry \<Rightarrow> ProcEntry" where
  "end_proc_fields proc =
     proc\<lparr>p_lxid := 0, p_xmin := InvalidTransactionId, delayChkptFlags := 0, recoveryConflictPending := False\<rparr>"

text \<open>Clearing the flags that are reset at the end of a transaction, in both copies.\<close>

definition clear_vacuum_flags :: "nat \<Rightarrow> ProcArrayStruct \<Rightarrow> ProcArrayStruct" where
  "clear_vacuum_flags p s =
     (let proc = allProcs s p
      in if statusFlags proc AND PROC_VACUUM_STATE_MASK \<noteq> 0 then
           (let flags = statusFlags proc AND NOT PROC_VACUUM_STATE_MASK
            in s\<lparr>allProcs := (allProcs s)(p := proc\<lparr>statusFlags := flags\<rparr>),
                 g_statusFlags := (g_statusFlags s)[pgxactoff proc := flags]\<rparr>)
         else s)"

definition clear_subxids :: "nat \<Rightarrow> ProcArrayStruct \<Rightarrow> ProcArrayStruct" where
  "clear_subxids p s =
     (let proc = allProcs s p
      in if length (subxids proc) > 0 \<or> suboverflowed proc then
           s\<lparr>g_subxidStates := (g_subxidStates s)[pgxactoff proc := (0, False)],
             allProcs := (allProcs s)(p := proc\<lparr>subxids := [], suboverflowed := False\<rparr>)\<rparr>
         else s)"

definition ProcArrayEndTransactionInternal :: "nat \<Rightarrow> TransactionId \<Rightarrow> ProcArrayStruct \<Rightarrow> ProcArrayStruct" where
  "ProcArrayEndTransactionInternal p latestXid s =
     (let off = pgxactoff (allProcs s p);
          s = s\<lparr>g_xids := (g_xids s)[off := InvalidTransactionId]\<rparr>;
          s = update_proc p (\<lambda>proc. end_proc_fields (proc\<lparr>p_xid := InvalidTransactionId\<rparr>)) s;
          s = clear_subxids p (clear_vacuum_flags p s)
      in s\<lparr>pa_shared := advance_completion_count (MaintainLatestCompletedXid latestXid (pa_shared s))\<rparr>)"

text \<open>
  Whether the lock is free, or the backend ends its transaction as a member of a group: the leader
  walks the list of members, each with the latest id it has stored, ours among them.
\<close>

datatype procarray_lock = ProcArrayLockFree | ProcArrayGroup "nat list" "nat list"

definition leave_group :: "nat \<Rightarrow> ProcArrayStruct \<Rightarrow> ProcArrayStruct" where
  "leave_group q s = update_proc q (\<lambda>proc. proc\<lparr>procArrayGroupMember := False\<rparr>) s"

definition group_clear :: "nat list \<Rightarrow> ProcArrayStruct \<Rightarrow> ProcArrayStruct" where
  "group_clear members s =
     (let s = fold (\<lambda>q s. ProcArrayEndTransactionInternal q (procArrayGroupMemberXid (allProcs s q)) s) members s
      in fold leave_group members s)"

definition ProcArrayGroupClearXid ::
  "nat list \<Rightarrow> nat list \<Rightarrow> nat \<Rightarrow> TransactionId \<Rightarrow> ProcArrayStruct \<Rightarrow> ProcArrayStruct" where
  "ProcArrayGroupClearXid before after p latestXid s =
     (let s = update_proc p (\<lambda>proc. proc\<lparr>procArrayGroupMember := True, procArrayGroupMemberXid := latestXid\<rparr>) s
      in group_clear (before @ p # after) s)"

definition ProcArrayEndTransaction ::
  "procarray_lock \<Rightarrow> nat \<Rightarrow> TransactionId \<Rightarrow> ProcArrayStruct \<Rightarrow> ProcArrayStruct" where
  "ProcArrayEndTransaction lk p latestXid s =
     (if TransactionIdIsValid latestXid then
        (case lk of
           ProcArrayLockFree \<Rightarrow> ProcArrayEndTransactionInternal p latestXid s
         | ProcArrayGroup before after \<Rightarrow> ProcArrayGroupClearXid before after p latestXid s)
      else clear_vacuum_flags p (update_proc p end_proc_fields s))"

definition ProcArrayClearTransaction :: "nat \<Rightarrow> ProcArrayStruct \<Rightarrow> ProcArrayStruct" where
  "ProcArrayClearTransaction p s =
     (let off = pgxactoff (allProcs s p);
          s = s\<lparr>g_xids := (g_xids s)[off := InvalidTransactionId]\<rparr>;
          s = update_proc p (\<lambda>proc. proc\<lparr>p_xid := InvalidTransactionId, p_lxid := 0,
                 p_xmin := InvalidTransactionId, recoveryConflictPending := False\<rparr>) s;
          s = s\<lparr>pa_shared := advance_completion_count (pa_shared s)\<rparr>
      in clear_subxids p s)"

text \<open>
  Removing an id from the cache of subtransactions: the last occurrence is overwritten by the last
  element, and the count goes down.
\<close>

fun last_index :: "'a \<Rightarrow> 'a list \<Rightarrow> nat \<Rightarrow> nat option" where
  "last_index x xs 0 = None" |
  "last_index x xs (Suc j) = (if xs ! j = x then Some j else last_index x xs j)"

definition subxid_cache_remove :: "TransactionId \<Rightarrow> TransactionId list \<Rightarrow> TransactionId list option" where
  "subxid_cache_remove x xs =
     (case last_index x xs (length xs) of
        None \<Rightarrow> None
      | Some j \<Rightarrow> Some (butlast (xs[j := last xs])))"

definition remove_one_subxid ::
  "nat \<Rightarrow> TransactionId \<Rightarrow> procarray_event list \<times> ProcArrayStruct \<Rightarrow> procarray_event list \<times> ProcArrayStruct" where
  "remove_one_subxid p anxid es =
     (let (events, s) = es; proc = allProcs s p
      in case subxid_cache_remove anxid (subxids proc) of
           Some rest \<Rightarrow>
             (events,
              s\<lparr>allProcs := (allProcs s)(p := proc\<lparr>subxids := rest\<rparr>),
                g_subxidStates := (g_subxidStates s)[pgxactoff proc :=
                  (fst (g_subxidStates s ! pgxactoff proc) - 1, snd (g_subxidStates s ! pgxactoff proc))]\<rparr>)
         | None \<Rightarrow> (if suboverflowed proc then events else events @ [DidNotFindSubXID anxid], s))"

definition XidCacheRemoveRunningXids ::
  "nat \<Rightarrow> TransactionId \<Rightarrow> TransactionId list \<Rightarrow> TransactionId \<Rightarrow> ProcArrayStruct \<Rightarrow> procarray_event list \<times> ProcArrayStruct" where
  "XidCacheRemoveRunningXids p xid xids latestXid s =
     (let (events, s) = remove_one_subxid p xid (fold (remove_one_subxid p) (rev xids) ([], s))
      in (events, s\<lparr>pa_shared := advance_completion_count (MaintainLatestCompletedXid latestXid (pa_shared s))\<rparr>))"

subsection \<open>Assigning ids in the array\<close>

text \<open>
  \<open>GetNewTransactionId\<close> works on the entry of its own backend and on the element of the dense
  arrays at its offset: the state of \<open>VarSup\<close> is that view of the whole system, and its result is
  written back through the same pointers.
\<close>

record XactSystem =
  sys_array :: ProcArrayStruct
  sys_clog :: XactSlru
  sys_subtrans :: SubTransSlru
  sys_cts :: CommitTsSlru

definition xidgen_view :: "nat \<Rightarrow> XactSystem \<Rightarrow> XidGenState" where
  "xidgen_view p sys =
     (let s = sys_array sys; proc = allProcs s p; off = pgxactoff proc
      in \<lparr>vcache = pa_shared s, xact_slru = sys_clog sys, sub_slru = sys_subtrans sys, cts_slru = sys_cts sys,
          MyProc = \<lparr>proc_xid = p_xid proc, proc_subxids = subxids proc, proc_suboverflowed = suboverflowed proc\<rparr>,
          MyGlobal = \<lparr>pg_xid = g_xids s ! off, pg_subcount = fst (g_subxidStates s ! off),
            pg_suboverflowed = snd (g_subxidStates s ! off)\<rparr>\<rparr>)"

definition xidgen_put :: "nat \<Rightarrow> XidGenState \<Rightarrow> XactSystem \<Rightarrow> XactSystem" where
  "xidgen_put p st sys =
     (let s = sys_array sys; proc = allProcs s p; off = pgxactoff proc;
          proc = proc\<lparr>p_xid := proc_xid (MyProc st), subxids := proc_subxids (MyProc st),
                      suboverflowed := proc_suboverflowed (MyProc st)\<rparr>
      in sys\<lparr>sys_clog := xact_slru st, sys_subtrans := sub_slru st, sys_cts := cts_slru st,
             sys_array := s\<lparr>allProcs := (allProcs s)(p := proc), pa_shared := vcache st,
               g_xids := (g_xids s)[off := pg_xid (MyGlobal st)],
               g_subxidStates := (g_subxidStates s)[off := (pg_subcount (MyGlobal st), pg_suboverflowed (MyGlobal st))]\<rparr>\<rparr>)"

definition assign_xid :: "nat \<Rightarrow> bool \<Rightarrow> XactSystem \<Rightarrow> FullTransactionId \<times> XactSystem" where
  "assign_xid p isSubXact sys =
     (let (full_xid, st) = assign_next_xid isSubXact (xidgen_view p sys) in (full_xid, xidgen_put p st sys))"

subsection \<open>The mirrored arrays\<close>

abbreviation sub_state :: "ProcEntry \<Rightarrow> nat \<times> bool" where
  "sub_state proc \<equiv> (length (subxids proc), suboverflowed proc)"

definition pa_inv :: "ProcArrayStruct \<Rightarrow> bool" where
  "pa_inv s \<longleftrightarrow> sorted_wrt (<) (pgprocnos s) \<and> length (pgprocnos s) \<le> maxProcs s
     \<and> map (\<lambda>p. pgxactoff (allProcs s p)) (pgprocnos s) = [0 ..< length (pgprocnos s)]
     \<and> g_xids s = map (\<lambda>p. p_xid (allProcs s p)) (pgprocnos s)
     \<and> g_subxidStates s = map (\<lambda>p. sub_state (allProcs s p)) (pgprocnos s)
     \<and> g_statusFlags s = map (\<lambda>p. statusFlags (allProcs s p)) (pgprocnos s)"

lemma pa_offset:
  assumes "pa_inv s" and "p \<in> set (pgprocnos s)"
  shows "pgxactoff (allProcs s p) < length (pgprocnos s) \<and> pgprocnos s ! pgxactoff (allProcs s p) = p"
proof -
  obtain i where i: "i < length (pgprocnos s)" "pgprocnos s ! i = p"
    using assms(2) by (auto simp: in_set_conv_nth)
  have "map (\<lambda>p. pgxactoff (allProcs s p)) (pgprocnos s) ! i = [0 ..< length (pgprocnos s)] ! i"
    using assms(1) by (simp add: pa_inv_def)
  with i show ?thesis by simp
qed

lemma pa_distinct: "pa_inv s \<Longrightarrow> distinct (pgprocnos s)"
  unfolding pa_inv_def by (simp add: strict_sorted_iff)

lemma list_update_same: "xs ! i = v \<Longrightarrow> xs[i := v] = xs"
  by (cases "i < length xs") auto

lemma map_fun_upd_at:
  assumes "distinct xs" and "i < length xs" and "xs ! i = p"
  shows "map (\<lambda>q. f ((g(p := v)) q)) xs = (map (\<lambda>q. f (g q)) xs)[i := f v]"
  using assms by (auto simp: list_eq_iff_nth_eq nth_list_update nth_eq_iff_index_eq)

text \<open>Replacing the entry of a backend in the array together with its mirrored values.\<close>

definition set_proc :: "nat \<Rightarrow> ProcEntry \<Rightarrow> ProcArrayStruct \<Rightarrow> ProcArrayStruct" where
  "set_proc p proc s =
     (let off = pgxactoff (allProcs s p)
      in s\<lparr>allProcs := (allProcs s)(p := proc), g_xids := (g_xids s)[off := p_xid proc],
           g_subxidStates := (g_subxidStates s)[off := sub_state proc],
           g_statusFlags := (g_statusFlags s)[off := statusFlags proc]\<rparr>)"

lemma set_proc_simps [simp]:
  "allProcs (set_proc p proc s) = (allProcs s)(p := proc)" "pgprocnos (set_proc p proc s) = pgprocnos s"
  "maxProcs (set_proc p proc s) = maxProcs s" "pa_shared (set_proc p proc s) = pa_shared s"
  "g_xids (set_proc p proc s) = (g_xids s)[pgxactoff (allProcs s p) := p_xid proc]"
  "g_subxidStates (set_proc p proc s) = (g_subxidStates s)[pgxactoff (allProcs s p) := sub_state proc]"
  "g_statusFlags (set_proc p proc s) = (g_statusFlags s)[pgxactoff (allProcs s p) := statusFlags proc]"
  "pa_known (set_proc p proc s) = pa_known s" "pa_lastOverflowedXid (set_proc p proc s) = pa_lastOverflowedXid s"
  by (simp_all add: set_proc_def Let_def)

lemma set_proc_inv:
  assumes "pa_inv s" and "p \<in> set (pgprocnos s)" and "pgxactoff proc = pgxactoff (allProcs s p)"
  shows "pa_inv (set_proc p proc s)"
proof -
  let ?n = "pgprocnos s" and ?off = "pgxactoff (allProcs s p)"
  have o: "?off < length ?n" "?n ! ?off = p" using pa_offset [OF assms(1,2)] by blast+
  note upd = map_fun_upd_at [OF pa_distinct [OF assms(1)] o, of _ "allProcs s" proc]
  have "[0 ..< length ?n][?off := ?off] = [0 ..< length ?n]"
    using o by (intro list_update_same) simp
  moreover note assms(1) [unfolded pa_inv_def]
  ultimately show ?thesis
    unfolding pa_inv_def set_proc_simps upd [of pgxactoff] upd [of p_xid] upd [of sub_state] upd [of statusFlags]
    by (simp only: assms(3))
qed

lemma pa_mirror:
  assumes "pa_inv s" and "p \<in> set (pgprocnos s)"
  shows "g_xids s ! pgxactoff (allProcs s p) = p_xid (allProcs s p)"
    "g_subxidStates s ! pgxactoff (allProcs s p) = sub_state (allProcs s p)"
    "g_statusFlags s ! pgxactoff (allProcs s p) = statusFlags (allProcs s p)"
  using assms(1) pa_offset [OF assms] by (simp_all add: pa_inv_def)

lemma pa_inv_shared [simp]:
  "pa_inv (s\<lparr>pa_shared := vc\<rparr>) = pa_inv s" "pgprocnos (s\<lparr>pa_shared := vc\<rparr>) = pgprocnos s"
  by (simp_all add: pa_inv_def)

subsection \<open>The operations in terms of one entry\<close>

lemma flags_clear_noop: "(x :: uint8) AND m = 0 \<Longrightarrow> x AND NOT m = x"
  by (auto simp: bit_eq_iff bit_simps)

definition ended_proc :: "ProcEntry \<Rightarrow> ProcEntry" where
  "ended_proc proc = (end_proc_fields proc)\<lparr>p_xid := InvalidTransactionId,
     statusFlags := statusFlags proc AND NOT PROC_VACUUM_STATE_MASK, subxids := [], suboverflowed := False\<rparr>"

lemma end_internal_set_proc:
  assumes "pa_inv s" and "p \<in> set (pgprocnos s)"
  shows "ProcArrayEndTransactionInternal p latestXid s
    = (set_proc p (ended_proc (allProcs s p)) s)\<lparr>pa_shared :=
         advance_completion_count (MaintainLatestCompletedXid latestXid (pa_shared s))\<rparr>"
proof -
  note m = pa_mirror [OF assms]
  define proc where "proc = allProcs s p"
  have sub: "(g_subxidStates s)[pgxactoff proc := (0, False)] = g_subxidStates s"
    if "subxids proc = []" "\<not> suboverflowed proc"
    using that m(2) by (intro list_update_same) (simp add: proc_def)
  have keep: "(g_statusFlags s)[pgxactoff proc := statusFlags proc] = g_statusFlags s"
    using m(3) by (simp add: list_update_same proc_def)
  note defs = ProcArrayEndTransactionInternal_def clear_subxids_def clear_vacuum_flags_def set_proc_def
    ended_proc_def end_proc_fields_def Let_def proc_def [symmetric]
  have "allProcs (ProcArrayEndTransactionInternal p latestXid s) p = ended_proc proc"
    by (rule ProcEntry.equality) (simp_all add: defs flags_clear_noop)
  then have "allProcs (ProcArrayEndTransactionInternal p latestXid s) = (allProcs s)(p := ended_proc proc)"
    by (auto simp: fun_eq_iff defs)
  then show ?thesis
    by (intro ProcArrayStruct.equality) (simp_all add: defs flags_clear_noop sub keep)
qed

lemma set_proc_fields:
  "pgxactoff (ended_proc proc) = pgxactoff proc" "p_xid (ended_proc proc) = InvalidTransactionId"
  "subxids (ended_proc proc) = []"
  by (simp_all add: ended_proc_def end_proc_fields_def)

lemma end_internal_inv:
  assumes "pa_inv s" and "p \<in> set (pgprocnos s)"
  shows "pa_inv (ProcArrayEndTransactionInternal p latestXid s)"
    and "pgprocnos (ProcArrayEndTransactionInternal p latestXid s) = pgprocnos s"
    and "allProcs (ProcArrayEndTransactionInternal p latestXid s) = (allProcs s)(p := ended_proc (allProcs s p))"
  using set_proc_inv [OF assms, of "ended_proc (allProcs s p)"]
  by (simp_all add: end_internal_set_proc [OF assms] set_proc_fields)

text \<open>An entry that changes only in what is not mirrored.\<close>

lemma update_proc_inv:
  assumes "pa_inv s" and "pgxactoff (f (allProcs s p)) = pgxactoff (allProcs s p)"
    and "p_xid (f (allProcs s p)) = p_xid (allProcs s p)" and "sub_state (f (allProcs s p)) = sub_state (allProcs s p)"
    and "statusFlags (f (allProcs s p)) = statusFlags (allProcs s p)"
  shows "pa_inv (update_proc p f s)"
proof -
  let ?h = "(allProcs s)(p := f (allProcs s p))"
  have "(\<lambda>q. pgxactoff (?h q)) = (\<lambda>q. pgxactoff (allProcs s q))" "(\<lambda>q. p_xid (?h q)) = (\<lambda>q. p_xid (allProcs s q))"
    "(\<lambda>q. sub_state (?h q)) = (\<lambda>q. sub_state (allProcs s q))"
    "(\<lambda>q. statusFlags (?h q)) = (\<lambda>q. statusFlags (allProcs s q))"
    using assms(2-5) by (auto simp: fun_eq_iff)
  moreover have "pa_inv (s\<lparr>allProcs := ?h\<rparr>) \<longleftrightarrow> sorted_wrt (<) (pgprocnos s) \<and> length (pgprocnos s) \<le> maxProcs s
     \<and> map (\<lambda>q. pgxactoff (?h q)) (pgprocnos s) = [0 ..< length (pgprocnos s)]
     \<and> g_xids s = map (\<lambda>q. p_xid (?h q)) (pgprocnos s)
     \<and> g_subxidStates s = map (\<lambda>q. sub_state (?h q)) (pgprocnos s)
     \<and> g_statusFlags s = map (\<lambda>q. statusFlags (?h q)) (pgprocnos s)"
    by (simp add: pa_inv_def)
  ultimately show ?thesis using assms(1) by (simp only: pa_inv_def)
qed

text \<open>The ids an entry shows.\<close>

definition proc_ids :: "ProcEntry \<Rightarrow> TransactionId set" where
  "proc_ids proc = (if TransactionIdIsValid (p_xid proc) then {p_xid proc} else {}) \<union> set (subxids proc)"

definition array_ids :: "ProcArrayStruct \<Rightarrow> TransactionId set" where
  "array_ids s = (\<Union>p \<in> set (pgprocnos s). proc_ids (allProcs s p))"

text \<open>An entry without a transaction.\<close>

definition entry_cleared :: "ProcEntry \<Rightarrow> bool" where
  "entry_cleared proc \<longleftrightarrow> p_xid proc = InvalidTransactionId \<and> subxids proc = [] \<and> \<not> suboverflowed proc
     \<and> p_xmin proc = InvalidTransactionId \<and> p_lxid proc = 0 \<and> delayChkptFlags proc = 0
     \<and> statusFlags proc AND PROC_VACUUM_STATE_MASK = 0"

lemma entry_cleared_ids: "entry_cleared proc \<Longrightarrow> proc_ids proc = {}"
  by (simp add: proc_ids_def entry_cleared_def TransactionIdIsValid_def)

lemma ended_proc_cleared: "entry_cleared (ended_proc proc)"
  by (simp add: entry_cleared_def ended_proc_def end_proc_fields_def and.assoc)

lemma end_members_inv:
  assumes "pa_inv s" and "set members \<subseteq> set (pgprocnos s)"
  defines "t \<equiv> fold (\<lambda>q s. ProcArrayEndTransactionInternal q (procArrayGroupMemberXid (allProcs s q)) s) members s"
  shows "pa_inv t \<and> pgprocnos t = pgprocnos s
    \<and> (\<forall>q. if q \<in> set members then entry_cleared (allProcs t q) else allProcs t q = allProcs s q)"
  using assms(1,2) unfolding t_def
proof (induction members arbitrary: s)
  case (Cons q qs)
  let ?u = "ProcArrayEndTransactionInternal q (procArrayGroupMemberXid (allProcs s q)) s"
  let ?t = "fold (\<lambda>q s. ProcArrayEndTransactionInternal q (procArrayGroupMemberXid (allProcs s q)) s) qs ?u"
  have q: "q \<in> set (pgprocnos s)" using Cons.prems(2) by simp
  note u = end_internal_inv [OF Cons.prems(1) q, of "procArrayGroupMemberXid (allProcs s q)"]
  have "set qs \<subseteq> set (pgprocnos ?u)" using Cons.prems(2) u(2) by simp
  note ih = Cons.IH [OF u(1) this]
  have "if r \<in> set (q # qs) then entry_cleared (allProcs ?t r) else allProcs ?t r = allProcs s r" for r
    using ih [THEN conjunct2, THEN conjunct2, THEN spec, of r] u(3) ended_proc_cleared [of "allProcs s q"]
    by (cases "r \<in> set qs"; cases "r = q") simp_all
  then show ?case using ih u(2) by simp
qed simp

lemma leave_group_inv:
  fixes members :: "nat list"
  assumes "pa_inv s"
  shows "pa_inv (fold leave_group members s) \<and> pgprocnos (fold leave_group members s) = pgprocnos s
    \<and> (\<forall>q. entry_cleared (allProcs (fold leave_group members s) q) = entry_cleared (allProcs s q)
         \<and> (q \<notin> set members \<longrightarrow> allProcs (fold leave_group members s) q = allProcs s q))"
  using assms
proof (induction members arbitrary: s)
  case (Cons q qs)
  have "pa_inv (leave_group q s)" unfolding leave_group_def using Cons.prems by (intro update_proc_inv) simp_all
  from Cons.IH [OF this] show ?case by (auto simp: leave_group_def entry_cleared_def)
qed simp

text \<open>
  After a backend has ended its transaction, by itself or in a group, the entries of those that took part
  are cleared and the others are as before.
\<close>

lemma ProcArrayEndTransaction_result:
  assumes "pa_inv s" and "p \<in> set (pgprocnos s)" and "TransactionIdIsValid latestXid"
    and "case lk of ProcArrayLockFree \<Rightarrow> members = [p]
      | ProcArrayGroup before after \<Rightarrow> members = before @ p # after \<and> set members \<subseteq> set (pgprocnos s)"
  defines "t \<equiv> ProcArrayEndTransaction lk p latestXid s"
  shows "pa_inv t \<and> pgprocnos t = pgprocnos s
    \<and> (\<forall>q. if q \<in> set members then entry_cleared (allProcs t q) else allProcs t q = allProcs s q)"
proof (cases lk)
  case ProcArrayLockFree
  with assms(3,4) end_internal_inv [OF assms(1,2), of latestXid] show ?thesis
    by (auto simp: t_def ProcArrayEndTransaction_def ended_proc_cleared split: if_splits)
next
  case (ProcArrayGroup before after)
  define u where "u = update_proc p (\<lambda>proc. proc\<lparr>procArrayGroupMember := True, procArrayGroupMemberXid := latestXid\<rparr>) s"
  have nos: "pgprocnos u = pgprocnos s" by (simp add: u_def)
  have m: "members = before @ p # after" "set members \<subseteq> set (pgprocnos u)"
    using assms(4) ProcArrayGroup by (auto simp: nos)
  have u: "pa_inv u" unfolding u_def using assms(1) by (intro update_proc_inv) simp_all
  have same: "q \<notin> set members \<Longrightarrow> allProcs u q = allProcs s q" for q by (auto simp: u_def m(1))
  have t: "t = group_clear members u"
    using assms(3) by (simp add: t_def ProcArrayGroup ProcArrayEndTransaction_def ProcArrayGroupClearXid_def m(1) u_def)
  define v where "v = fold (\<lambda>q s. ProcArrayEndTransactionInternal q (procArrayGroupMemberXid (allProcs s q)) s) members u"
  have v: "pa_inv v" "pgprocnos v = pgprocnos s"
    "\<And>q. if q \<in> set members then entry_cleared (allProcs v q) else allProcs v q = allProcs s q"
    using end_members_inv [OF u m(2), folded v_def] same by (auto simp: nos)
  have t': "t = fold leave_group members v" by (simp add: t group_clear_def v_def)
  show ?thesis
    using leave_group_inv [OF v(1), of members, folded t'] v(2,3) by metis
qed

lemma clear_transaction_set_proc:
  assumes "pa_inv s" and "p \<in> set (pgprocnos s)"
  shows "ProcArrayClearTransaction p s
    = (set_proc p ((allProcs s p)\<lparr>p_xid := InvalidTransactionId, p_lxid := 0, p_xmin := InvalidTransactionId,
         recoveryConflictPending := False, subxids := [], suboverflowed := False\<rparr>) s)
      \<lparr>pa_shared := advance_completion_count (pa_shared s)\<rparr>" (is "_ = (set_proc p ?proc s)\<lparr>pa_shared := _\<rparr>")
proof -
  note m = pa_mirror [OF assms]
  define proc where "proc = allProcs s p"
  have sub: "(g_subxidStates s)[pgxactoff proc := (0, False)] = g_subxidStates s"
    if "subxids proc = []" "\<not> suboverflowed proc"
    using that m(2) by (intro list_update_same) (simp add: proc_def)
  have keep: "(g_statusFlags s)[pgxactoff proc := statusFlags proc] = g_statusFlags s"
    using m(3) by (simp add: list_update_same proc_def)
  note defs = ProcArrayClearTransaction_def clear_subxids_def set_proc_def Let_def proc_def [symmetric]
  have "allProcs (ProcArrayClearTransaction p s) p = ?proc"
    by (rule ProcEntry.equality) (simp_all add: defs)
  then have "allProcs (ProcArrayClearTransaction p s) = (allProcs s)(p := ?proc)"
    by (auto simp: fun_eq_iff defs)
  then show ?thesis
    by (intro ProcArrayStruct.equality) (simp_all add: defs sub keep)
qed

lemma ProcArrayClearTransaction_inv:
  assumes "pa_inv s" and "p \<in> set (pgprocnos s)"
  shows "pa_inv (ProcArrayClearTransaction p s)"
  using set_proc_inv [OF assms] by (simp add: clear_transaction_set_proc [OF assms])

lemma clear_vacuum_flags_inv:
  assumes "pa_inv s" and "p \<in> set (pgprocnos s)"
  shows "pa_inv (clear_vacuum_flags p s)"
proof (cases "statusFlags (allProcs s p) AND PROC_VACUUM_STATE_MASK = 0")
  case True
  with assms(1) show ?thesis by (simp add: clear_vacuum_flags_def)
next
  case False
  let ?proc = "(allProcs s p)\<lparr>statusFlags := statusFlags (allProcs s p) AND NOT PROC_VACUUM_STATE_MASK\<rparr>"
  note m = pa_mirror [OF assms]
  have "clear_vacuum_flags p s = set_proc p ?proc s"
    using False m by (intro ProcArrayStruct.equality)
      (simp_all add: clear_vacuum_flags_def set_proc_def Let_def list_update_same)
  then show ?thesis using set_proc_inv [OF assms, of ?proc] by simp
qed

lemma ProcArrayEndTransaction_no_xid_inv:
  assumes "pa_inv s" and "p \<in> set (pgprocnos s)" and "\<not> TransactionIdIsValid latestXid"
  shows "pa_inv (ProcArrayEndTransaction lk p latestXid s)"
proof -
  have "pa_inv (update_proc p end_proc_fields s)"
    using assms(1) by (intro update_proc_inv) (simp_all add: end_proc_fields_def)
  then show ?thesis
    using assms(2,3) by (simp add: ProcArrayEndTransaction_def clear_vacuum_flags_inv)
qed

subsection \<open>The cache of subtransactions\<close>

lemma last_index_found:
  assumes "n \<le> length xs"
  shows "case last_index x xs n of None \<Rightarrow> x \<notin> set (take n xs) | Some j \<Rightarrow> j < n \<and> xs ! j = x"
  using assms
proof (induction n)
  case (Suc n)
  then show ?case
    by (auto simp: take_Suc_conv_app_nth split: option.splits)
qed simp

lemma subxid_cache_remove_mset:
  "case subxid_cache_remove x xs of None \<Rightarrow> x \<notin> set xs | Some ys \<Rightarrow> add_mset x (mset ys) = mset xs"
proof (cases "last_index x xs (length xs)")
  case None
  then show ?thesis using last_index_found [of "length xs" xs x] by (simp add: subxid_cache_remove_def)
next
  case (Some j)
  then have j: "j < length xs" "xs ! j = x" using last_index_found [of "length xs" xs x] by simp_all
  then have ne: "xs \<noteq> []" by auto
  have "mset (xs[j := last xs]) = add_mset (last xs) (mset xs - {#x#})"
    using j by (simp add: mset_update)
  moreover have "mset (butlast (xs[j := last xs])) = mset (xs[j := last xs]) - {#last (xs[j := last xs])#}"
    using ne by (metis append_butlast_last_id length_list_update list.size(3) length_0_conv mset_append
        mset.simps diff_union_cancelR mset_single_iff_right add_mset_add_single)
  moreover have "last (xs[j := last xs]) = last xs"
    using j ne by (simp add: last_conv_nth nth_list_update)
  ultimately have "mset (butlast (xs[j := last xs])) = mset xs - {#x#}" by simp
  moreover have "x \<in># mset xs" using j by auto
  ultimately show ?thesis using Some by (simp add: subxid_cache_remove_def)
qed

lemma remove_one_subxid_inv:
  assumes "pa_inv s" and "p \<in> set (pgprocnos s)"
  shows "pa_inv (snd (remove_one_subxid p x (ev, s))) \<and> pgprocnos (snd (remove_one_subxid p x (ev, s))) = pgprocnos s"
proof (cases "subxid_cache_remove x (subxids (allProcs s p))")
  case None
  with assms(1) show ?thesis by (simp add: remove_one_subxid_def)
next
  case (Some rest)
  let ?proc = "(allProcs s p)\<lparr>subxids := rest\<rparr>"
  note m = pa_mirror [OF assms]
  have "add_mset x (mset rest) = mset (subxids (allProcs s p))"
    using subxid_cache_remove_mset [of x "subxids (allProcs s p)"] Some by simp
  from arg_cong [OF this, of size] have len: "length rest = length (subxids (allProcs s p)) - 1" by simp
  have "snd (remove_one_subxid p x (ev, s)) = set_proc p ?proc s"
    using Some m by (intro ProcArrayStruct.equality)
      (simp_all add: remove_one_subxid_def set_proc_def Let_def list_update_same len)
  then show ?thesis using set_proc_inv [OF assms, of ?proc] by simp
qed

lemma remove_subxids_inv:
  assumes "pa_inv s" and "p \<in> set (pgprocnos s)"
  shows "pa_inv (snd (fold (remove_one_subxid p) xs (ev, s))) \<and> pgprocnos (snd (fold (remove_one_subxid p) xs (ev, s))) = pgprocnos s"
  using assms
proof (induction xs arbitrary: ev s)
  case (Cons x xs)
  obtain ev' t where t: "remove_one_subxid p x (ev, s) = (ev', t)" by fastforce
  with remove_one_subxid_inv [OF Cons.prems, of x ev] have "pa_inv t" "pgprocnos t = pgprocnos s" by simp_all
  with Cons.IH [of t ev'] Cons.prems(2) t show ?case by simp
qed simp

lemma XidCacheRemoveRunningXids_inv:
  assumes "pa_inv s" and "p \<in> set (pgprocnos s)"
  shows "pa_inv (snd (XidCacheRemoveRunningXids p xid xids latestXid s))"
proof -
  obtain ev t where t: "remove_one_subxid p xid (fold (remove_one_subxid p) (rev xids) ([], s)) = (ev, t)" by fastforce
  have "fold (remove_one_subxid p) (rev xids @ [xid]) ([], s) = (ev, t)" using t by simp
  with remove_subxids_inv [OF assms, of "rev xids @ [xid]" "[]"] have "pa_inv t" by simp
  then show ?thesis by (simp add: XidCacheRemoveRunningXids_def t)
qed

subsection \<open>Joining and leaving keep the arrays in step\<close>

lemma renumber_fields [simp]:
  "p_xid (renumber i ps procs q) = p_xid (procs q)" "subxids (renumber i ps procs q) = subxids (procs q)"
  "suboverflowed (renumber i ps procs q) = suboverflowed (procs q)"
  "statusFlags (renumber i ps procs q) = statusFlags (procs q)"
  by (induction i ps procs rule: renumber.induct) auto

lemma renumber_other: "q \<notin> set ps \<Longrightarrow> renumber i ps procs q = procs q"
  by (induction i ps procs rule: renumber.induct) auto

lemma renumber_offsets:
  "distinct ps \<Longrightarrow> map (\<lambda>q. pgxactoff (renumber i ps procs q)) ps = [i ..< i + length ps]"
proof (induction i ps procs rule: renumber.induct)
  case (2 i p ps procs)
  let ?procs = "procs(p := (procs p)\<lparr>pgxactoff := i\<rparr>)"
  have "map (\<lambda>q. pgxactoff (renumber (i + 1) ps ?procs q)) ps = [i + 1 ..< i + 1 + length ps]"
    using "2.prems" by (intro "2.IH") simp
  moreover have "pgxactoff (renumber (i + 1) ps ?procs p) = i"
    using "2.prems" by (simp add: renumber_other)
  moreover have "[i ..< i + length (p # ps)] = i # [i + 1 ..< i + 1 + length ps]"
    using upt_conv_Cons [of i "i + length (p # ps)"] by (simp del: upt_Suc)
  ultimately show ?case by (simp del: upt_Suc fun_upd_apply)
qed simp

text \<open>Numbering the part from \<open>k\<close> on, when the part before is numbered already.\<close>

lemma renumber_all:
  assumes "distinct nos" and "k \<le> length nos" and "map (\<lambda>q. pgxactoff (procs q)) (take k nos) = [0 ..< k]"
  shows "map (\<lambda>q. pgxactoff (renumber k (drop k nos) procs q)) nos = [0 ..< length nos]"
proof -
  let ?h = "\<lambda>q. pgxactoff (renumber k (drop k nos) procs q)"
  have "set (take k nos) \<inter> set (drop k nos) = {}"
    using assms(1) by (metis append_take_drop_id distinct_append)
  then have "map ?h (take k nos) = map (\<lambda>q. pgxactoff (procs q)) (take k nos)"
    by (intro map_cong) (auto simp: renumber_other disjoint_iff)
  moreover have "map ?h (drop k nos) = [k ..< length nos]"
    using renumber_offsets [of "drop k nos" k procs] assms(1,2) by simp
  moreover have "map ?h nos = map ?h (take k nos) @ map ?h (drop k nos)"
    by (metis append_take_drop_id map_append)
  moreover have "[0 ..< length nos] = [0 ..< k] @ [k ..< length nos]" using assms(2) by (intro upt_split) simp
  ultimately show ?thesis using assms(3) by simp
qed

lemma set_insert_at: "set (insert_at i x xs) = insert x (set xs)"
proof -
  have "set xs = set (take i xs) \<union> set (drop i xs)" by (metis append_take_drop_id set_append)
  then show ?thesis by (auto simp: insert_at_def)
qed

lemma insert_at_Suc: "insert_at (Suc i) x (y # ys) = y # insert_at i x ys"
  by (simp add: insert_at_def)

lemma insert_at_sorted:
  fixes p :: nat
  assumes "sorted_wrt (<) xs" and "p \<notin> set xs"
  shows "sorted_wrt (<) (insert_at (length (takeWhile (\<lambda>q. \<not> p < q) xs)) p xs)"
  using assms
proof (induction xs)
  case (Cons x xs)
  show ?case
  proof (cases "p < x")
    case True
    with Cons.prems show ?thesis by (auto simp: insert_at_def intro: less_trans [of p x])
  next
    case False
    then have "x < p" using Cons.prems(2) by auto
    moreover have "sorted_wrt (<) (insert_at (length (takeWhile (\<lambda>q. \<not> p < q) xs)) p xs)"
      using Cons by simp
    ultimately show ?thesis
      using False Cons.prems(1) set_insert_at [of _ p xs] by (simp add: insert_at_Suc)
  qed
qed (simp add: insert_at_def)

lemma map_insert_at: "map f (insert_at i x xs) = insert_at i (f x) (map f xs)"
  by (simp add: insert_at_def take_map drop_map)

lemma map_remove_at: "map f (remove_at i xs) = remove_at i (map f xs)"
  by (simp add: remove_at_def take_map drop_map)

lemma remove_at_update: "remove_at i (xs[i := v]) = remove_at i xs"
  by (simp add: remove_at_def)

lemma ProcArrayAdd_inv:
  assumes "pa_inv s" and "p \<notin> set (pgprocnos s)" and "ProcArrayAdd p s = Inr t"
  shows "pa_inv t \<and> set (pgprocnos t) = insert p (set (pgprocnos s)) \<and> array_ids t = proc_ids (allProcs s p) \<union> array_ids s"
proof -
  define k where "k = length (takeWhile (\<lambda>q. \<not> p < q) (pgprocnos s))"
  define nos where "nos = insert_at k p (pgprocnos s)"
  have room: "length (pgprocnos s) < maxProcs s" using assms(3) by (auto simp: ProcArrayAdd_def split: if_splits)
  have t: "pgprocnos t = nos" "allProcs t = renumber k (drop k nos) (allProcs s)" "maxProcs t = maxProcs s"
    "g_xids t = insert_at k (p_xid (allProcs s p)) (g_xids s)"
    "g_subxidStates t = insert_at k (sub_state (allProcs s p)) (g_subxidStates s)"
    "g_statusFlags t = insert_at k (statusFlags (allProcs s p)) (g_statusFlags s)"
    using assms(3) room by (auto simp: ProcArrayAdd_def Let_def nos_def k_def)
  have s: "sorted_wrt (<) (pgprocnos s)" using assms(1) by (simp add: pa_inv_def)
  have kl: "k \<le> length (pgprocnos s)" unfolding k_def by (rule length_takeWhile_le)
  have sorted: "sorted_wrt (<) nos" unfolding nos_def k_def by (rule insert_at_sorted [OF s assms(2)])
  have len: "length nos = Suc (length (pgprocnos s))" using kl by (simp add: nos_def insert_at_def)
  have "take k nos = take k (pgprocnos s)" using kl by (simp add: nos_def insert_at_def)
  then have "map (\<lambda>q. pgxactoff (allProcs s q)) (take k nos) = [0 ..< k]"
    using assms(1) kl by (simp add: pa_inv_def flip: take_map)
  then have "map (\<lambda>q. pgxactoff (allProcs t q)) nos = [0 ..< length nos]"
    unfolding t(2) using sorted len kl by (intro renumber_all) (simp_all add: strict_sorted_iff)
  moreover have "g_xids t = map (\<lambda>q. p_xid (allProcs t q)) nos"
    "g_subxidStates t = map (\<lambda>q. sub_state (allProcs t q)) nos"
    "g_statusFlags t = map (\<lambda>q. statusFlags (allProcs t q)) nos"
    using assms(1) unfolding t(2,4-6) nos_def map_insert_at by (simp_all add: pa_inv_def)
  ultimately have "pa_inv t" using sorted len room by (simp add: pa_inv_def t(1,3))
  moreover have "proc_ids (allProcs t q) = proc_ids (allProcs s q)" for q by (simp add: t(2) proc_ids_def)
  ultimately show ?thesis by (auto simp: t(1) nos_def set_insert_at array_ids_def)
qed

lemma remove_at_sorted: "sorted_wrt P xs \<Longrightarrow> sorted_wrt P (remove_at i xs)"
proof (induction xs arbitrary: i)
  case (Cons x xs)
  have "set (remove_at j xs) \<subseteq> set xs" for j by (auto simp: remove_at_def dest: in_set_takeD in_set_dropD)
  with Cons show ?case
    by (cases i) (auto simp: remove_at_def dest: in_set_takeD in_set_dropD)
qed (simp add: remove_at_def)

lemma set_remove_at:
  assumes "distinct xs" and "i < length xs"
  shows "set (remove_at i xs) = set xs - {xs ! i}"
proof -
  have "xs = take i xs @ xs ! i # drop (Suc i) xs" using assms(2) by (rule id_take_nth_drop)
  then have d: "distinct (take i xs @ xs ! i # drop (Suc i) xs)"
    and s: "set xs = set (take i xs @ xs ! i # drop (Suc i) xs)"
    using assms(1) by metis+
  show ?thesis unfolding remove_at_def s using d by auto
qed

lemma ProcArrayRemove_inv:
  fixes latestXid
  assumes "pa_inv s" and "p \<in> set (pgprocnos s)"
  defines "t \<equiv> ProcArrayRemove p latestXid s"
  shows "pa_inv t \<and> set (pgprocnos t) = set (pgprocnos s) - {p}
    \<and> array_ids t = (\<Union>q \<in> set (pgprocnos s) - {p}. proc_ids (allProcs s q))"
proof -
  define k where "k = pgxactoff (allProcs s p)"
  define nos where "nos = remove_at k (pgprocnos s)"
  have k: "k < length (pgprocnos s)" "pgprocnos s ! k = p" using pa_offset [OF assms(1,2)] by (simp_all add: k_def)
  have t: "pgprocnos t = nos" "allProcs t = renumber k (drop k nos) (allProcs s)" "maxProcs t = maxProcs s"
    "g_xids t = remove_at k (g_xids s)" "g_subxidStates t = remove_at k (g_subxidStates s)"
    "g_statusFlags t = remove_at k (g_statusFlags s)"
    by (simp_all add: t_def ProcArrayRemove_def Let_def nos_def k_def remove_at_update)
  have sorted: "sorted_wrt (<) nos" using assms(1) by (simp add: pa_inv_def nos_def remove_at_sorted)
  have len: "length nos = length (pgprocnos s) - 1" using k(1) by (simp add: nos_def remove_at_def)
  have "take k nos = take k (pgprocnos s)" using k(1) by (simp add: nos_def remove_at_def)
  then have "map (\<lambda>q. pgxactoff (allProcs s q)) (take k nos) = [0 ..< k]"
    using assms(1) k(1) by (simp add: pa_inv_def flip: take_map)
  then have "map (\<lambda>q. pgxactoff (allProcs t q)) nos = [0 ..< length nos]"
    unfolding t(2) using sorted len k(1) by (intro renumber_all) (simp_all add: strict_sorted_iff)
  moreover have "g_xids t = map (\<lambda>q. p_xid (allProcs t q)) nos"
    "g_subxidStates t = map (\<lambda>q. sub_state (allProcs t q)) nos"
    "g_statusFlags t = map (\<lambda>q. statusFlags (allProcs t q)) nos"
    using assms(1) unfolding t(2,4-6) nos_def map_remove_at by (simp_all add: pa_inv_def)
  moreover have "length (pgprocnos s) \<le> maxProcs s" using assms(1) by (simp add: pa_inv_def)
  then have "length nos \<le> maxProcs s" using len by linarith
  ultimately have "pa_inv t" using sorted by (simp add: pa_inv_def t(1,3))
  moreover have "set nos = set (pgprocnos s) - {p}"
    unfolding nos_def using set_remove_at [OF pa_distinct [OF assms(1)] k(1)] k(2) by simp
  moreover have "proc_ids (allProcs t q) = proc_ids (allProcs s q)" for q by (simp add: t(2) proc_ids_def)
  ultimately show ?thesis by (simp add: t(1) array_ids_def)
qed

lemma assign_xid_array:
  assumes "pa_inv (sys_array sys)" and "p \<in> set (pgprocnos (sys_array sys))"
  defines "proc \<equiv> allProcs (sys_array sys) p"
    and "xid \<equiv> XidFromFullTransactionId (nextXid (pa_shared (sys_array sys)))"
  shows "fst (assign_xid p isSub sys) = nextXid (pa_shared (sys_array sys))"
    and "sys_array (snd (assign_xid p isSub sys)) =
      (set_proc p (if \<not> isSub then proc\<lparr>p_xid := xid\<rparr>
                   else if length (subxids proc) < PGPROC_MAX_CACHED_SUBXIDS then proc\<lparr>subxids := subxids proc @ [xid]\<rparr>
                   else proc\<lparr>suboverflowed := True\<rparr>) (sys_array sys))
      \<lparr>pa_shared := (pa_shared (sys_array sys))\<lparr>nextXid := FullTransactionIdAdvance (nextXid (pa_shared (sys_array sys)))\<rparr>\<rparr>"
    and "sys_subtrans (snd (assign_xid p isSub sys)) = ExtendSUBTRANS xid (sys_subtrans sys)"
    and "sys_clog (snd (assign_xid p isSub sys)) = ExtendCLOG xid (sys_clog sys)"
proof -
  note m = pa_mirror [OF assms(1,2), folded proc_def]
  note defs = assign_xid_def assign_next_xid_def store_new_xid_def xidgen_view_def xidgen_put_def Let_def
  show "fst (assign_xid p isSub sys) = nextXid (pa_shared (sys_array sys))"
    "sys_subtrans (snd (assign_xid p isSub sys)) = ExtendSUBTRANS xid (sys_subtrans sys)"
    "sys_clog (snd (assign_xid p isSub sys)) = ExtendCLOG xid (sys_clog sys)"
    by (auto simp: defs xid_def)
  have keep: "(g_statusFlags (sys_array sys))[pgxactoff proc := statusFlags proc] = g_statusFlags (sys_array sys)"
    "(g_xids (sys_array sys))[pgxactoff proc := p_xid proc] = g_xids (sys_array sys)"
    "(g_subxidStates (sys_array sys))[pgxactoff proc := sub_state proc] = g_subxidStates (sys_array sys)"
    using m by (simp_all add: list_update_same)
  show "sys_array (snd (assign_xid p isSub sys)) =
      (set_proc p (if \<not> isSub then proc\<lparr>p_xid := xid\<rparr>
                   else if length (subxids proc) < PGPROC_MAX_CACHED_SUBXIDS then proc\<lparr>subxids := subxids proc @ [xid]\<rparr>
                   else proc\<lparr>suboverflowed := True\<rparr>) (sys_array sys))
      \<lparr>pa_shared := (pa_shared (sys_array sys))\<lparr>nextXid := FullTransactionIdAdvance (nextXid (pa_shared (sys_array sys)))\<rparr>\<rparr>"
    by (intro ProcArrayStruct.equality)
      (auto simp: defs set_proc_def proc_def [symmetric] xid_def [symmetric] m keep fun_upd_def list_update_same intro!: ext)
qed

lemma assign_xid_inv:
  assumes "pa_inv (sys_array sys)" and "p \<in> set (pgprocnos (sys_array sys))"
  shows "pa_inv (sys_array (snd (assign_xid p isSub sys)))"
  using set_proc_inv [OF assms] by (simp add: assign_xid_array(2) [OF assms])

text \<open>
  C15: ending a transaction, whether its backend gets the lock at once or is cleared by the leader of
  a group, clears the entries of the backends that take part (its own and those of the group it is
  cleared with): they have no id, no cached subtransactions, no snapshot and no flag of the ended transaction
  left. The entries of all other backends stay as they are, the dense arrays still mirror the
  entries, and the ids the array shows are exactly those of the other backends.
\<close>

theorem ProcArrayEndTransaction_ids:
  assumes "pa_inv s" and "p \<in> set (pgprocnos s)" and "TransactionIdIsValid latestXid"
    and "case lk of ProcArrayLockFree \<Rightarrow> members = [p]
      | ProcArrayGroup before after \<Rightarrow> members = before @ p # after \<and> set members \<subseteq> set (pgprocnos s)"
  shows "pa_inv (ProcArrayEndTransaction lk p latestXid s)
    \<and> pgprocnos (ProcArrayEndTransaction lk p latestXid s) = pgprocnos s
    \<and> (\<forall>q. if q \<in> set members then entry_cleared (allProcs (ProcArrayEndTransaction lk p latestXid s) q)
           else allProcs (ProcArrayEndTransaction lk p latestXid s) q = allProcs s q)
    \<and> array_ids (ProcArrayEndTransaction lk p latestXid s)
      = (\<Union>q \<in> set (pgprocnos s) - set members. proc_ids (allProcs s q))"
proof -
  let ?t = "ProcArrayEndTransaction lk p latestXid s"
  have r: "pa_inv ?t" "pgprocnos ?t = pgprocnos s"
    "\<forall>q. if q \<in> set members then entry_cleared (allProcs ?t q) else allProcs ?t q = allProcs s q"
    using ProcArrayEndTransaction_result [OF assms] by blast+
  then have "proc_ids (allProcs ?t q) = (if q \<in> set members then {} else proc_ids (allProcs s q))" for q
    using entry_cleared_ids by metis
  then have "array_ids ?t = (\<Union>q \<in> set (pgprocnos s) - set members. proc_ids (allProcs s q))"
    by (auto simp: array_ids_def r(2) split: if_splits)
  with r show ?thesis by blast
qed

subsection \<open>Every reachable array\<close>

text \<open>What the backends do with the array, in any order.\<close>

inductive pa_step :: "ProcArrayStruct \<Rightarrow> ProcArrayStruct \<Rightarrow> bool" where
  join: "p \<notin> set (pgprocnos s) \<Longrightarrow> ProcArrayAdd p s = Inr t \<Longrightarrow> pa_step s t"
| leave: "p \<in> set (pgprocnos s) \<Longrightarrow> pa_step s (ProcArrayRemove p latestXid s)"
| assign: "p \<in> set (pgprocnos (sys_array sys)) \<Longrightarrow> pa_step (sys_array sys) (sys_array (snd (assign_xid p isSub sys)))"
| end_xact: "p \<in> set (pgprocnos s) \<Longrightarrow> TransactionIdIsValid latestXid \<Longrightarrow>
    (\<And>before after. lk = ProcArrayGroup before after \<Longrightarrow> set before \<union> set after \<subseteq> set (pgprocnos s)) \<Longrightarrow>
    pa_step s (ProcArrayEndTransaction lk p latestXid s)"
| end_without_xid: "p \<in> set (pgprocnos s) \<Longrightarrow> \<not> TransactionIdIsValid latestXid \<Longrightarrow>
    pa_step s (ProcArrayEndTransaction lk p latestXid s)"
| prepared: "p \<in> set (pgprocnos s) \<Longrightarrow> pa_step s (ProcArrayClearTransaction p s)"
| sub_abort: "p \<in> set (pgprocnos s) \<Longrightarrow> pa_step s (snd (XidCacheRemoveRunningXids p xid xids latestXid s))"
| set_xmin: "pa_step s (update_proc p (\<lambda>proc. proc\<lparr>p_xmin := x\<rparr>) s)"

lemma pa_step_inv:
  assumes "pa_step s t" and "pa_inv s"
  shows "pa_inv t"
  using assms
proof (cases rule: pa_step.cases)
  case (end_xact p latestXid lk)
  define members where "members = (case lk of ProcArrayLockFree \<Rightarrow> [p] | ProcArrayGroup before after \<Rightarrow> before @ p # after)"
  have "case lk of ProcArrayLockFree \<Rightarrow> members = [p]
      | ProcArrayGroup before after \<Rightarrow> members = before @ p # after \<and> set members \<subseteq> set (pgprocnos s)"
    using end_xact(2,4) by (cases lk) (auto simp: members_def)
  from ProcArrayEndTransaction_result [OF assms(2) end_xact(2,3) this] show ?thesis by (simp add: end_xact(1))
next
  case (set_xmin p x)
  then show ?thesis using assms(2) by (simp only:) (rule update_proc_inv, simp_all)
qed (use ProcArrayAdd_inv in \<open>blast+\<close>, simp_all add: ProcArrayRemove_inv assign_xid_inv
    ProcArrayEndTransaction_no_xid_inv ProcArrayClearTransaction_inv XidCacheRemoveRunningXids_inv)

text \<open>
  C14: in every state reachable from the creation of the shared array, by backends joining and
  leaving, assigning ids, ending transactions alone or in groups, preparing transactions and aborting
  subtransactions in any order, the backends are sorted by number and fit the array, each knows its
  offset, and the dense arrays of ids, of states of the subtransaction caches and of status flags
  agree with the entries of the backends.
\<close>

theorem ProcArray_reachable_mirrors:
  assumes "pa_step\<^sup>*\<^sup>* (CreateSharedProcArray n procs ka vc) s"
  shows "pa_inv s"
  using assms
proof (induction rule: rtranclp_induct)
  case base
  then show ?case by (simp add: pa_inv_def CreateSharedProcArray_def)
next
  case (step s t)
  then show ?case by (blast intro: pa_step_inv)
qed

definition sample_proc :: ProcEntry where
  "sample_proc = \<lparr>p_xid = 0, p_xmin = 0, p_lxid = 0, p_pid = 1, backendId = 1, pgxactoff = 0, databaseId = 1, recoveryConflictPending = False,
     delayChkptFlags = 0, statusFlags = 0, subxids = [], suboverflowed = False, procArrayGroupMember = False,
     procArrayGroupMemberXid = 0\<rparr>"

definition sample_array :: ProcArrayStruct where
  "sample_array = \<lparr>allProcs = (\<lambda>p. sample_proc\<lparr>p_xid := (if p = 3 then 10 else if p = 5 then 12 else 0),
       pgxactoff := (if p = 5 then 1 else 0), subxids := (if p = 5 then [13, 14] else [])\<rparr>),
     pgprocnos = [3, 5], maxProcs = 4, g_xids = [10, 12], g_subxidStates = [(0, False), (2, False)],
     g_statusFlags = [0, 0], replication_slot_xmin = 0, replication_slot_catalog_xmin = 0, pa_known = sample_kax,
     pa_lastOverflowedXid = 0, pa_shared = sample_vcache\<rparr>"

theorem ProcArrayEndTransaction_ids_witness:
  "array_ids sample_array = {10, 12, 13, 14}
   \<and> array_ids (ProcArrayEndTransaction (ProcArrayGroup [] []) 5 14 sample_array) = {10}"
proof -
  have "pa_inv sample_array" by (simp add: pa_inv_def sample_array_def sample_proc_def)
  then have "array_ids (ProcArrayEndTransaction (ProcArrayGroup [] []) 5 14 sample_array)
      = (\<Union>q \<in> set (pgprocnos sample_array) - set [5]. proc_ids (allProcs sample_array q))"
    using ProcArrayEndTransaction_ids [of sample_array 5 14 "[5]" "ProcArrayGroup [] []"]
    by (simp add: sample_array_def TransactionIdIsValid_def InvalidTransactionId_def)
  then show ?thesis
    by (auto simp: sample_array_def sample_proc_def array_ids_def proc_ids_def TransactionIdIsValid_def InvalidTransactionId_def)
qed

theorem ProcArray_reachable_mirrors_witness:
  "\<exists>t. ProcArrayAdd 7 (CreateSharedProcArray 2 (\<lambda>_. sample_proc) sample_kax sample_vcache) = Inr t \<and> pa_inv t"
proof -
  let ?s = "CreateSharedProcArray 2 (\<lambda>_. sample_proc) sample_kax sample_vcache"
  obtain t where t: "ProcArrayAdd 7 ?s = Inr t"
    by (simp add: ProcArrayAdd_def CreateSharedProcArray_def Let_def)
  have "7 \<notin> set (pgprocnos ?s)" by (simp add: CreateSharedProcArray_def)
  then have "pa_step ?s t" using t by (rule join)
  then have "pa_inv t" by (intro ProcArray_reachable_mirrors [of 2 _ sample_kax sample_vcache]) blast
  with t show ?thesis by simp
qed

end
