(* ===== verification/Horizons.thy ===== *)
theory Horizons
  imports ProcArray
begin

section \<open>Horizons: which deleted rows may be removed\<close>

text \<open>
  \<open>ComputeXidHorizons\<close> of \<open>src/backend/storage/ipc/procarray.c\<close> and the approximate horizons
  (\<open>GlobalVisState\<close>) built on it. The array is the state of \<open>ProcArray\<close>, read under its lock; the
  variables of the backend that computes, with its four approximate horizons, are a record of their
  own. Whether recovery is in progress and the level of the write-ahead log are arguments.
\<close>

subsection \<open>State\<close>

record GlobalVisState =
  definitely_needed :: FullTransactionId
  maybe_needed :: FullTransactionId

record ComputeXidHorizonsResult =
  latest_completed :: FullTransactionId
  slot_xmin :: TransactionId
  slot_catalog_xmin :: TransactionId
  oldest_considered_running :: TransactionId
  shared_oldest_nonremovable :: TransactionId
  shared_oldest_nonremovable_raw :: TransactionId
  catalog_oldest_nonremovable :: TransactionId
  data_oldest_nonremovable :: TransactionId
  temp_oldest_nonremovable :: TransactionId

datatype GlobalVisHorizonKind = VISHORIZON_SHARED | VISHORIZON_CATALOG | VISHORIZON_DATA | VISHORIZON_TEMP

record VisBackend =
  MyProcNo :: nat
  MyDatabaseId :: Oid
  TransactionXmin :: TransactionId
  RecentXmin :: TransactionId
  cachedXidIsNotInProgress :: TransactionId
  GlobalVisSharedRels :: GlobalVisState
  GlobalVisCatalogRels :: GlobalVisState
  GlobalVisDataRels :: GlobalVisState
  GlobalVisTempRels :: GlobalVisState
  ComputeXidHorizonsResultLastXmin :: TransactionId

subsection \<open>The kind of horizon of a relation\<close>

datatype WalLevel = WAL_LEVEL_MINIMAL | WAL_LEVEL_REPLICA | WAL_LEVEL_LOGICAL

definition XLogIsNeeded :: "WalLevel \<Rightarrow> bool" where
  "XLogIsNeeded wal_level \<longleftrightarrow> wal_level \<noteq> WAL_LEVEL_MINIMAL"

definition XLogLogicalInfoActive :: "WalLevel \<Rightarrow> bool" where
  "XLogLogicalInfoActive wal_level \<longleftrightarrow> wal_level = WAL_LEVEL_LOGICAL"

text \<open>
  The fields of a relation cache entry that the choice reads; \<open>user_catalog_table\<close> is the option of
  the relation when it has options.
\<close>

record RelationData =
  rd_id :: Oid
  relisshared :: bool
  relkind :: char
  relpersistence :: char
  rd_islocaltemp :: bool
  rd_createSubid :: uint32
  rd_firstRelfilelocatorSubid :: uint32
  user_catalog_table :: "bool option"

definition IsCatalogRelationOid :: "Oid \<Rightarrow> bool" where
  "IsCatalogRelationOid relid \<longleftrightarrow> relid < FirstUnpinnedObjectId"

definition IsCatalogRelation :: "RelationData \<Rightarrow> bool" where
  "IsCatalogRelation rel = IsCatalogRelationOid (rd_id rel)"

definition RelationIsPermanent :: "RelationData \<Rightarrow> bool" where
  "RelationIsPermanent rel \<longleftrightarrow> relpersistence rel = CHR ''p''"

definition RelationNeedsWAL :: "WalLevel \<Rightarrow> RelationData \<Rightarrow> bool" where
  "RelationNeedsWAL wal rel \<longleftrightarrow> RelationIsPermanent rel \<and>
     (XLogIsNeeded wal \<or> rd_createSubid rel = 0 \<and> rd_firstRelfilelocatorSubid rel = 0)"

definition RelationIsUsedAsCatalogTable :: "RelationData \<Rightarrow> bool" where
  "RelationIsUsedAsCatalogTable rel \<longleftrightarrow>
     (case user_catalog_table rel of
        None \<Rightarrow> False
      | Some opt \<Rightarrow> (relkind rel = CHR ''r'' \<or> relkind rel = CHR ''m'') \<and> opt)"

definition RelationIsAccessibleInLogicalDecoding :: "WalLevel \<Rightarrow> RelationData \<Rightarrow> bool" where
  "RelationIsAccessibleInLogicalDecoding wal rel \<longleftrightarrow> XLogLogicalInfoActive wal \<and> RelationNeedsWAL wal rel \<and>
     (IsCatalogRelation rel \<or> RelationIsUsedAsCatalogTable rel)"

definition RELATION_IS_LOCAL :: "RelationData \<Rightarrow> bool" where
  "RELATION_IS_LOCAL rel \<longleftrightarrow> rd_islocaltemp rel \<or> rd_createSubid rel \<noteq> 0"

definition GlobalVisHorizonKindForRel :: "WalLevel \<Rightarrow> bool \<Rightarrow> RelationData option \<Rightarrow> GlobalVisHorizonKind" where
  "GlobalVisHorizonKindForRel wal in_recovery rel =
     (case rel of
        None \<Rightarrow> VISHORIZON_SHARED
      | Some r \<Rightarrow>
          if relisshared r \<or> in_recovery then VISHORIZON_SHARED
          else if IsCatalogRelation r \<or> RelationIsAccessibleInLogicalDecoding wal r then VISHORIZON_CATALOG
          else if \<not> RELATION_IS_LOCAL r then VISHORIZON_DATA
          else VISHORIZON_TEMP)"

subsection \<open>Computing the horizons\<close>

text \<open>The body of the loop over the array, at one index.\<close>

definition horizon_proc ::
  "bool \<Rightarrow> Oid \<Rightarrow> ProcArrayStruct \<Rightarrow> nat \<Rightarrow> ComputeXidHorizonsResult \<Rightarrow> ComputeXidHorizonsResult" where
  "horizon_proc in_recovery myDatabaseId s index h =
     (let proc = allProcs s (pgprocnos s ! index);
          flags = g_statusFlags s ! index;
          xid = g_xids s ! index;
          xmin = TransactionIdOlder (p_xmin proc) xid
      in if \<not> TransactionIdIsValid xmin then h
         else
           (let h = h\<lparr>oldest_considered_running := TransactionIdOlder (oldest_considered_running h) xmin\<rparr>
            in if flags AND (PROC_IN_VACUUM OR PROC_IN_LOGICAL_DECODING) \<noteq> 0 then h
               else
                 (let h = h\<lparr>shared_oldest_nonremovable := TransactionIdOlder (shared_oldest_nonremovable h) xmin\<rparr>
                  in if databaseId proc = myDatabaseId \<or> myDatabaseId = 0
                        \<or> flags AND PROC_AFFECTS_ALL_HORIZONS \<noteq> 0 \<or> in_recovery
                     then h\<lparr>data_oldest_nonremovable := TransactionIdOlder (data_oldest_nonremovable h) xmin\<rparr>
                     else h)))"

definition GlobalVisUpdateApply :: "ComputeXidHorizonsResult \<Rightarrow> VisBackend \<Rightarrow> VisBackend" where
  "GlobalVisUpdateApply h be =
     (let full = FullXidRelativeTo (latest_completed h);
          shared_maybe = full (shared_oldest_nonremovable h);
          catalog_maybe = full (catalog_oldest_nonremovable h);
          data_maybe = full (data_oldest_nonremovable h);
          temp_maybe = full (temp_oldest_nonremovable h)
      in be\<lparr>GlobalVisSharedRels := \<lparr>definitely_needed =
               FullTransactionIdNewer shared_maybe (definitely_needed (GlobalVisSharedRels be)),
             maybe_needed = shared_maybe\<rparr>,
           GlobalVisCatalogRels := \<lparr>definitely_needed =
               FullTransactionIdNewer catalog_maybe (definitely_needed (GlobalVisCatalogRels be)),
             maybe_needed = catalog_maybe\<rparr>,
           GlobalVisDataRels := \<lparr>definitely_needed =
               FullTransactionIdNewer data_maybe (definitely_needed (GlobalVisDataRels be)),
             maybe_needed = data_maybe\<rparr>,
           GlobalVisTempRels := \<lparr>definitely_needed = temp_maybe, maybe_needed = temp_maybe\<rparr>,
           ComputeXidHorizonsResultLastXmin := RecentXmin be\<rparr>)"

definition initial_horizons :: "nat \<Rightarrow> ProcArrayStruct \<Rightarrow> ComputeXidHorizonsResult" where
  "initial_horizons p s =
     (let latest = latestCompletedXid (pa_shared s);
          initial = TransactionIdAdvance (XidFromFullTransactionId latest);
          myxid = p_xid (allProcs s p)
      in \<lparr>latest_completed = latest, slot_xmin = replication_slot_xmin s,
          slot_catalog_xmin = replication_slot_catalog_xmin s, oldest_considered_running = initial,
          shared_oldest_nonremovable = initial, shared_oldest_nonremovable_raw = initial,
          catalog_oldest_nonremovable = InvalidTransactionId, data_oldest_nonremovable = initial,
          temp_oldest_nonremovable = (if TransactionIdIsValid myxid then myxid else initial)\<rparr>)"

definition recovery_horizons :: "ProcArrayStruct \<Rightarrow> ComputeXidHorizonsResult \<Rightarrow> ComputeXidHorizonsResult" where
  "recovery_horizons s h =
     (let kaxmin = KnownAssignedXidsGetOldestXmin (pa_known s)
      in h\<lparr>oldest_considered_running := TransactionIdOlder (oldest_considered_running h) kaxmin,
           shared_oldest_nonremovable := TransactionIdOlder (shared_oldest_nonremovable h) kaxmin,
           data_oldest_nonremovable := TransactionIdOlder (data_oldest_nonremovable h) kaxmin\<rparr>)"

definition slot_horizons :: "ComputeXidHorizonsResult \<Rightarrow> ComputeXidHorizonsResult" where
  "slot_horizons h =
     (let shared_raw = TransactionIdOlder (shared_oldest_nonremovable h) (slot_xmin h);
          data = TransactionIdOlder (data_oldest_nonremovable h) (slot_xmin h);
          shared = TransactionIdOlder shared_raw (slot_catalog_xmin h);
          catalog = TransactionIdOlder data (slot_catalog_xmin h);
          running = TransactionIdOlder (oldest_considered_running h) shared;
          running = TransactionIdOlder running catalog;
          running = TransactionIdOlder running data
      in h\<lparr>oldest_considered_running := running, shared_oldest_nonremovable := shared,
           shared_oldest_nonremovable_raw := shared_raw, catalog_oldest_nonremovable := catalog,
           data_oldest_nonremovable := data\<rparr>)"

definition ComputeXidHorizons ::
  "bool \<Rightarrow> ProcArrayStruct \<Rightarrow> VisBackend \<Rightarrow> ComputeXidHorizonsResult \<times> VisBackend" where
  "ComputeXidHorizons in_recovery s be =
     (let h = initial_horizons (MyProcNo be) s;
          h = fold (horizon_proc in_recovery (MyDatabaseId be) s) [0 ..< length (pgprocnos s)] h;
          h = (if in_recovery then recovery_horizons s h else h);
          h = slot_horizons h
      in (h, GlobalVisUpdateApply h be))"

definition GetOldestNonRemovableTransactionId ::
  "WalLevel \<Rightarrow> bool \<Rightarrow> RelationData option \<Rightarrow> ProcArrayStruct \<Rightarrow> VisBackend \<Rightarrow> TransactionId \<times> VisBackend" where
  "GetOldestNonRemovableTransactionId wal in_recovery rel s be =
     (let (h, be) = ComputeXidHorizons in_recovery s be
      in (case GlobalVisHorizonKindForRel wal in_recovery rel of
            VISHORIZON_SHARED \<Rightarrow> shared_oldest_nonremovable h
          | VISHORIZON_CATALOG \<Rightarrow> catalog_oldest_nonremovable h
          | VISHORIZON_DATA \<Rightarrow> data_oldest_nonremovable h
          | VISHORIZON_TEMP \<Rightarrow> temp_oldest_nonremovable h, be))"

definition GetOldestTransactionIdConsideredRunning ::
  "bool \<Rightarrow> ProcArrayStruct \<Rightarrow> VisBackend \<Rightarrow> TransactionId \<times> VisBackend" where
  "GetOldestTransactionIdConsideredRunning in_recovery s be =
     (let (h, be) = ComputeXidHorizons in_recovery s be in (oldest_considered_running h, be))"

definition GetReplicationHorizons ::
  "bool \<Rightarrow> ProcArrayStruct \<Rightarrow> VisBackend \<Rightarrow> (TransactionId \<times> TransactionId) \<times> VisBackend" where
  "GetReplicationHorizons in_recovery s be =
     (let (h, be) = ComputeXidHorizons in_recovery s be
      in ((shared_oldest_nonremovable_raw h, slot_catalog_xmin h), be))"

definition ProcArraySetReplicationSlotXmin ::
  "TransactionId \<Rightarrow> TransactionId \<Rightarrow> ProcArrayStruct \<Rightarrow> ProcArrayStruct" where
  "ProcArraySetReplicationSlotXmin xmin catalog_xmin s =
     s\<lparr>replication_slot_xmin := xmin, replication_slot_catalog_xmin := catalog_xmin\<rparr>"

definition ProcArrayGetReplicationSlotXmin :: "ProcArrayStruct \<Rightarrow> TransactionId \<times> TransactionId" where
  "ProcArrayGetReplicationSlotXmin s = (replication_slot_xmin s, replication_slot_catalog_xmin s)"

subsection \<open>The approximate horizons\<close>

text \<open>\<open>GlobalVisTestFor\<close> returns a pointer to one of the four states: here its kind names it.\<close>

fun vis_state :: "GlobalVisHorizonKind \<Rightarrow> VisBackend \<Rightarrow> GlobalVisState" where
  "vis_state VISHORIZON_SHARED be = GlobalVisSharedRels be" |
  "vis_state VISHORIZON_CATALOG be = GlobalVisCatalogRels be" |
  "vis_state VISHORIZON_DATA be = GlobalVisDataRels be" |
  "vis_state VISHORIZON_TEMP be = GlobalVisTempRels be"

definition GlobalVisTestFor :: "WalLevel \<Rightarrow> bool \<Rightarrow> RelationData option \<Rightarrow> GlobalVisHorizonKind" where
  "GlobalVisTestFor wal in_recovery rel = GlobalVisHorizonKindForRel wal in_recovery rel"

definition GlobalVisTestShouldUpdate :: "GlobalVisState \<Rightarrow> VisBackend \<Rightarrow> bool" where
  "GlobalVisTestShouldUpdate state be \<longleftrightarrow>
     (if \<not> TransactionIdIsValid (ComputeXidHorizonsResultLastXmin be) then True
      else if FullTransactionIdFollowsOrEquals (maybe_needed state) (definitely_needed state) then False
      else RecentXmin be \<noteq> ComputeXidHorizonsResultLastXmin be)"

definition GlobalVisUpdate :: "bool \<Rightarrow> ProcArrayStruct \<Rightarrow> VisBackend \<Rightarrow> VisBackend" where
  "GlobalVisUpdate in_recovery s be = snd (ComputeXidHorizons in_recovery s be)"

definition GlobalVisTestIsRemovableFullXid ::
  "bool \<Rightarrow> GlobalVisHorizonKind \<Rightarrow> FullTransactionId \<Rightarrow> ProcArrayStruct \<Rightarrow> VisBackend \<Rightarrow> bool \<times> VisBackend" where
  "GlobalVisTestIsRemovableFullXid in_recovery kind fxid s be =
     (let state = vis_state kind be
      in if FullTransactionIdPrecedes fxid (maybe_needed state) then (True, be)
         else if FullTransactionIdFollowsOrEquals fxid (definitely_needed state) then (False, be)
         else if GlobalVisTestShouldUpdate state be then
           (let be = GlobalVisUpdate in_recovery s be
            in (FullTransactionIdPrecedes fxid (maybe_needed (vis_state kind be)), be))
         else (False, be))"

definition GlobalVisTestIsRemovableXid ::
  "bool \<Rightarrow> GlobalVisHorizonKind \<Rightarrow> TransactionId \<Rightarrow> ProcArrayStruct \<Rightarrow> VisBackend \<Rightarrow> bool \<times> VisBackend" where
  "GlobalVisTestIsRemovableXid in_recovery kind xid s be =
     GlobalVisTestIsRemovableFullXid in_recovery kind
       (FullXidRelativeTo (definitely_needed (vis_state kind be)) xid) s be"

definition GlobalVisTestNonRemovableFullHorizon ::
  "bool \<Rightarrow> GlobalVisHorizonKind \<Rightarrow> ProcArrayStruct \<Rightarrow> VisBackend \<Rightarrow> FullTransactionId \<times> VisBackend" where
  "GlobalVisTestNonRemovableFullHorizon in_recovery kind s be =
     (let be = (if GlobalVisTestShouldUpdate (vis_state kind be) be then GlobalVisUpdate in_recovery s be else be)
      in (maybe_needed (vis_state kind be), be))"

definition GlobalVisTestNonRemovableHorizon ::
  "bool \<Rightarrow> GlobalVisHorizonKind \<Rightarrow> ProcArrayStruct \<Rightarrow> VisBackend \<Rightarrow> TransactionId \<times> VisBackend" where
  "GlobalVisTestNonRemovableHorizon in_recovery kind s be =
     (let (cutoff, be) = GlobalVisTestNonRemovableFullHorizon in_recovery kind s be
      in (XidFromFullTransactionId cutoff, be))"

definition GlobalVisCheckRemovableFullXid ::
  "WalLevel \<Rightarrow> bool \<Rightarrow> RelationData option \<Rightarrow> FullTransactionId \<Rightarrow> ProcArrayStruct \<Rightarrow> VisBackend \<Rightarrow> bool \<times> VisBackend" where
  "GlobalVisCheckRemovableFullXid wal in_recovery rel fxid s be =
     GlobalVisTestIsRemovableFullXid in_recovery (GlobalVisTestFor wal in_recovery rel) fxid s be"

definition GlobalVisCheckRemovableXid ::
  "WalLevel \<Rightarrow> bool \<Rightarrow> RelationData option \<Rightarrow> TransactionId \<Rightarrow> ProcArrayStruct \<Rightarrow> VisBackend \<Rightarrow> bool \<times> VisBackend" where
  "GlobalVisCheckRemovableXid wal in_recovery rel xid s be =
     GlobalVisTestIsRemovableXid in_recovery (GlobalVisTestFor wal in_recovery rel) xid s be"

subsection \<open>The oldest id of a set\<close>

text \<open>
  Within half a circle starting at \<open>b\<close> the ids of a set have an oldest one; the invalid id stands for
  the empty set. \<open>TransactionIdOlder\<close> is the union of such sets.
\<close>

definition oldest_in :: "TransactionId \<Rightarrow> TransactionId set \<Rightarrow> TransactionId \<Rightarrow> bool" where
  "oldest_in b S x \<longleftrightarrow> S \<subseteq> xid_window b \<and>
     (if S = {} then x = InvalidTransactionId else x \<in> S \<and> (\<forall>y\<in>S. unat (x - b) \<le> unat (y - b)))"

definition valid_id :: "TransactionId \<Rightarrow> TransactionId set" where
  "valid_id x = (if TransactionIdIsValid x then {x} else {})"

lemma valid_id_0 [simp]: "valid_id InvalidTransactionId = {}"
  by (simp add: valid_id_def TransactionIdIsValid_def)

lemma window_valid: "x \<in> xid_window b \<Longrightarrow> TransactionIdIsValid x"
  by (auto simp: TransactionIdIsValid_def InvalidTransactionId_def xid_window_def TransactionIdIsNormal_def
      FirstNormalTransactionId_def)

lemma oldest_in_valid: "oldest_in b S x \<Longrightarrow> TransactionIdIsValid x \<longleftrightarrow> S \<noteq> {}"
  using window_valid by (auto simp: oldest_in_def TransactionIdIsValid_def split: if_splits)

lemma oldest_inD: "oldest_in b S x \<Longrightarrow> y \<in> S \<Longrightarrow> x \<in> S \<and> unat (x - b) \<le> unat (y - b)"
  by (auto simp: oldest_in_def split: if_splits)

lemma oldest_in_single: "x \<in> xid_window b \<Longrightarrow> oldest_in b {x} x"
  by (simp add: oldest_in_def)

lemma oldest_in_valid_id: "valid_id x \<subseteq> xid_window b \<Longrightarrow> oldest_in b (valid_id x) x"
  by (auto simp: oldest_in_def valid_id_def TransactionIdIsValid_def)

lemma oldest_in_mono:
  assumes "oldest_in b S x" and "oldest_in b T y" and "S \<subseteq> T" and "S \<noteq> {}"
  shows "unat (y - b) \<le> unat (x - b)"
  using assms by (auto simp: oldest_in_def split: if_splits)

lemma oldest_in_precedes:
  assumes "oldest_in b S x" and "oldest_in b T y" and "S \<subseteq> T" and "S \<noteq> {}"
  shows "TransactionIdPrecedesOrEquals y x"
proof -
  have "x \<in> xid_window b" "y \<in> xid_window b" using assms by (auto simp: oldest_in_def split: if_splits)
  then show ?thesis using oldest_in_mono [OF assms] by (simp add: precedes_or_equals_window)
qed

lemma oldest_in_older:
  assumes "oldest_in b S x" and "oldest_in b T y"
  shows "oldest_in b (S \<union> T) (TransactionIdOlder x y)"
proof (cases "S = {} \<or> T = {}")
  case True
  then show ?thesis
    using assms oldest_in_valid [OF assms(1)] oldest_in_valid [OF assms(2)]
    by (auto simp: TransactionIdOlder_def oldest_in_def split: if_splits)
next
  case False
  then have v: "x \<in> xid_window b" "y \<in> xid_window b" "x \<in> S" "y \<in> T"
    and S: "S \<subseteq> xid_window b" "\<And>z. z \<in> S \<Longrightarrow> unat (x - b) \<le> unat (z - b)"
    and T: "T \<subseteq> xid_window b" "\<And>z. z \<in> T \<Longrightarrow> unat (y - b) \<le> unat (z - b)"
    using assms by (auto simp: oldest_in_def)
  have "TransactionIdOlder x y = (if unat (x - b) < unat (y - b) then x else y)"
    using v window_valid by (simp add: TransactionIdOlder_def precedes_window)
  moreover have "unat (x - b) \<le> unat (z - b)" if "z \<in> S \<union> T" "unat (x - b) < unat (y - b)" for z
    using that S(2) T(2) [of z] by auto
  moreover have "unat (y - b) \<le> unat (z - b)" if "z \<in> S \<union> T" "\<not> unat (x - b) < unat (y - b)" for z
    using that S(2) [of z] T(2) by auto
  ultimately show ?thesis using False v(3,4) S(1) T(1) unfolding oldest_in_def by (auto split: if_splits)
qed

lemma oldest_in_older_absorb:
  assumes "oldest_in b S x" and "oldest_in b T y" and "T \<subseteq> S"
  shows "oldest_in b S (TransactionIdOlder x y)"
  using oldest_in_older [OF assms(1,2)] assms(3) by (simp add: Un_absorb2)

lemma oldest_in_known:
  assumes "ka_inv b ka"
  shows "oldest_in b (set (ka_list ka)) (KnownAssignedXidsGetOldestXmin ka)"
proof (cases "ka_list ka")
  case Nil
  then show ?thesis by (simp add: ka_tail_first [OF assms] oldest_in_def)
next
  case (Cons x xs)
  have wf: "ka_wf b ka" using assms by (simp add: ka_inv_def)
  have w: "x \<in> xid_window b" "set xs \<subseteq> xid_window b" using ka_list_window [OF wf] Cons by simp_all
  have "unat (x - b) \<le> unat (y - b)" if "y \<in> set xs" for y
    using ka_list_sorted [OF wf] that w(2) precedes_window [OF w(1), of y] by (auto simp: Cons)
  then show ?thesis using Cons w by (simp add: ka_tail_first [OF assms] oldest_in_def)
qed

subsection \<open>What each horizon is the oldest of\<close>

definition next_completed :: "ProcArrayStruct \<Rightarrow> TransactionId" where
  "next_completed s = TransactionIdAdvance (XidFromFullTransactionId (latestCompletedXid (pa_shared s)))"

definition held_ids :: "ProcEntry \<Rightarrow> TransactionId set" where
  "held_ids proc = valid_id (p_xmin proc) \<union> valid_id (p_xid proc)"

definition skips_horizon :: "ProcEntry \<Rightarrow> bool" where
  "skips_horizon proc \<longleftrightarrow> statusFlags proc AND (PROC_IN_VACUUM OR PROC_IN_LOGICAL_DECODING) \<noteq> 0"

definition in_my_horizon :: "bool \<Rightarrow> Oid \<Rightarrow> ProcEntry \<Rightarrow> bool" where
  "in_my_horizon in_recovery myDatabaseId proc \<longleftrightarrow> databaseId proc = myDatabaseId \<or> myDatabaseId = 0
     \<or> statusFlags proc AND PROC_AFFECTS_ALL_HORIZONS \<noteq> 0 \<or> in_recovery"

definition backend_ids :: "(ProcEntry \<Rightarrow> bool) \<Rightarrow> ProcArrayStruct \<Rightarrow> TransactionId set" where
  "backend_ids P s = (\<Union>p \<in> {p \<in> set (pgprocnos s). P (allProcs s p)}. held_ids (allProcs s p))"

definition horizon_ids :: "bool \<Rightarrow> (ProcEntry \<Rightarrow> bool) \<Rightarrow> ProcArrayStruct \<Rightarrow> TransactionId set" where
  "horizon_ids in_recovery P s =
     {next_completed s} \<union> backend_ids P s \<union> (if in_recovery then set (ka_list (pa_known s)) else {})"

text \<open>The ids that rows of a kind of relation must be kept for, according to a backend.\<close>

fun needed_ids :: "bool \<Rightarrow> VisBackend \<Rightarrow> GlobalVisHorizonKind \<Rightarrow> ProcArrayStruct \<Rightarrow> TransactionId set" where
  "needed_ids in_recovery be VISHORIZON_SHARED s =
     horizon_ids in_recovery (\<lambda>proc. \<not> skips_horizon proc) s
       \<union> valid_id (replication_slot_xmin s) \<union> valid_id (replication_slot_catalog_xmin s)" |
  "needed_ids in_recovery be VISHORIZON_CATALOG s =
     horizon_ids in_recovery (\<lambda>proc. \<not> skips_horizon proc \<and> in_my_horizon in_recovery (MyDatabaseId be) proc) s
       \<union> valid_id (replication_slot_xmin s) \<union> valid_id (replication_slot_catalog_xmin s)" |
  "needed_ids in_recovery be VISHORIZON_DATA s =
     horizon_ids in_recovery (\<lambda>proc. \<not> skips_horizon proc \<and> in_my_horizon in_recovery (MyDatabaseId be) proc) s
       \<union> valid_id (replication_slot_xmin s)" |
  "needed_ids in_recovery be VISHORIZON_TEMP s =
     (let myxid = p_xid (allProcs s (MyProcNo be))
      in if TransactionIdIsValid myxid then {myxid} else {next_completed s})"

fun kind_horizon :: "GlobalVisHorizonKind \<Rightarrow> ComputeXidHorizonsResult \<Rightarrow> TransactionId" where
  "kind_horizon VISHORIZON_SHARED h = shared_oldest_nonremovable h" |
  "kind_horizon VISHORIZON_CATALOG h = catalog_oldest_nonremovable h" |
  "kind_horizon VISHORIZON_DATA h = data_oldest_nonremovable h" |
  "kind_horizon VISHORIZON_TEMP h = temp_oldest_nonremovable h"

definition considered_running_ids :: "bool \<Rightarrow> ProcArrayStruct \<Rightarrow> TransactionId set" where
  "considered_running_ids in_recovery s = horizon_ids in_recovery (\<lambda>_. True) s
     \<union> valid_id (replication_slot_xmin s) \<union> valid_id (replication_slot_catalog_xmin s)"

text \<open>What the computation relies on: all these ids are within half a circle of each other.\<close>

definition horizon_inv :: "TransactionId \<Rightarrow> bool \<Rightarrow> ProcArrayStruct \<Rightarrow> bool" where
  "horizon_inv b in_recovery s \<longleftrightarrow> pa_inv s \<and> considered_running_ids in_recovery s \<subseteq> xid_window b
     \<and> (in_recovery \<longrightarrow> ka_inv b (pa_known s))"

definition index_ids :: "(ProcEntry \<Rightarrow> bool) \<Rightarrow> ProcArrayStruct \<Rightarrow> nat list \<Rightarrow> TransactionId set" where
  "index_ids P s is = (\<Union>i \<in> {i \<in> set is. P (allProcs s (pgprocnos s ! i))}. held_ids (allProcs s (pgprocnos s ! i)))"

lemma index_ids_all: "index_ids P s [0 ..< length (pgprocnos s)] = backend_ids P s"
  unfolding index_ids_def backend_ids_def by (auto simp: in_set_conv_nth)

lemma index_ids_Cons:
  "index_ids P s (i # is) = (if P (allProcs s (pgprocnos s ! i)) then held_ids (allProcs s (pgprocnos s ! i)) else {})
     \<union> index_ids P s is"
  by (auto simp: index_ids_def)

text \<open>The fields that the loop leaves alone.\<close>

definition horizon_frame ::
  "ComputeXidHorizonsResult \<Rightarrow> FullTransactionId \<times> TransactionId \<times> TransactionId \<times> TransactionId" where
  "horizon_frame h = (latest_completed h, slot_xmin h, slot_catalog_xmin h, temp_oldest_nonremovable h)"

lemma horizon_proc_oldest:
  fixes in_recovery db
  assumes "pa_inv s" and "i < length (pgprocnos s)" and "held_ids (allProcs s (pgprocnos s ! i)) \<subseteq> xid_window b"
    and "oldest_in b R (oldest_considered_running h)" and "oldest_in b S (shared_oldest_nonremovable h)"
    and "oldest_in b D (data_oldest_nonremovable h)"
  defines "proc \<equiv> allProcs s (pgprocnos s ! i)" and "h' \<equiv> horizon_proc in_recovery db s i h"
  shows "oldest_in b (R \<union> held_ids proc) (oldest_considered_running h')"
    and "oldest_in b (S \<union> (if \<not> skips_horizon proc then held_ids proc else {})) (shared_oldest_nonremovable h')"
    and "oldest_in b (D \<union> (if \<not> skips_horizon proc \<and> in_my_horizon in_recovery db proc then held_ids proc else {}))
      (data_oldest_nonremovable h')"
    and "horizon_frame h' = horizon_frame h"
proof -
  have mirror: "g_xids s ! i = p_xid proc" "g_statusFlags s ! i = statusFlags proc"
    using assms(1,2) by (simp_all add: pa_inv_def proc_def)
  define x where "x = TransactionIdOlder (p_xmin proc) (p_xid proc)"
  have x: "oldest_in b (held_ids proc) x"
    unfolding held_ids_def x_def using assms(3)
    by (intro oldest_in_older oldest_in_valid_id) (auto simp: held_ids_def proc_def)
  have h': "h' = (if held_ids proc = {} then h
      else (let h = h\<lparr>oldest_considered_running := TransactionIdOlder (oldest_considered_running h) x\<rparr>
            in if skips_horizon proc then h
               else (let h = h\<lparr>shared_oldest_nonremovable := TransactionIdOlder (shared_oldest_nonremovable h) x\<rparr>
                     in if in_my_horizon in_recovery db proc
                        then h\<lparr>data_oldest_nonremovable := TransactionIdOlder (data_oldest_nonremovable h) x\<rparr>
                        else h)))"
    using oldest_in_valid [OF x] unfolding h'_def horizon_proc_def Let_def mirror proc_def [symmetric] x_def [symmetric]
      skips_horizon_def [symmetric] in_my_horizon_def [symmetric] by simp
  show "oldest_in b (R \<union> held_ids proc) (oldest_considered_running h')"
    using assms(4) oldest_in_older [OF assms(4) x] by (simp add: h' Let_def)
  show "oldest_in b (S \<union> (if \<not> skips_horizon proc then held_ids proc else {})) (shared_oldest_nonremovable h')"
    using assms(5) oldest_in_older [OF assms(5) x] by (simp add: h' Let_def)
  show "oldest_in b (D \<union> (if \<not> skips_horizon proc \<and> in_my_horizon in_recovery db proc then held_ids proc else {}))
      (data_oldest_nonremovable h')"
    using assms(6) oldest_in_older [OF assms(6) x] by (simp add: h' Let_def)
  show "horizon_frame h' = horizon_frame h"
    by (simp add: h' Let_def horizon_frame_def)
qed

lemma horizon_loop_oldest:
  fixes in_recovery db
  assumes "pa_inv s" and "set is \<subseteq> {..< length (pgprocnos s)}" and "index_ids (\<lambda>_. True) s is \<subseteq> xid_window b"
    and "oldest_in b R (oldest_considered_running h)" and "oldest_in b S (shared_oldest_nonremovable h)"
    and "oldest_in b D (data_oldest_nonremovable h)"
  defines "h' \<equiv> fold (horizon_proc in_recovery db s) is h"
  shows "oldest_in b (R \<union> index_ids (\<lambda>_. True) s is) (oldest_considered_running h')
    \<and> oldest_in b (S \<union> index_ids (\<lambda>proc. \<not> skips_horizon proc) s is) (shared_oldest_nonremovable h')
    \<and> oldest_in b (D \<union> index_ids (\<lambda>proc. \<not> skips_horizon proc \<and> in_my_horizon in_recovery db proc) s is)
        (data_oldest_nonremovable h')
    \<and> horizon_frame h' = horizon_frame h"
  using assms(2-6) unfolding h'_def
proof (induction "is" arbitrary: h R S D)
  case Nil
  then show ?case by (simp add: index_ids_def)
next
  case (Cons i "is")
  define h1 where "h1 = horizon_proc in_recovery db s i h"
  have i: "i < length (pgprocnos s)" "held_ids (allProcs s (pgprocnos s ! i)) \<subseteq> xid_window b"
    using Cons.prems(1,2) by (simp_all add: index_ids_Cons)
  note step = horizon_proc_oldest [OF assms(1) i Cons.prems(3-5), of in_recovery db, folded h1_def]
  have rest: "set is \<subseteq> {..< length (pgprocnos s)}" "index_ids (\<lambda>_. True) s is \<subseteq> xid_window b"
    using Cons.prems(1,2) by (simp_all add: index_ids_Cons)
  note IH = Cons.IH [OF rest step(1-3)]
  have "fold (horizon_proc in_recovery db s) (i # is) h = fold (horizon_proc in_recovery db s) is h1"
    by (simp add: h1_def)
  moreover note IH
  ultimately show ?case using step(4) by (simp add: index_ids_Cons Un_assoc)
qed

lemma needed_subset:
  "needed_ids in_recovery be VISHORIZON_SHARED s \<subseteq> considered_running_ids in_recovery s"
  "needed_ids in_recovery be VISHORIZON_CATALOG s \<subseteq> needed_ids in_recovery be VISHORIZON_SHARED s"
  "needed_ids in_recovery be VISHORIZON_DATA s \<subseteq> needed_ids in_recovery be VISHORIZON_CATALOG s"
  by (auto simp: considered_running_ids_def horizon_ids_def backend_ids_def)

lemma needed_temp_subset:
  "MyProcNo be \<in> set (pgprocnos s) \<Longrightarrow> needed_ids in_recovery be VISHORIZON_TEMP s \<subseteq> considered_running_ids in_recovery s"
  by (auto simp: considered_running_ids_def horizon_ids_def backend_ids_def held_ids_def valid_id_def Let_def)

lemma needed_temp_shared:
  "MyProcNo be \<in> set (pgprocnos s) \<Longrightarrow> \<not> skips_horizon (allProcs s (MyProcNo be)) \<Longrightarrow>
    needed_ids in_recovery be VISHORIZON_TEMP s \<subseteq> needed_ids in_recovery be VISHORIZON_SHARED s"
  by (auto simp: horizon_ids_def backend_ids_def held_ids_def valid_id_def Let_def)

lemma needed_nonempty: "needed_ids in_recovery be k s \<noteq> {}"
  by (cases k) (auto simp: horizon_ids_def Let_def)

text \<open>The three accumulators before the replication slots are applied.\<close>

lemma horizons_before_slots:
  fixes in_recovery be
  assumes "horizon_inv b in_recovery s"
  defines "data \<equiv> \<lambda>proc. \<not> skips_horizon proc \<and> in_my_horizon in_recovery (MyDatabaseId be) proc"
  obtains h where "ComputeXidHorizons in_recovery s be = (slot_horizons h, GlobalVisUpdateApply (slot_horizons h) be)"
    and "oldest_in b (horizon_ids in_recovery (\<lambda>_. True) s) (oldest_considered_running h)"
    and "oldest_in b (horizon_ids in_recovery (\<lambda>proc. \<not> skips_horizon proc) s) (shared_oldest_nonremovable h)"
    and "oldest_in b (horizon_ids in_recovery data s) (data_oldest_nonremovable h)"
    and "horizon_frame h = horizon_frame (initial_horizons (MyProcNo be) s)"
proof -
  let ?h0 = "initial_horizons (MyProcNo be) s"
  define h1 where "h1 = fold (horizon_proc in_recovery (MyDatabaseId be) s) [0 ..< length (pgprocnos s)] ?h0"
  define h where "h = (if in_recovery then recovery_horizons s h1 else h1)"
  define K where "K = (if in_recovery then set (ka_list (pa_known s)) else {})"
  have inv: "pa_inv s" "next_completed s \<in> xid_window b" "backend_ids (\<lambda>_. True) s \<subseteq> xid_window b"
    using assms(1) by (auto simp: horizon_inv_def considered_running_ids_def horizon_ids_def)
  have start: "oldest_in b {next_completed s} (oldest_considered_running ?h0)"
    "oldest_in b {next_completed s} (shared_oldest_nonremovable ?h0)"
    "oldest_in b {next_completed s} (data_oldest_nonremovable ?h0)"
    using oldest_in_single [OF inv(2)] by (simp_all add: initial_horizons_def next_completed_def Let_def)
  have rng: "set [0 ..< length (pgprocnos s)] \<subseteq> {..< length (pgprocnos s)}"
    "index_ids (\<lambda>_. True) s [0 ..< length (pgprocnos s)] \<subseteq> xid_window b"
    using inv(3) by (auto simp: index_ids_all)
  note l = horizon_loop_oldest [OF inv(1) rng start, of in_recovery "MyDatabaseId be", folded h1_def, unfolded index_ids_all]
  have ka: "oldest_in b K (KnownAssignedXidsGetOldestXmin (pa_known s))" if in_recovery
    using assms(1) that oldest_in_known by (simp add: K_def horizon_inv_def)
  have add: "oldest_in b (S \<union> K) (if in_recovery then TransactionIdOlder x (KnownAssignedXidsGetOldestXmin (pa_known s)) else x)"
    if "oldest_in b S x" for S x
    using that oldest_in_older [OF that ka] by (auto simp: K_def)
  have fields: "oldest_considered_running h = (if in_recovery
        then TransactionIdOlder (oldest_considered_running h1) (KnownAssignedXidsGetOldestXmin (pa_known s)) else oldest_considered_running h1)"
    "shared_oldest_nonremovable h = (if in_recovery
        then TransactionIdOlder (shared_oldest_nonremovable h1) (KnownAssignedXidsGetOldestXmin (pa_known s)) else shared_oldest_nonremovable h1)"
    "data_oldest_nonremovable h = (if in_recovery
        then TransactionIdOlder (data_oldest_nonremovable h1) (KnownAssignedXidsGetOldestXmin (pa_known s)) else data_oldest_nonremovable h1)"
    by (simp_all add: h_def recovery_horizons_def Let_def)
  show thesis
  proof (rule that)
    show "ComputeXidHorizons in_recovery s be = (slot_horizons h, GlobalVisUpdateApply (slot_horizons h) be)"
      by (simp add: ComputeXidHorizons_def h_def h1_def Let_def)
    show "oldest_in b (horizon_ids in_recovery (\<lambda>_. True) s) (oldest_considered_running h)"
      "oldest_in b (horizon_ids in_recovery (\<lambda>proc. \<not> skips_horizon proc) s) (shared_oldest_nonremovable h)"
      "oldest_in b (horizon_ids in_recovery data s) (data_oldest_nonremovable h)"
      using l add unfolding fields horizon_ids_def K_def [symmetric] data_def by blast+
    have "horizon_frame h = horizon_frame h1" by (simp add: h_def recovery_horizons_def horizon_frame_def Let_def)
    then show "horizon_frame h = horizon_frame ?h0" using l by simp
  qed
qed

lemma ComputeXidHorizons_result:
  assumes "horizon_inv b in_recovery s" and "MyProcNo be \<in> set (pgprocnos s)"
    and "ComputeXidHorizons in_recovery s be = (h, be')"
  shows "oldest_in b (considered_running_ids in_recovery s) (oldest_considered_running h)"
    and "oldest_in b (needed_ids in_recovery be k s) (kind_horizon k h)"
    and "oldest_in b (horizon_ids in_recovery (\<lambda>proc. \<not> skips_horizon proc) s \<union> valid_id (replication_slot_xmin s))
      (shared_oldest_nonremovable_raw h)"
    and "latest_completed h = latestCompletedXid (pa_shared s)" and "be' = GlobalVisUpdateApply h be"
proof -
  obtain g where e: "ComputeXidHorizons in_recovery s be = (slot_horizons g, GlobalVisUpdateApply (slot_horizons g) be)"
    and o: "oldest_in b (horizon_ids in_recovery (\<lambda>_. True) s) (oldest_considered_running g)"
      "oldest_in b (horizon_ids in_recovery (\<lambda>proc. \<not> skips_horizon proc) s) (shared_oldest_nonremovable g)"
      "oldest_in b (horizon_ids in_recovery (\<lambda>proc. \<not> skips_horizon proc \<and> in_my_horizon in_recovery (MyDatabaseId be) proc) s)
        (data_oldest_nonremovable g)"
    and frame: "horizon_frame g = horizon_frame (initial_horizons (MyProcNo be) s)"
    by (rule horizons_before_slots [OF assms(1), of be])
  have g: "h = slot_horizons g" "be' = GlobalVisUpdateApply (slot_horizons g) be" using e assms(3) by simp_all
  have f: "latest_completed g = latestCompletedXid (pa_shared s)" "slot_xmin g = replication_slot_xmin s"
    "slot_catalog_xmin g = replication_slot_catalog_xmin s"
    "temp_oldest_nonremovable g = (if TransactionIdIsValid (p_xid (allProcs s (MyProcNo be)))
       then p_xid (allProcs s (MyProcNo be)) else next_completed s)"
    using frame by (simp_all add: horizon_frame_def initial_horizons_def next_completed_def Let_def)
  have win: "considered_running_ids in_recovery s \<subseteq> xid_window b" using assms(1) by (simp add: horizon_inv_def)
  have slots: "oldest_in b (valid_id (replication_slot_xmin s)) (slot_xmin g)"
    "oldest_in b (valid_id (replication_slot_catalog_xmin s)) (slot_catalog_xmin g)"
    using win by (simp_all add: f(2,3) oldest_in_valid_id considered_running_ids_def)
  note raw = oldest_in_older [OF o(2) slots(1)]
  note shared = oldest_in_older [OF raw slots(2), folded needed_ids.simps(1) [of _ be]]
  note data = oldest_in_older [OF o(3) slots(1), folded needed_ids.simps(3)]
  note catalog = oldest_in_older [OF data slots(2), unfolded needed_ids.simps(3), folded needed_ids.simps(2)]
  let ?all = "considered_running_ids in_recovery s"
  have all: "horizon_ids in_recovery (\<lambda>_. True) s \<union> needed_ids in_recovery be VISHORIZON_SHARED s = ?all"
    by (auto simp: considered_running_ids_def horizon_ids_def backend_ids_def)
  note r1 = oldest_in_older [OF o(1) shared, unfolded all]
  note r2 = oldest_in_older_absorb [OF r1 catalog subset_trans [OF needed_subset(2,1)]]
  note r3 = oldest_in_older_absorb [OF r2 data subset_trans [OF needed_subset(3) subset_trans [OF needed_subset(2,1)]]]
  show "oldest_in b ?all (oldest_considered_running h)" using r3 by (simp add: g(1) slot_horizons_def Let_def)
  show "oldest_in b (horizon_ids in_recovery (\<lambda>proc. \<not> skips_horizon proc) s \<union> valid_id (replication_slot_xmin s))
      (shared_oldest_nonremovable_raw h)"
    using raw by (simp add: g(1) slot_horizons_def Let_def)
  show "latest_completed h = latestCompletedXid (pa_shared s)" "be' = GlobalVisUpdateApply h be"
    using f g by (simp_all add: slot_horizons_def Let_def)
  have temp: "oldest_in b (needed_ids in_recovery be VISHORIZON_TEMP s) (temp_oldest_nonremovable g)"
    using needed_temp_subset [OF assms(2), of in_recovery] win by (auto simp: f(4) Let_def oldest_in_def)
  show "oldest_in b (needed_ids in_recovery be k s) (kind_horizon k h)"
    using shared catalog data temp by (cases k) (simp_all add: g(1) slot_horizons_def Let_def del: needed_ids.simps)
qed

subsection \<open>Full ids of the window\<close>

text \<open>
  The 64-bit id with which an id of the half circle starting at the 64-bit id \<open>B\<close> was assigned.
\<close>

definition full_of :: "FullTransactionId \<Rightarrow> TransactionId \<Rightarrow> int" where
  "full_of B x = uint (fxid_value B) + int (unat (x - XidFromFullTransactionId B))"

lemma full_of_le: "full_of B x \<le> full_of B y \<longleftrightarrow> unat (x - XidFromFullTransactionId B) \<le> unat (y - XidFromFullTransactionId B)"
  unfolding full_of_def by linarith

lemma full_relative:
  assumes "x \<in> xid_window (XidFromFullTransactionId B)"
    and "uint (fxid_value B) + 2 ^ 31 \<le> 2 ^ 64"
    and "uint (fxid_value B) \<le> uint (fxid_value rel)" and "uint (fxid_value rel) < uint (fxid_value B) + 2 ^ 31"
  shows "uint (fxid_value (FullXidRelativeTo rel x)) = full_of B x"
proof -
  define n where "n = unat (x - XidFromFullTransactionId B)"
  define F where "F = \<lparr>fxid_value = fxid_value B + (of_nat n :: uint64)\<rparr>"
  have n: "n < 2 ^ 31" using assms(1) by (simp add: xid_window_def n_def)
  have v: "uint (fxid_value F) = uint (fxid_value B) + int n"
  proof -
    have "uint (of_nat n :: uint64) = int n" using n by (simp add: unsigned_of_nat take_bit_nat_eq_self)
    then show ?thesis using n assms(2) uint_ge_0 [of "fxid_value B"]
      by (simp only: F_def FullTransactionId.simps uint_word_ariths) simp
  qed
  have "x - XidFromFullTransactionId B = of_nat n" by (simp add: n_def)
  moreover have "XidFromFullTransactionId F - XidFromFullTransactionId B = of_nat n"
    using n by (simp add: F_def XidFromFullTransactionId_def ucast_add_down word_unat_eq_iff unsigned_ucast_eq
        unsigned_of_nat take_bit_nat_eq_self)
  ultimately have "XidFromFullTransactionId F = x" by (metis diff_add_cancel)
  moreover have "\<bar>uint (fxid_value F) - uint (fxid_value rel)\<bar> < 2 ^ 31"
    using n assms(3,4) unfolding v by simp
  ultimately show ?thesis using FullXidRelativeTo_exact [of F rel] v by (simp add: full_of_def n_def)
qed

text \<open>
  The bound \<open>maybe_needed\<close> of a kind of relation is sound when no id that rows of the kind are needed
  for is before it. The newest completed id lies in the half circle that starts at \<open>B\<close>, and the 64-bit ids do not run out there.
\<close>

definition vis_sound ::
  "FullTransactionId \<Rightarrow> bool \<Rightarrow> ProcArrayStruct \<Rightarrow> GlobalVisHorizonKind \<Rightarrow> VisBackend \<Rightarrow> bool" where
  "vis_sound B in_recovery s k be \<longleftrightarrow>
     (\<forall>y \<in> needed_ids in_recovery be k s. uint (fxid_value (maybe_needed (vis_state k be))) \<le> full_of B y)"

definition full_window :: "FullTransactionId \<Rightarrow> bool \<Rightarrow> ProcArrayStruct \<Rightarrow> bool" where
  "full_window B in_recovery s \<longleftrightarrow> horizon_inv (XidFromFullTransactionId B) in_recovery s
     \<and> uint (fxid_value B) + 2 ^ 31 \<le> 2 ^ 64
     \<and> uint (fxid_value B) \<le> uint (fxid_value (latestCompletedXid (pa_shared s)))
     \<and> uint (fxid_value (latestCompletedXid (pa_shared s))) < uint (fxid_value B) + 2 ^ 31"

lemma update_apply_maybe:
  "maybe_needed (vis_state k (GlobalVisUpdateApply h be)) = FullXidRelativeTo (latest_completed h) (kind_horizon k h)"
  by (cases k) (simp_all add: GlobalVisUpdateApply_def Let_def)

lemma update_apply_definitely:
  assumes "k \<noteq> VISHORIZON_TEMP"
  shows "definitely_needed (vis_state k (GlobalVisUpdateApply h be)) =
     FullTransactionIdNewer (FullXidRelativeTo (latest_completed h) (kind_horizon k h)) (definitely_needed (vis_state k be))"
  using assms by (cases k) (simp_all add: GlobalVisUpdateApply_def Let_def)

lemma update_apply_needed: "needed_ids in_recovery (GlobalVisUpdateApply h be) k s = needed_ids in_recovery be k s"
  by (cases k) (simp_all add: GlobalVisUpdateApply_def Let_def)

lemma FullTransactionIdNewer_ge:
  "FullTransactionIdIsValid y \<Longrightarrow> uint (fxid_value y) \<le> uint (fxid_value (FullTransactionIdNewer x y))"
  by (auto simp: FullTransactionIdNewer_def FullTransactionIdFollows_def word_less_def)

text \<open>After an update the bound is exactly the oldest of the ids the rows are needed for.\<close>

lemma GlobalVisUpdate_exact:
  assumes "full_window B in_recovery s" and "MyProcNo be \<in> set (pgprocnos s)"
  defines "be' \<equiv> GlobalVisUpdate in_recovery s be"
  shows "\<exists>x \<in> needed_ids in_recovery be k s. uint (fxid_value (maybe_needed (vis_state k be'))) = full_of B x
      \<and> (\<forall>y \<in> needed_ids in_recovery be k s. full_of B x \<le> full_of B y)"
    and "needed_ids in_recovery be' k s = needed_ids in_recovery be k s"
    and "k \<noteq> VISHORIZON_TEMP \<Longrightarrow> FullTransactionIdIsValid (definitely_needed (vis_state k be)) \<Longrightarrow>
      uint (fxid_value (definitely_needed (vis_state k be))) \<le> uint (fxid_value (definitely_needed (vis_state k be')))"
proof -
  let ?b = "XidFromFullTransactionId B"
  obtain h be1 where e: "ComputeXidHorizons in_recovery s be = (h, be1)" by fastforce
  have w: "horizon_inv ?b in_recovery s" "uint (fxid_value B) + 2 ^ 31 \<le> 2 ^ 64"
    "uint (fxid_value B) \<le> uint (fxid_value (latestCompletedXid (pa_shared s)))"
    "uint (fxid_value (latestCompletedXid (pa_shared s))) < uint (fxid_value B) + 2 ^ 31"
    using assms(1) by (simp_all add: full_window_def)
  note r = ComputeXidHorizons_result [OF w(1) assms(2) e]
  have be': "be' = GlobalVisUpdateApply h be" by (simp add: be'_def GlobalVisUpdate_def e r(5))
  let ?x = "kind_horizon k h"
  have x: "?x \<in> needed_ids in_recovery be k s" "?x \<in> xid_window ?b"
    "\<forall>y \<in> needed_ids in_recovery be k s. unat (?x - ?b) \<le> unat (y - ?b)"
    using r(2) [of k] needed_nonempty [of in_recovery be k s] unfolding oldest_in_def by auto
  have "uint (fxid_value (maybe_needed (vis_state k be'))) = full_of B ?x"
    unfolding be' update_apply_maybe r(4) using full_relative [OF x(2) w(2,3,4)] .
  with x show "\<exists>x \<in> needed_ids in_recovery be k s. uint (fxid_value (maybe_needed (vis_state k be'))) = full_of B x
      \<and> (\<forall>y \<in> needed_ids in_recovery be k s. full_of B x \<le> full_of B y)"
    unfolding full_of_le by (intro bexI [of _ ?x]) auto
  show "needed_ids in_recovery be' k s = needed_ids in_recovery be k s" unfolding be' by (rule update_apply_needed)
  show "uint (fxid_value (definitely_needed (vis_state k be))) \<le> uint (fxid_value (definitely_needed (vis_state k be')))"
    if "k \<noteq> VISHORIZON_TEMP" "FullTransactionIdIsValid (definitely_needed (vis_state k be))"
    unfolding be' update_apply_definitely [OF that(1)] using that(2) by (rule FullTransactionIdNewer_ge)
qed

lemma GlobalVisTest_cases:
  assumes "GlobalVisTestIsRemovableFullXid in_recovery k fxid s be = (removable, be')"
  obtains (before) "FullTransactionIdPrecedes fxid (maybe_needed (vis_state k be))" "removable" "be' = be"
    | (after) "FullTransactionIdFollowsOrEquals fxid (definitely_needed (vis_state k be))" "\<not> removable" "be' = be"
    | (same) "\<not> GlobalVisTestShouldUpdate (vis_state k be) be" "\<not> removable" "be' = be"
    | (update) "\<not> FullTransactionIdFollowsOrEquals fxid (definitely_needed (vis_state k be))"
        "be' = GlobalVisUpdate in_recovery s be" "removable = FullTransactionIdPrecedes fxid (maybe_needed (vis_state k be'))"
proof -
  let ?m = "FullTransactionIdPrecedes fxid (maybe_needed (vis_state k be))"
  let ?d = "FullTransactionIdFollowsOrEquals fxid (definitely_needed (vis_state k be))"
  let ?u = "GlobalVisTestShouldUpdate (vis_state k be) be"
  have e: "(removable, be') = (if ?m then (True, be) else if ?d then (False, be)
      else if ?u then (FullTransactionIdPrecedes fxid (maybe_needed (vis_state k (GlobalVisUpdate in_recovery s be))),
        GlobalVisUpdate in_recovery s be) else (False, be))"
    using assms by (simp only: GlobalVisTestIsRemovableFullXid_def Let_def)
  show thesis
  proof (cases ?m)
    case True
    with e before show thesis by simp
  next
    case m: False
    show thesis
    proof (cases ?d)
      case True
      with m e after show thesis by simp
    next
      case d: False
      show thesis
      proof (cases ?u)
        case True
        with m d e have "be' = GlobalVisUpdate in_recovery s be"
          "removable = FullTransactionIdPrecedes fxid (maybe_needed (vis_state k (GlobalVisUpdate in_recovery s be)))"
          by simp_all
        then show thesis using d by (intro update) simp_all
      next
        case False
        with m d e same show thesis by simp
      qed
    qed
  qed
qed

subsection \<open>Properties\<close>

text \<open>
  C11: \<open>ComputeXidHorizons\<close> returns, for each kind of relation, exactly the oldest of the ids whose
  snapshots may still need its rows: the id after the newest completed one, the \<open>xmin\<close> and the id
  of every backend that counts for the kind (not vacuuming or decoding; in this database, or able to
  affect all), the ids known from the primary during recovery, and the horizons of the replication
  slots; and the id below which nothing is considered running is the oldest over all backends. This
  holds wherever these ids lie on the circle, as long as they are within half of it.
\<close>

theorem ComputeXidHorizons_oldest:
  assumes "horizon_inv b in_recovery s" and "MyProcNo be \<in> set (pgprocnos s)"
    and "ComputeXidHorizons in_recovery s be = (h, be')"
  shows "oldest_in b (considered_running_ids in_recovery s) (oldest_considered_running h)
    \<and> (\<forall>k. oldest_in b (needed_ids in_recovery be k s) (kind_horizon k h))
    \<and> oldest_in b (horizon_ids in_recovery (\<lambda>proc. \<not> skips_horizon proc) s \<union> valid_id (replication_slot_xmin s))
        (shared_oldest_nonremovable_raw h)"
  using ComputeXidHorizons_result [OF assms] by blast

text \<open>
  C13: the horizons are ordered as the assertions of \<open>ComputeXidHorizons\<close> state: what is considered
  running is not after any other horizon, and the horizon of shared tables is not after that of
  catalogs, which is not after that of ordinary tables of the database. The horizon of temporary
  tables is only compared for a backend that neither runs vacuum nor decodes the log: there it is not before
  that of shared tables either, while for a vacuum with an id of its own it may be.
\<close>

theorem ComputeXidHorizons_order:
  assumes "horizon_inv b in_recovery s" and "MyProcNo be \<in> set (pgprocnos s)"
    and "ComputeXidHorizons in_recovery s be = (h, be')"
  shows "(\<forall>k. TransactionIdPrecedesOrEquals (oldest_considered_running h) (kind_horizon k h))
    \<and> TransactionIdPrecedesOrEquals (shared_oldest_nonremovable h) (catalog_oldest_nonremovable h)
    \<and> TransactionIdPrecedesOrEquals (catalog_oldest_nonremovable h) (data_oldest_nonremovable h)
    \<and> (\<not> skips_horizon (allProcs s (MyProcNo be)) \<longrightarrow>
         TransactionIdPrecedesOrEquals (shared_oldest_nonremovable h) (temp_oldest_nonremovable h))
    \<and> (\<forall>x \<in> valid_id (replication_slot_xmin s) \<union> valid_id (replication_slot_catalog_xmin s).
         TransactionIdPrecedesOrEquals (oldest_considered_running h) x)"
proof -
  note r = ComputeXidHorizons_result [OF assms]
  note p = oldest_in_precedes [OF _ _ _ needed_nonempty]
  have sub: "needed_ids in_recovery be k s \<subseteq> considered_running_ids in_recovery s" for k
    using needed_subset [of in_recovery be s] needed_temp_subset [OF assms(2), of in_recovery] by (cases k) blast+
  have "TransactionIdPrecedesOrEquals (oldest_considered_running h) (kind_horizon k h)" for k
    using p [OF r(2) r(1) sub] .
  moreover have "TransactionIdPrecedesOrEquals (shared_oldest_nonremovable h) (catalog_oldest_nonremovable h)"
    using p [OF r(2) [of VISHORIZON_CATALOG] r(2) [of VISHORIZON_SHARED] needed_subset(2)] by simp
  moreover have "TransactionIdPrecedesOrEquals (catalog_oldest_nonremovable h) (data_oldest_nonremovable h)"
    using p [OF r(2) [of VISHORIZON_DATA] r(2) [of VISHORIZON_CATALOG] needed_subset(3)] by simp
  moreover have "TransactionIdPrecedesOrEquals (shared_oldest_nonremovable h) (temp_oldest_nonremovable h)"
    if "\<not> skips_horizon (allProcs s (MyProcNo be))"
    using p [OF r(2) [of VISHORIZON_TEMP] r(2) [of VISHORIZON_SHARED] needed_temp_shared [OF assms(2) that]] by simp
  moreover have "TransactionIdPrecedesOrEquals (oldest_considered_running h) x"
    if "x \<in> considered_running_ids in_recovery s" for x
    using oldest_in_precedes [OF oldest_in_single r(1), of x] that assms(1) by (auto simp: horizon_inv_def)
  then have "\<forall>x \<in> valid_id (replication_slot_xmin s) \<union> valid_id (replication_slot_catalog_xmin s).
      TransactionIdPrecedesOrEquals (oldest_considered_running h) x"
    by (simp add: considered_running_ids_def)
  ultimately show ?thesis by simp
qed

text \<open>
  C12: if \<open>GlobalVisTestIsRemovableFullXid\<close> says that rows deleted by an id may be removed, then every
  id whose snapshots may need rows of this kind of relation is later: no snapshot considers the
  deleter running, whether the answer came from the old bound or from recomputed horizons. The bound
  stays sound. If it says no, then the id is not before the upper bound, or nothing has changed that
  would make recomputing worthwhile, or the recomputed horizons show an id that needs the row; and in
  that case the upper bound is still after the id, as the code asserts.
\<close>

theorem GlobalVisTestIsRemovableFullXid_sound:
  assumes "full_window B in_recovery s" and "MyProcNo be \<in> set (pgprocnos s)" and "vis_sound B in_recovery s k be"
    and "GlobalVisTestIsRemovableFullXid in_recovery k fxid s be = (removable, be')"
  shows "(removable \<longrightarrow> (\<forall>y \<in> needed_ids in_recovery be k s. uint (fxid_value fxid) < full_of B y))
    \<and> vis_sound B in_recovery s k be'
    \<and> (\<not> removable \<longrightarrow> FullTransactionIdFollowsOrEquals fxid (definitely_needed (vis_state k be))
        \<or> \<not> GlobalVisTestShouldUpdate (vis_state k be) be
        \<or> (\<exists>y \<in> needed_ids in_recovery be k s. full_of B y \<le> uint (fxid_value fxid)))
    \<and> (be' \<noteq> be \<and> k \<noteq> VISHORIZON_TEMP \<and> FullTransactionIdIsValid (definitely_needed (vis_state k be)) \<longrightarrow>
        FullTransactionIdPrecedes fxid (definitely_needed (vis_state k be')))"
proof -
  let ?st = "vis_state k be"
  note u = GlobalVisUpdate_exact [OF assms(1,2), of k]
  have old: "\<forall>y \<in> needed_ids in_recovery be k s. uint (fxid_value (maybe_needed ?st)) \<le> full_of B y"
    using assms(3) by (simp add: vis_sound_def)
  consider (before) "FullTransactionIdPrecedes fxid (maybe_needed ?st)" "removable" "be' = be"
    | (after) "FullTransactionIdFollowsOrEquals fxid (definitely_needed ?st)" "\<not> removable" "be' = be"
    | (same) "\<not> GlobalVisTestShouldUpdate ?st be" "\<not> removable" "be' = be"
    | (update) "\<not> FullTransactionIdFollowsOrEquals fxid (definitely_needed ?st)"
        "be' = GlobalVisUpdate in_recovery s be" "removable = FullTransactionIdPrecedes fxid (maybe_needed (vis_state k be'))"
    by (rule GlobalVisTest_cases [OF assms(4)])
  then show ?thesis
  proof cases
    case before
    have "uint (fxid_value fxid) < full_of B y" if "y \<in> needed_ids in_recovery be k s" for y
      using bspec [OF old that] before(1) by (simp add: FullTransactionIdPrecedes_def word_less_def)
    then show ?thesis using before(2,3) assms(3) by simp
  next
    case after
    then show ?thesis using assms(3) by simp
  next
    case same
    then show ?thesis using assms(3) by simp
  next
    case update
    obtain x where x: "x \<in> needed_ids in_recovery be k s" "uint (fxid_value (maybe_needed (vis_state k be'))) = full_of B x"
      "\<forall>y \<in> needed_ids in_recovery be k s. full_of B x \<le> full_of B y"
      using u(1) unfolding update(2) [symmetric] by blast
    have rem: "removable \<longleftrightarrow> uint (fxid_value fxid) < full_of B x"
      using update(3) x(2) by (simp add: FullTransactionIdPrecedes_def word_less_def)
    have "vis_sound B in_recovery s k be'"
      using x u(2) unfolding vis_sound_def update(2) [symmetric] by simp
    moreover have "FullTransactionIdPrecedes fxid (definitely_needed (vis_state k be'))"
      if "k \<noteq> VISHORIZON_TEMP" "FullTransactionIdIsValid (definitely_needed ?st)"
      using u(3) [OF that, folded update(2)] update(1)
      by (simp add: FullTransactionIdPrecedes_def FullTransactionIdFollowsOrEquals_def word_less_def word_le_def)
    moreover have "\<forall>y \<in> needed_ids in_recovery be k s. uint (fxid_value fxid) < full_of B y" if removable
      using that rem x(3) by fastforce
    moreover have "\<exists>y \<in> needed_ids in_recovery be k s. full_of B y \<le> uint (fxid_value fxid)" if "\<not> removable"
      using that rem x(1) by (intro bexI [of _ x]) simp_all
    ultimately show ?thesis by blast
  qed
qed

definition sample_vis :: VisBackend where
  "sample_vis = \<lparr>MyProcNo = 3, MyDatabaseId = 1, TransactionXmin = 10, RecentXmin = 10, cachedXidIsNotInProgress = 0,
     GlobalVisSharedRels = \<lparr>definitely_needed = \<lparr>fxid_value = 12\<rparr>, maybe_needed = \<lparr>fxid_value = 3\<rparr>\<rparr>,
     GlobalVisCatalogRels = \<lparr>definitely_needed = \<lparr>fxid_value = 12\<rparr>, maybe_needed = \<lparr>fxid_value = 3\<rparr>\<rparr>,
     GlobalVisDataRels = \<lparr>definitely_needed = \<lparr>fxid_value = 12\<rparr>, maybe_needed = \<lparr>fxid_value = 3\<rparr>\<rparr>,
     GlobalVisTempRels = \<lparr>definitely_needed = \<lparr>fxid_value = 12\<rparr>, maybe_needed = \<lparr>fxid_value = 12\<rparr>\<rparr>,
     ComputeXidHorizonsResultLastXmin = 0\<rparr>"

lemma sample_latest [simp]: "latestCompletedXid sample_vcache = \<lparr>fxid_value = 2139999999\<rparr>"
  by (simp add: sample_vcache_def SetTransactionIdLimit_def Let_def)

lemma sample_next [simp]: "next_completed sample_array = 2140000000"
  by (simp add: next_completed_def sample_array_def XidFromFullTransactionId_def TransactionIdAdvance_def
      FirstNormalTransactionId_def)

lemma backend_ids_code:
  "backend_ids P s = \<Union> (set (map (\<lambda>p. if P (allProcs s p) then held_ids (allProcs s p) else {}) (pgprocnos s)))"
  by (auto simp: backend_ids_def split: if_splits)

lemma sample_held: "held_ids (allProcs sample_array 3) = {10}" "held_ids (allProcs sample_array 5) = {12}"
  by (simp_all add: held_ids_def valid_id_def sample_array_def sample_proc_def TransactionIdIsValid_def InvalidTransactionId_def)

lemma sample_not_skipped: "\<not> skips_horizon (allProcs sample_array p)"
  by (simp add: skips_horizon_def sample_array_def sample_proc_def)

lemma sample_procnos [simp]: "pgprocnos sample_array = [3, 5]"
  by (simp add: sample_array_def)

lemma sample_backend_ids:
  "backend_ids (\<lambda>_. True) sample_array = {10, 12}" "backend_ids (\<lambda>proc. \<not> skips_horizon proc) sample_array = {10, 12}"
  by (simp_all add: backend_ids_code sample_held sample_not_skipped insert_commute)

lemma sample_slots [simp]: "replication_slot_xmin sample_array = InvalidTransactionId"
  "replication_slot_catalog_xmin sample_array = InvalidTransactionId"
  by (simp_all add: sample_array_def InvalidTransactionId_def)

lemma sample_member [simp]: "MyProcNo sample_vis \<in> set (pgprocnos sample_array)"
  by (simp add: sample_vis_def sample_array_def)

lemma sample_pa_inv: "pa_inv sample_array"
  by (simp add: pa_inv_def sample_array_def sample_proc_def)

lemma sample_horizon_sets:
  "considered_running_ids False sample_array = {2140000000, 10, 12}"
  "needed_ids False sample_vis VISHORIZON_SHARED sample_array = {2140000000, 10, 12}"
  by (auto simp: considered_running_ids_def horizon_ids_def sample_backend_ids)

lemma sample_horizon_inv: "horizon_inv 3 False sample_array"
  by (simp add: horizon_inv_def sample_horizon_sets sample_pa_inv xid_window_def TransactionIdIsNormal_def
      FirstNormalTransactionId_def)

theorem ComputeXidHorizons_oldest_witness:
  "shared_oldest_nonremovable (fst (ComputeXidHorizons False sample_array sample_vis)) = 10"
proof -
  obtain h be' where e: "ComputeXidHorizons False sample_array sample_vis = (h, be')" by fastforce
  have "oldest_in 3 (needed_ids False sample_vis VISHORIZON_SHARED sample_array) (kind_horizon VISHORIZON_SHARED h)"
    using ComputeXidHorizons_oldest [OF sample_horizon_inv sample_member e] by blast
  then have "oldest_in 3 {2140000000, 10, 12} (shared_oldest_nonremovable h)"
    by (simp only: sample_horizon_sets kind_horizon.simps)
  from oldest_inD [OF this, of 10]
  have m: "shared_oldest_nonremovable h \<in> {2140000000, 10, 12}"
    and "unat (shared_oldest_nonremovable h - 3) \<le> unat (10 - 3 :: 32 word)" by blast+
  then have "shared_oldest_nonremovable h = 10" using m by (elim insertE emptyE) simp_all
  then show ?thesis by (simp add: e)
qed

theorem ComputeXidHorizons_order_witness:
  "TransactionIdPrecedesOrEquals
     (shared_oldest_nonremovable (fst (ComputeXidHorizons False sample_array sample_vis)))
     (catalog_oldest_nonremovable (fst (ComputeXidHorizons False sample_array sample_vis)))"
proof -
  obtain h be' where e: "ComputeXidHorizons False sample_array sample_vis = (h, be')" by fastforce
  show ?thesis using ComputeXidHorizons_order [OF sample_horizon_inv sample_member e] by (simp only: e fst_conv)
qed

theorem GlobalVisTestIsRemovableFullXid_sound_witness:
  "\<not> fst (GlobalVisTestIsRemovableFullXid False VISHORIZON_SHARED \<lparr>fxid_value = 11\<rparr> sample_array sample_vis)
   \<and> vis_sound \<lparr>fxid_value = 3\<rparr> False sample_array VISHORIZON_SHARED
       (snd (GlobalVisTestIsRemovableFullXid False VISHORIZON_SHARED \<lparr>fxid_value = 11\<rparr> sample_array sample_vis))"
proof -
  obtain r be' where e: "GlobalVisTestIsRemovableFullXid False VISHORIZON_SHARED \<lparr>fxid_value = 11\<rparr> sample_array sample_vis = (r, be')"
    by fastforce
  have xb: "XidFromFullTransactionId \<lparr>fxid_value = 3\<rparr> = 3" by (simp add: XidFromFullTransactionId_def)
  have w: "full_window \<lparr>fxid_value = 3\<rparr> False sample_array"
    using sample_horizon_inv by (simp add: full_window_def xb) (simp add: sample_array_def)
  have v: "vis_sound \<lparr>fxid_value = 3\<rparr> False sample_array VISHORIZON_SHARED sample_vis"
    by (simp only: vis_sound_def sample_horizon_sets) (simp add: full_of_def xb sample_vis_def)
  have "10 \<in> needed_ids False sample_vis VISHORIZON_SHARED sample_array" unfolding sample_horizon_sets by simp
  moreover have "full_of \<lparr>fxid_value = 3\<rparr> 10 = 10" by (simp add: full_of_def xb)
  ultimately show ?thesis
    using GlobalVisTestIsRemovableFullXid_sound [OF w sample_member v e] e by (fastforce simp del: needed_ids.simps)
qed

end
