(* ===== verification/Snapshots.thy ===== *)
theory Snapshots
  imports Horizons
begin

section \<open>Snapshots and running transactions\<close>

text \<open>
  \<open>GetSnapshotData\<close>, \<open>TransactionIdIsInProgress\<close> and the functions around them of
  \<open>src/backend/storage/ipc/procarray.c\<close>, and \<open>XidInMVCCSnapshot\<close> of
  \<open>src/backend/utils/time/snapmgr.c\<close>. A snapshot's arrays of ids are lists of the entries in use.
  Each function that takes \<open>ProcArrayLock\<close> reads one state of \<open>ProcArray\<close>. What the functions read
  from elsewhere is an argument: whether recovery is in progress, the current command id, the
  commit log and the log of subtransactions, the stack of the backend's own transactions, and, when
  old snapshots expire, the position and time they are marked with.
\<close>

subsection \<open>Data\<close>

datatype SnapshotType =
    SNAPSHOT_MVCC | SNAPSHOT_SELF | SNAPSHOT_ANY | SNAPSHOT_TOAST | SNAPSHOT_DIRTY | SNAPSHOT_HISTORIC_MVCC
  | SNAPSHOT_NON_VACUUMABLE

record SnapshotData =
  snapshot_type :: SnapshotType
  snap_xmin :: TransactionId
  snap_xmax :: TransactionId
  xip :: "TransactionId list"
  subxip :: "TransactionId list"
  snap_suboverflowed :: bool
  takenDuringRecovery :: bool
  copied :: bool
  curcid :: CommandId
  speculativeToken :: uint32
  vistest :: GlobalVisHorizonKind
  active_count :: uint32
  regd_count :: uint32
  whenTaken :: int
  snap_lsn :: XLogRecPtr
  snapXactCompletionCount :: uint64

datatype snapshot_event = MaintainOldSnapshotTimeMapping int TransactionId

type_synonym old_snapshot = "(XLogRecPtr \<times> int) option"

subsection \<open>Taking a snapshot\<close>

definition GetSnapshotDataInitOldSnapshot ::
  "old_snapshot \<Rightarrow> SnapshotData \<Rightarrow> SnapshotData \<times> snapshot_event list" where
  "GetSnapshotDataInitOldSnapshot old snapshot =
     (case old of
        None \<Rightarrow> (snapshot\<lparr>snap_lsn := 0, whenTaken := 0\<rparr>, [])
      | Some (lsn, now) \<Rightarrow>
          (snapshot\<lparr>snap_lsn := lsn, whenTaken := now\<rparr>, [MaintainOldSnapshotTimeMapping now (snap_xmin snapshot)]))"

text \<open>The bookkeeping fields every snapshot returned gets.\<close>

definition fresh_snapshot :: "CommandId \<Rightarrow> SnapshotData \<Rightarrow> SnapshotData" where
  "fresh_snapshot cid snapshot = snapshot\<lparr>curcid := cid, active_count := 0, regd_count := 0, copied := False\<rparr>"

definition set_my_xmin ::
  "TransactionId \<Rightarrow> ProcArrayStruct \<times> VisBackend \<Rightarrow> ProcArrayStruct \<times> VisBackend" where
  "set_my_xmin xmin sb =
     (let (s, be) = sb
      in if \<not> TransactionIdIsValid (p_xmin (allProcs s (MyProcNo be)))
         then (update_proc (MyProcNo be) (\<lambda>proc. proc\<lparr>p_xmin := xmin\<rparr>) s, be\<lparr>TransactionXmin := xmin\<rparr>)
         else (s, be))"

type_synonym snapshot_result = "SnapshotData \<times> ProcArrayStruct \<times> VisBackend \<times> snapshot_event list"

definition GetSnapshotDataReuse ::
  "CommandId \<Rightarrow> old_snapshot \<Rightarrow> SnapshotData \<Rightarrow> ProcArrayStruct \<Rightarrow> VisBackend \<Rightarrow> snapshot_result option" where
  "GetSnapshotDataReuse cid old snapshot s be =
     (if snapXactCompletionCount snapshot = 0 then None
      else if xactCompletionCount (pa_shared s) \<noteq> snapXactCompletionCount snapshot then None
      else
        (let (s, be) = set_my_xmin (snap_xmin snapshot) (s, be);
             be = be\<lparr>RecentXmin := snap_xmin snapshot\<rparr>;
             (snapshot, events) = GetSnapshotDataInitOldSnapshot old (fresh_snapshot cid snapshot)
         in Some (snapshot, s, be, events)))"

text \<open>The body of the loop over the array, at one offset: \<open>xmin\<close>, the two lists of ids and the overflow flag.\<close>

definition snapshot_proc ::
  "nat \<Rightarrow> TransactionId \<Rightarrow> ProcArrayStruct \<Rightarrow> nat
    \<Rightarrow> TransactionId \<times> TransactionId list \<times> TransactionId list \<times> bool
    \<Rightarrow> TransactionId \<times> TransactionId list \<times> TransactionId list \<times> bool" where
  "snapshot_proc mypgxactoff xmax s off acc =
     (let (xmin, xs, subs, overflowed) = acc;
          xid = g_xids s ! off
      in if xid = InvalidTransactionId then acc
         else if off = mypgxactoff then acc
         else if \<not> NormalTransactionIdPrecedes xid xmax then acc
         else if g_statusFlags s ! off AND (PROC_IN_LOGICAL_DECODING OR PROC_IN_VACUUM) \<noteq> 0 then acc
         else
           (let xmin = (if NormalTransactionIdPrecedes xid xmin then xid else xmin);
                xs = xs @ [xid]
            in if overflowed then (xmin, xs, subs, overflowed)
               else if snd (g_subxidStates s ! off) then (xmin, xs, subs, True)
               else (xmin, xs, subs @ take (fst (g_subxidStates s ! off)) (subxids (allProcs s (pgprocnos s ! off))), False)))"

definition snapshot_ids ::
  "bool \<Rightarrow> nat \<Rightarrow> TransactionId \<Rightarrow> TransactionId \<Rightarrow> ProcArrayStruct
    \<Rightarrow> TransactionId \<times> TransactionId list \<times> TransactionId list \<times> bool" where
  "snapshot_ids in_recovery mypgxactoff xmax xmin s =
     (if \<not> in_recovery
      then fold (snapshot_proc mypgxactoff xmax s) [0 ..< length (pgprocnos s)] (xmin, [], [], False)
      else
        (let (subs, xmin) = KnownAssignedXidsGetAndSetXmin xmin xmax (pa_known s)
         in (xmin, [], subs, TransactionIdPrecedesOrEquals xmin (pa_lastOverflowedXid s))))"

text \<open>What the snapshot tells the approximate horizons.\<close>

definition snapshot_horizons ::
  "ProcArrayStruct \<Rightarrow> TransactionId \<Rightarrow> TransactionId \<Rightarrow> VisBackend \<Rightarrow> VisBackend" where
  "snapshot_horizons s xmin myxid be =
     (let latest = latestCompletedXid (pa_shared s);
          oldestfxid = FullXidRelativeTo latest (oldestXid (pa_shared s));
          def_vis_xid_data = TransactionIdOlder xmin (replication_slot_xmin s);
          def_vis_xid = TransactionIdOlder (replication_slot_catalog_xmin s) def_vis_xid_data;
          def_vis_fxid = FullXidRelativeTo latest def_vis_xid;
          def_vis_fxid_data = FullXidRelativeTo latest def_vis_xid_data;
          temp = (if TransactionIdIsNormal myxid then FullXidRelativeTo latest myxid else FullTransactionIdAdvance latest);
          advance = (\<lambda>def st. \<lparr>definitely_needed = FullTransactionIdNewer def (definitely_needed st),
                        maybe_needed = FullTransactionIdNewer (maybe_needed st) oldestfxid\<rparr>)
      in be\<lparr>GlobalVisSharedRels := advance def_vis_fxid (GlobalVisSharedRels be),
            GlobalVisCatalogRels := advance def_vis_fxid (GlobalVisCatalogRels be),
            GlobalVisDataRels := advance def_vis_fxid_data (GlobalVisDataRels be),
            GlobalVisTempRels := \<lparr>definitely_needed = temp, maybe_needed = temp\<rparr>\<rparr>)"

definition GetSnapshotData ::
  "bool \<Rightarrow> CommandId \<Rightarrow> old_snapshot \<Rightarrow> SnapshotData \<Rightarrow> ProcArrayStruct \<Rightarrow> VisBackend \<Rightarrow> snapshot_result" where
  "GetSnapshotData in_recovery cid old snapshot s be =
     (case GetSnapshotDataReuse cid old snapshot s be of
        Some result \<Rightarrow> result
      | None \<Rightarrow>
          (let mypgxactoff = pgxactoff (allProcs s (MyProcNo be));
               myxid = g_xids s ! mypgxactoff;
               xmax = TransactionIdAdvance (XidFromFullTransactionId (latestCompletedXid (pa_shared s)));
               xmin = (if TransactionIdIsNormal myxid \<and> NormalTransactionIdPrecedes myxid xmax then myxid else xmax);
               (xmin, xs, subs, overflowed) = snapshot_ids in_recovery mypgxactoff xmax xmin s;
               (s', be) = set_my_xmin xmin (s, be);
               be = (snapshot_horizons s xmin myxid be)\<lparr>RecentXmin := xmin\<rparr>;
               snapshot = snapshot\<lparr>snap_xmin := xmin, snap_xmax := xmax, xip := xs, subxip := subs,
                 snap_suboverflowed := overflowed, takenDuringRecovery := in_recovery,
                 snapXactCompletionCount := xactCompletionCount (pa_shared s)\<rparr>;
               (snapshot, events) = GetSnapshotDataInitOldSnapshot old (fresh_snapshot cid snapshot)
           in (snapshot, s', be, events)))"

definition GetMaxSnapshotXidCount :: "ProcArrayStruct \<Rightarrow> nat" where
  "GetMaxSnapshotXidCount s = maxProcs s"

definition GetMaxSnapshotSubxidCount :: "nat \<Rightarrow> nat" where
  "GetMaxSnapshotSubxidCount PROCARRAY_MAXPROCS = TOTAL_MAX_CACHED_SUBXIDS PROCARRAY_MAXPROCS"

subsection \<open>Asking a snapshot\<close>

text \<open>
  The topmost ancestor is sought in the log of subtransactions as it is when the question is asked;
  \<open>None\<close> stands for a walk that does not return and \<open>Inl\<close> for its error.
\<close>

definition search_topmost ::
  "SubTransSlru \<Rightarrow> TransactionId \<Rightarrow> SnapshotData \<Rightarrow> TransactionId list \<Rightarrow> TransactionId
    \<Rightarrow> (subtrans_error + bool) option" where
  "search_topmost sub txmin snapshot ids xid =
     (case SubTransGetTopmostTransaction sub txmin xid of
        None \<Rightarrow> None
      | Some (Inl e) \<Rightarrow> Some (Inl e)
      | Some (Inr xid) \<Rightarrow>
          if TransactionIdPrecedes xid (snap_xmin snapshot) then Some (Inr False)
          else Some (Inr (pg_lfind32 xid ids)))"

definition XidInMVCCSnapshot ::
  "SubTransSlru \<Rightarrow> TransactionId \<Rightarrow> TransactionId \<Rightarrow> SnapshotData \<Rightarrow> (subtrans_error + bool) option" where
  "XidInMVCCSnapshot sub txmin xid snapshot =
     (if TransactionIdPrecedes xid (snap_xmin snapshot) then Some (Inr False)
      else if TransactionIdFollowsOrEquals xid (snap_xmax snapshot) then Some (Inr True)
      else if \<not> takenDuringRecovery snapshot then
        (if \<not> snap_suboverflowed snapshot then
           (if pg_lfind32 xid (subxip snapshot) then Some (Inr True)
            else Some (Inr (pg_lfind32 xid (xip snapshot))))
         else search_topmost sub txmin snapshot (xip snapshot) xid)
      else
        (if snap_suboverflowed snapshot then search_topmost sub txmin snapshot (subxip snapshot) xid
         else Some (Inr (pg_lfind32 xid (subxip snapshot)))))"

subsection \<open>Asking the array\<close>

text \<open>
  The loop of \<open>TransactionIdIsInProgress\<close>, over the offsets: \<open>None\<close> when the id is found running,
  otherwise the main ids that have uncached children.
\<close>

fun in_progress_loop ::
  "TransactionId \<Rightarrow> nat \<Rightarrow> ProcArrayStruct \<Rightarrow> nat list \<Rightarrow> TransactionId list \<Rightarrow> TransactionId list option" where
  "in_progress_loop xid mypgxactoff s [] xids = Some xids" |
  "in_progress_loop xid mypgxactoff s (off # offs) xids =
     (let pxid = g_xids s ! off
      in if off = mypgxactoff then in_progress_loop xid mypgxactoff s offs xids
         else if \<not> TransactionIdIsValid pxid then in_progress_loop xid mypgxactoff s offs xids
         else if pxid = xid then None
         else if TransactionIdPrecedes xid pxid then in_progress_loop xid mypgxactoff s offs xids
         else if pg_lfind32 xid (rev (take (fst (g_subxidStates s ! off)) (subxids (allProcs s (pgprocnos s ! off))))) then None
         else in_progress_loop xid mypgxactoff s offs (if snd (g_subxidStates s ! off) then xids @ [pxid] else xids))"

text \<open>The variables of the backend, and its cache of the status log, are returned updated.\<close>

definition TransactionIdIsInProgress ::
  "bool \<Rightarrow> XactBackend \<Rightarrow> XactSlru \<Rightarrow> SubTransSlru \<Rightarrow> ProcArrayStruct \<Rightarrow> TransactionId
    \<Rightarrow> VisBackend \<times> TransamCache \<Rightarrow> ((subtrans_error + bool) \<times> VisBackend \<times> TransamCache) option" where
  "TransactionIdIsInProgress in_recovery xb clog sub s xid bc =
     (let (be, c) = bc;
          done = (\<lambda>c. Some (Inr False, be\<lparr>cachedXidIsNotInProgress := xid\<rparr>, c))
      in if TransactionIdPrecedes xid (RecentXmin be) then Some (Inr False, be, c)
         else if cachedXidIsNotInProgress be = xid then Some (Inr False, be, c)
         else if TransactionIdIsCurrentTransactionId xb xid then Some (Inr True, be, c)
         else if TransactionIdPrecedes (XidFromFullTransactionId (latestCompletedXid (pa_shared s))) xid
         then Some (Inr True, be, c)
         else
           (case in_progress_loop xid (pgxactoff (allProcs s (MyProcNo be))) s [0 ..< length (pgprocnos s)] [] of
              None \<Rightarrow> Some (Inr True, be, c)
            | Some xids \<Rightarrow>
                if in_recovery \<and> KnownAssignedXidExists xid (pa_known s) then Some (Inr True, be, c)
                else
                  (let xids = (if in_recovery \<and> TransactionIdPrecedesOrEquals xid (pa_lastOverflowedXid s)
                               then KnownAssignedXidsGet xid (pa_known s) else xids)
                   in if length xids = 0 then done c
                      else
                        (case TransactionIdDidAbort clog sub (TransactionXmin be) xid c of
                           None \<Rightarrow> None
                         | Some (aborted, c) \<Rightarrow>
                             if aborted then done c
                             else
                               (case SubTransGetTopmostTransaction sub (TransactionXmin be) xid of
                                  None \<Rightarrow> None
                                | Some (Inl e) \<Rightarrow> Some (Inl e, be, c)
                                | Some (Inr topxid) \<Rightarrow>
                                    if topxid \<noteq> xid \<and> pg_lfind32 topxid xids then Some (Inr True, be, c)
                                    else done c)))))"

definition TransactionIdIsActive :: "ProcArrayStruct \<Rightarrow> VisBackend \<Rightarrow> TransactionId \<Rightarrow> bool" where
  "TransactionIdIsActive s be xid =
     (if TransactionIdPrecedes xid (RecentXmin be) then False
      else list_ex (\<lambda>i. TransactionIdIsValid (g_xids s ! i) \<and> p_pid (allProcs s (pgprocnos s ! i)) \<noteq> 0 \<and> g_xids s ! i = xid)
             [0 ..< length (pgprocnos s)])"

subsection \<open>Adopting another backend's snapshot\<close>

text \<open>A virtual transaction id: the backend and its local transaction.\<close>

definition ProcArrayInstallImportedXmin ::
  "TransactionId \<Rightarrow> (int \<times> uint32) option \<Rightarrow> ProcArrayStruct \<Rightarrow> VisBackend \<Rightarrow> bool \<times> ProcArrayStruct \<times> VisBackend" where
  "ProcArrayInstallImportedXmin xmin sourcevxid s be =
     (case sourcevxid of
        None \<Rightarrow> (False, s, be)
      | Some (bid, lxid) \<Rightarrow>
          if list_ex (\<lambda>i. let proc = allProcs s (pgprocnos s ! i)
                          in g_statusFlags s ! i AND PROC_IN_VACUUM = 0 \<and> backendId proc = bid \<and> p_lxid proc = lxid
                             \<and> databaseId proc = MyDatabaseId be \<and> TransactionIdIsNormal (p_xmin proc)
                             \<and> TransactionIdPrecedesOrEquals (p_xmin proc) xmin)
               [0 ..< length (pgprocnos s)]
          then (True, update_proc (MyProcNo be) (\<lambda>proc. proc\<lparr>p_xmin := xmin\<rparr>) s, be\<lparr>TransactionXmin := xmin\<rparr>)
          else (False, s, be))"

definition ProcArrayInstallRestoredXmin ::
  "TransactionId \<Rightarrow> nat \<Rightarrow> ProcArrayStruct \<Rightarrow> VisBackend \<Rightarrow> bool \<times> ProcArrayStruct \<times> VisBackend" where
  "ProcArrayInstallRestoredXmin xmin q s be =
     (let proc = allProcs s q; me = MyProcNo be; my = allProcs s me
      in if databaseId proc = MyDatabaseId be \<and> TransactionIdIsNormal (p_xmin proc)
            \<and> TransactionIdPrecedesOrEquals (p_xmin proc) xmin
         then
           (let flags = (statusFlags my AND NOT PROC_XMIN_FLAGS) OR (statusFlags proc AND PROC_XMIN_FLAGS)
            in (True,
                s\<lparr>allProcs := (allProcs s)(me := my\<lparr>p_xmin := xmin, statusFlags := flags\<rparr>),
                  g_statusFlags := (g_statusFlags s)[pgxactoff my := flags]\<rparr>,
                be\<lparr>TransactionXmin := xmin\<rparr>))
         else (False, s, be))"

subsection \<open>What the loop over the array collects\<close>

lemma normal_precedes_window:
  assumes "x \<in> xid_window b" and "y \<in> xid_window b"
  shows "NormalTransactionIdPrecedes x y \<longleftrightarrow> unat (x - b) < unat (y - b)"
  unfolding NormalTransactionIdPrecedes_def sint_window [OF assms] by linarith

text \<open>The backends whose ids go into a snapshot that \<open>me\<close> takes with bound \<open>xmax\<close>.\<close>

definition in_snapshot_scope :: "nat \<Rightarrow> TransactionId \<Rightarrow> ProcArrayStruct \<Rightarrow> nat \<Rightarrow> bool" where
  "in_snapshot_scope me xmax s q \<longleftrightarrow> q \<noteq> me \<and> TransactionIdIsValid (p_xid (allProcs s q))
     \<and> NormalTransactionIdPrecedes (p_xid (allProcs s q)) xmax \<and> \<not> skips_horizon (allProcs s q)"

definition top_ids :: "ProcArrayStruct \<Rightarrow> TransactionId set" where
  "top_ids s = (\<Union>q \<in> set (pgprocnos s). valid_id (p_xid (allProcs s q)))"

lemma pa_procno_offset:
  assumes "pa_inv s" and "p \<in> set (pgprocnos s)" and "off < length (pgprocnos s)"
  shows "off = pgxactoff (allProcs s p) \<longleftrightarrow> pgprocnos s ! off = p"
proof -
  have "distinct (pgprocnos s)" using assms(1) by (auto simp: pa_inv_def strict_sorted_iff)
  then show ?thesis using pa_offset [OF assms(1,2)] assms(3) by (metis nth_eq_iff_index_eq)
qed

lemma snapshot_proc_step:
  assumes "pa_inv s" and "me \<in> set (pgprocnos s)" and "off < length (pgprocnos s)"
  defines "q \<equiv> pgprocnos s ! off"
  defines "proc \<equiv> allProcs s q"
  shows "snapshot_proc (pgxactoff (allProcs s me)) xmax s off (xmin, xs, subs, over) =
    (if in_snapshot_scope me xmax s q then
       (if NormalTransactionIdPrecedes (p_xid proc) xmin then p_xid proc else xmin, xs @ [p_xid proc],
        if over \<or> suboverflowed proc then subs else subs @ subxids proc, over \<or> suboverflowed proc)
     else (xmin, xs, subs, over))"
proof -
  have mirror: "g_xids s ! off = p_xid proc" "g_statusFlags s ! off = statusFlags proc"
    "g_subxidStates s ! off = (length (subxids proc), suboverflowed proc)"
    using assms(1,3) by (simp_all add: pa_inv_def proc_def q_def)
  have flags: "statusFlags proc AND (PROC_IN_LOGICAL_DECODING OR PROC_IN_VACUUM) \<noteq> 0 \<longleftrightarrow> skips_horizon proc"
    by (simp add: skips_horizon_def or.commute)
  have me: "off = pgxactoff (allProcs s me) \<longleftrightarrow> q = me"
    using pa_procno_offset [OF assms(1,2,3)] by (simp add: q_def)
  show ?thesis
    unfolding snapshot_proc_def Let_def prod.case mirror flags me in_snapshot_scope_def proc_def [symmetric]
      q_def [symmetric] TransactionIdIsValid_def by simp
qed

lemma snapshot_loop:
  fixes xmax
  assumes "pa_inv s" and "me \<in> set (pgprocnos s)" and "set offs \<subseteq> {..< length (pgprocnos s)}"
    and "top_ids s \<subseteq> xid_window b" and "oldest_in b S xmin" and "S \<noteq> {}"
  defines "qs \<equiv> filter (in_snapshot_scope me xmax s) (map (\<lambda>i. pgprocnos s ! i) offs)"
  shows "\<exists>xmin' subs'. fold (snapshot_proc (pgxactoff (allProcs s me)) xmax s) offs (xmin, xs, subs, over)
      = (xmin', xs @ map (\<lambda>q. p_xid (allProcs s q)) qs, subs', over \<or> (\<exists>q \<in> set qs. suboverflowed (allProcs s q)))
    \<and> oldest_in b (S \<union> (\<lambda>q. p_xid (allProcs s q)) ` set qs) xmin'
    \<and> (\<not> over \<and> (\<forall>q \<in> set qs. \<not> suboverflowed (allProcs s q)) \<longrightarrow> subs' = subs @ concat (map (\<lambda>q. subxids (allProcs s q)) qs))
    \<and> length subs' \<le> length subs + sum_list (map (\<lambda>q. length (subxids (allProcs s q))) qs)"
  using assms(3,5,6) unfolding qs_def
proof (induction offs arbitrary: xmin xs subs over S)
  case Nil
  then show ?case by simp
next
  case (Cons off offs)
  define q where "q = pgprocnos s ! off"
  define x where "x = p_xid (allProcs s q)"
  have off: "off < length (pgprocnos s)" "set offs \<subseteq> {..< length (pgprocnos s)}" using Cons.prems(1) by simp_all
  note step = snapshot_proc_step [OF assms(1,2) off(1), of xmax xmin xs subs over, folded q_def, folded x_def]
  show ?case
  proof (cases "in_snapshot_scope me xmax s q")
    case False
    with Cons.IH [OF off(2) Cons.prems(2,3), of xs subs over] show ?thesis by (simp add: step q_def)
  next
    case True
    define xmin1 where "xmin1 = (if NormalTransactionIdPrecedes x xmin then x else xmin)"
    define subs1 where "subs1 = (if over \<or> suboverflowed (allProcs s q) then subs else subs @ subxids (allProcs s q))"
    have "q \<in> set (pgprocnos s)" using off(1) by (simp add: q_def)
    then have x: "x \<in> xid_window b" "TransactionIdIsValid x"
      using True assms(4) by (auto simp: in_snapshot_scope_def top_ids_def valid_id_def x_def)
    have w: "xmin \<in> xid_window b" using Cons.prems(2,3) by (auto simp: oldest_in_def split: if_splits)
    have "oldest_in b (S \<union> {x}) xmin1"
    proof -
      have "TransactionIdOlder x xmin = xmin1"
        using x w window_valid [OF w] by (simp add: TransactionIdOlder_def xmin1_def normal_precedes_window precedes_window)
      then show ?thesis using oldest_in_older [OF oldest_in_single [OF x(1)] Cons.prems(2)] by (simp add: Un_commute)
    qed
    note IH = Cons.IH [OF off(2) this, of "xs @ [x]" subs1 "over \<or> suboverflowed (allProcs s q)"]
    have "fold (snapshot_proc (pgxactoff (allProcs s me)) xmax s) (off # offs) (xmin, xs, subs, over)
      = fold (snapshot_proc (pgxactoff (allProcs s me)) xmax s) offs (xmin1, xs @ [x], subs1, over \<or> suboverflowed (allProcs s q))"
      using True by (simp add: step xmin1_def subs1_def)
    moreover have "length subs1 \<le> length subs + length (subxids (allProcs s q))" by (simp add: subs1_def)
    ultimately show ?thesis
      using IH True unfolding subs1_def
      by (auto simp: q_def [symmetric] x_def [symmetric] Un_insert_right intro: order_trans)
  qed
qed

text \<open>A snapshot built from the array, when no recovery is in progress.\<close>

lemma init_old_snapshot_fields [simp]:
  "snap_xmin (fst (GetSnapshotDataInitOldSnapshot old sn)) = snap_xmin sn"
  "snap_xmax (fst (GetSnapshotDataInitOldSnapshot old sn)) = snap_xmax sn"
  "xip (fst (GetSnapshotDataInitOldSnapshot old sn)) = xip sn"
  "subxip (fst (GetSnapshotDataInitOldSnapshot old sn)) = subxip sn"
  "snap_suboverflowed (fst (GetSnapshotDataInitOldSnapshot old sn)) = snap_suboverflowed sn"
  "takenDuringRecovery (fst (GetSnapshotDataInitOldSnapshot old sn)) = takenDuringRecovery sn"
  "snapXactCompletionCount (fst (GetSnapshotDataInitOldSnapshot old sn)) = snapXactCompletionCount sn"
  by (simp_all add: GetSnapshotDataInitOldSnapshot_def split: option.split)

lemma fresh_snapshot_fields [simp]:
  "snap_xmin (fresh_snapshot cid sn) = snap_xmin sn" "snap_xmax (fresh_snapshot cid sn) = snap_xmax sn"
  "xip (fresh_snapshot cid sn) = xip sn" "subxip (fresh_snapshot cid sn) = subxip sn"
  "snap_suboverflowed (fresh_snapshot cid sn) = snap_suboverflowed sn"
  "takenDuringRecovery (fresh_snapshot cid sn) = takenDuringRecovery sn"
  "snapXactCompletionCount (fresh_snapshot cid sn) = snapXactCompletionCount sn"
  by (simp_all add: fresh_snapshot_def)

lemma GetSnapshotData_build:
  assumes "GetSnapshotDataReuse cid old sn0 s be = None"
    and "GetSnapshotData in_recovery cid old sn0 s be = (sn, s', be', ev)"
  defines "off \<equiv> pgxactoff (allProcs s (MyProcNo be))" and "xmax \<equiv> next_completed s"
  defines "xmin0 \<equiv> (if TransactionIdIsNormal (g_xids s ! off) \<and> NormalTransactionIdPrecedes (g_xids s ! off) xmax
      then g_xids s ! off else xmax)"
  shows "(snap_xmin sn, xip sn, subxip sn, snap_suboverflowed sn) = snapshot_ids in_recovery off xmax xmin0 s"
    and "snap_xmax sn = xmax" and "takenDuringRecovery sn = in_recovery"
    and "snapXactCompletionCount sn = xactCompletionCount (pa_shared s)"
    and "s' = fst (set_my_xmin (snap_xmin sn) (s, be))" and "RecentXmin be' = snap_xmin sn"
    and "TransactionXmin be' = TransactionXmin (snd (set_my_xmin (snap_xmin sn) (s, be)))"
    and "MyProcNo be' = MyProcNo be"
proof -
  obtain xm xs subs over where ids: "snapshot_ids in_recovery off xmax xmin0 s = (xm, xs, subs, over)"
    by (metis prod.exhaust)
  obtain t be1 where set: "set_my_xmin xm (s, be) = (t, be1)" by fastforce
  have be1: "MyProcNo be1 = MyProcNo be"
    using set by (auto simp: set_my_xmin_def split: if_splits)
  let ?sn = "sn0\<lparr>snap_xmin := xm, snap_xmax := xmax, xip := xs, subxip := subs, snap_suboverflowed := over,
    takenDuringRecovery := in_recovery, snapXactCompletionCount := xactCompletionCount (pa_shared s)\<rparr>"
  have e: "(sn, s', be', ev) = (fst (GetSnapshotDataInitOldSnapshot old (fresh_snapshot cid ?sn)), t,
      (snapshot_horizons s xm (g_xids s ! off) be1)\<lparr>RecentXmin := xm\<rparr>,
      snd (GetSnapshotDataInitOldSnapshot old (fresh_snapshot cid ?sn)))"
    unfolding assms(2) [symmetric] GetSnapshotData_def assms(1) option.case Let_def
      off_def [symmetric] next_completed_def [symmetric] xmax_def [symmetric] xmin0_def [symmetric] ids prod.case set
    by (simp add: split_beta)
  show "(snap_xmin sn, xip sn, subxip sn, snap_suboverflowed sn) = snapshot_ids in_recovery off xmax xmin0 s"
    "snap_xmax sn = xmax" "takenDuringRecovery sn = in_recovery"
    "snapXactCompletionCount sn = xactCompletionCount (pa_shared s)"
    "s' = fst (set_my_xmin (snap_xmin sn) (s, be))" "RecentXmin be' = snap_xmin sn"
    "TransactionXmin be' = TransactionXmin (snd (set_my_xmin (snap_xmin sn) (s, be)))" "MyProcNo be' = MyProcNo be"
    using e by (simp_all add: ids set be1 snapshot_horizons_def Let_def)
qed

lemma GetSnapshotData_result:
  assumes "pa_inv s" and "MyProcNo be \<in> set (pgprocnos s)" and "top_ids s \<subseteq> xid_window b"
    and "next_completed s \<in> xid_window b" and "GetSnapshotDataReuse cid old sn0 s be = None"
    and "GetSnapshotData False cid old sn0 s be = (sn, s', be', ev)"
  defines "qs \<equiv> filter (in_snapshot_scope (MyProcNo be) (next_completed s) s) (pgprocnos s)"
  shows "xip sn = map (\<lambda>q. p_xid (allProcs s q)) qs"
    and "snap_suboverflowed sn \<longleftrightarrow> (\<exists>q \<in> set qs. suboverflowed (allProcs s q))"
    and "\<not> snap_suboverflowed sn \<longrightarrow> subxip sn = concat (map (\<lambda>q. subxids (allProcs s q)) qs)"
    and "oldest_in b ({next_completed s} \<union> valid_id (p_xid (allProcs s (MyProcNo be))) \<union> set (xip sn)) (snap_xmin sn)"
    and "length (subxip sn) \<le> sum_list (map (\<lambda>q. length (subxids (allProcs s q))) qs)"
proof -
  let ?me = "MyProcNo be" and ?xmax = "next_completed s"
  define off where "off = pgxactoff (allProcs s ?me)"
  define myxid where "myxid = p_xid (allProcs s ?me)"
  define xmin0 where "xmin0 = (if TransactionIdIsNormal myxid \<and> NormalTransactionIdPrecedes myxid ?xmax then myxid else ?xmax)"
  have my: "g_xids s ! off = myxid"
    using assms(1) pa_offset [OF assms(1,2)] by (simp add: pa_inv_def off_def myxid_def)
  note build = GetSnapshotData_build [OF assms(5,6), folded off_def, unfolded my, folded xmin0_def]
  have "valid_id myxid \<subseteq> xid_window b" using assms(2,3) by (auto simp: top_ids_def myxid_def)
  then have vw: "myxid \<in> xid_window b" if "TransactionIdIsValid myxid" using that by (auto simp: valid_id_def)
  have "xmin0 = TransactionIdOlder myxid ?xmax"
  proof (cases "TransactionIdIsValid myxid")
    case True
    then show ?thesis
      using vw assms(4) window_valid [OF assms(4)] window_normal [OF vw]
      by (simp add: xmin0_def TransactionIdOlder_def normal_precedes_window [OF vw] precedes_window [OF vw])
  next
    case False
    then show ?thesis
      by (auto simp: xmin0_def TransactionIdOlder_def TransactionIdIsValid_def TransactionIdIsNormal_def
          InvalidTransactionId_def FirstNormalTransactionId_def)
  qed
  with oldest_in_older [OF oldest_in_valid_id oldest_in_single] \<open>valid_id myxid \<subseteq> xid_window b\<close> assms(4)
  have x0: "oldest_in b (valid_id myxid \<union> {?xmax}) xmin0" by metis
  have rng: "set [0 ..< length (pgprocnos s)] \<subseteq> {..< length (pgprocnos s)}" by auto
  have all: "map (\<lambda>i. pgprocnos s ! i) [0 ..< length (pgprocnos s)] = pgprocnos s" by (simp add: map_nth)
  obtain xm subs where l:
    "fold (snapshot_proc off ?xmax s) [0 ..< length (pgprocnos s)] (xmin0, [], [], False)
      = (xm, [] @ map (\<lambda>q. p_xid (allProcs s q)) qs, subs, False \<or> (\<exists>q \<in> set qs. suboverflowed (allProcs s q)))"
    "oldest_in b (valid_id myxid \<union> {?xmax} \<union> (\<lambda>q. p_xid (allProcs s q)) ` set qs) xm"
    "\<not> False \<and> (\<forall>q \<in> set qs. \<not> suboverflowed (allProcs s q)) \<longrightarrow> subs = [] @ concat (map (\<lambda>q. subxids (allProcs s q)) qs)"
    "length subs \<le> length ([] :: TransactionId list) + sum_list (map (\<lambda>q. length (subxids (allProcs s q))) qs)"
    using snapshot_loop [OF assms(1,2) rng assms(3) x0, of ?xmax "[]" "[]" False] unfolding all qs_def [symmetric] off_def
    by auto
  have "(snap_xmin sn, xip sn, subxip sn, snap_suboverflowed sn)
      = (xm, map (\<lambda>q. p_xid (allProcs s q)) qs, subs, \<exists>q \<in> set qs. suboverflowed (allProcs s q))"
    unfolding build(1) snapshot_ids_def using l(1) by simp
  then show "xip sn = map (\<lambda>q. p_xid (allProcs s q)) qs"
    "snap_suboverflowed sn \<longleftrightarrow> (\<exists>q \<in> set qs. suboverflowed (allProcs s q))"
    "\<not> snap_suboverflowed sn \<longrightarrow> subxip sn = concat (map (\<lambda>q. subxids (allProcs s q)) qs)"
    "oldest_in b ({?xmax} \<union> valid_id (p_xid (allProcs s ?me)) \<union> set (xip sn)) (snap_xmin sn)"
    "length (subxip sn) \<le> sum_list (map (\<lambda>q. length (subxids (allProcs s q))) qs)"
    using l(2-4) by (simp_all add: myxid_def [symmetric] Un_commute)
qed

subsection \<open>The transactions that really run\<close>

text \<open>
  \<open>live q\<close> are the ids of the transaction of backend \<open>q\<close> and of its subtransactions that are in
  progress. The array shows the first, which is the oldest, and caches the others; the cache is
  complete unless it has overflowed. This half circle starts at \<open>b\<close>.
\<close>

definition shows_live :: "TransactionId \<Rightarrow> TransactionId set \<Rightarrow> ProcEntry \<Rightarrow> bool" where
  "shows_live b L proc \<longleftrightarrow> L \<subseteq> xid_window b
     \<and> (if TransactionIdIsValid (p_xid proc)
        then p_xid proc \<in> L \<and> (\<forall>x \<in> L. unat (p_xid proc - b) \<le> unat (x - b)) else L = {})
     \<and> distinct (subxids proc) \<and> set (subxids proc) \<subseteq> L \<and> (\<not> suboverflowed proc \<longrightarrow> L \<subseteq> insert (p_xid proc) (set (subxids proc)))"

definition live_inv :: "TransactionId \<Rightarrow> (nat \<Rightarrow> TransactionId set) \<Rightarrow> ProcArrayStruct \<Rightarrow> bool" where
  "live_inv b live s \<longleftrightarrow> pa_inv s \<and> next_completed s \<in> xid_window b
     \<and> (\<forall>q \<in> set (pgprocnos s). shows_live b (live q) (allProcs s q))"

text \<open>The subtransaction log links every id in progress to its topmost one, through ids in progress.\<close>

definition subtrans_live :: "SubTransSlru \<Rightarrow> TransactionId \<Rightarrow> TransactionId \<Rightarrow> TransactionId set \<Rightarrow> bool" where
  "subtrans_live sub b topxid L \<longleftrightarrow> \<not> TransactionIdIsValid (SubTransGetParent sub topxid)
     \<and> (\<forall>x \<in> L. x \<noteq> topxid \<longrightarrow> SubTransGetParent sub x \<in> L \<and> unat (SubTransGetParent sub x - b) < unat (x - b))"

lemma topmost_live:
  assumes "subtrans_live sub b topxid L" and "L \<subseteq> xid_window b" and "topxid \<in> L"
    and "\<forall>x \<in> L. unat (topxid - b) \<le> unat (x - b)"
    and "txmin \<in> xid_window b" and "unat (txmin - b) \<le> unat (topxid - b)" and "x \<in> L"
  shows "SubTransGetTopmostTransaction sub txmin x = Some (Inr topxid)"
proof -
  have "topmost_loop sub txmin x prev = Some (Inr topxid)" for prev
    using assms(7)
  proof (induction "unat (x - b)" arbitrary: x prev rule: less_induct)
    case less
    have x: "x \<in> xid_window b" "TransactionIdIsValid x" using less.prems assms(2) window_valid by blast+
    have le: "unat (txmin - b) \<le> unat (x - b)" using assms(4,6) less.prems by (meson order_trans)
    have np: "\<not> TransactionIdPrecedes x txmin" using le precedes_window [OF x(1) assms(5)] by simp
    show ?case
    proof (cases "x = topxid")
      case True
      define p where "p = SubTransGetParent sub topxid"
      have p: "\<not> TransactionIdIsValid p" using assms(1) by (simp add: subtrans_live_def p_def)
      then have "p = 0" by (simp add: TransactionIdIsValid_def InvalidTransactionId_def)
      have "TransactionIdPrecedes p topxid"
        using window_normal [OF x(1)] True \<open>p = 0\<close>
        by (auto simp: TransactionIdPrecedes_def TransactionIdIsNormal_def FirstNormalTransactionId_def word_less_def
            word_le_def Let_def)
      then show ?thesis
        using True np x(2) p by (simp add: topmost_loop.simps [of _ _ topxid] topmost_loop.simps [of _ _ p] p_def [symmetric] Let_def)
    next
      case False
      define p where "p = SubTransGetParent sub x"
      have p: "p \<in> L" "unat (p - b) < unat (x - b)" using assms(1) less.prems False by (auto simp: subtrans_live_def p_def)
      have "TransactionIdPrecedes p x" using p assms(2) precedes_window [OF _ x(1)] by blast
      then have "topmost_loop sub txmin x prev = topmost_loop sub txmin p x"
        using x(2) np by (subst topmost_loop.simps) (simp add: p_def [symmetric] Let_def)
      then show ?thesis using less.hyps [OF p(2,1)] by simp
    qed
  qed
  then show ?thesis by (simp add: SubTransGetTopmostTransaction_def)
qed

definition scope_live :: "nat \<Rightarrow> (nat \<Rightarrow> TransactionId set) \<Rightarrow> ProcArrayStruct \<Rightarrow> TransactionId set" where
  "scope_live me live s = (\<Union>q \<in> {q \<in> set (pgprocnos s). q \<noteq> me \<and> \<not> skips_horizon (allProcs s q)}. live q)"

lemma live_top_ids:
  assumes "live_inv b live s"
  shows "top_ids s \<subseteq> xid_window b"
  using assms by (force simp: live_inv_def shows_live_def top_ids_def valid_id_def split: if_splits)

text \<open>What a snapshot contains, in terms of the ids in progress.\<close>

lemma GetSnapshotData_live:
  assumes "live_inv b live s" and "MyProcNo be \<in> set (pgprocnos s)" and "GetSnapshotDataReuse cid old sn0 s be = None"
    and "GetSnapshotData False cid old sn0 s be = (sn, s', be', ev)"
  defines "before \<equiv> \<lambda>x. unat (x - b) < unat (next_completed s - b)"
  shows "snap_xmin sn \<in> xid_window b" and "unat (snap_xmin sn - b) \<le> unat (next_completed s - b)"
    and "\<And>x. x \<in> scope_live (MyProcNo be) live s \<Longrightarrow> before x \<Longrightarrow> unat (snap_xmin sn - b) \<le> unat (x - b)"
    and "\<And>q. q \<in> set (pgprocnos s) \<Longrightarrow> q \<noteq> MyProcNo be \<Longrightarrow> \<not> skips_horizon (allProcs s q) \<Longrightarrow>
      x \<in> live q \<Longrightarrow> before x \<Longrightarrow> p_xid (allProcs s q) \<in> set (xip sn)"
    and "\<not> snap_suboverflowed sn \<Longrightarrow> x \<in> set (xip sn) \<union> set (subxip sn) \<Longrightarrow> x \<in> scope_live (MyProcNo be) live s"
    and "\<not> snap_suboverflowed sn \<Longrightarrow> x \<in> scope_live (MyProcNo be) live s \<Longrightarrow> before x \<Longrightarrow> x \<in> set (xip sn) \<union> set (subxip sn)"
    and "set (xip sn) \<subseteq> top_ids s"
proof -
  let ?me = "MyProcNo be"
  have inv: "pa_inv s" "next_completed s \<in> xid_window b" "\<And>q. q \<in> set (pgprocnos s) \<Longrightarrow> shows_live b (live q) (allProcs s q)"
    using assms(1) by (auto simp: live_inv_def)
  note r = GetSnapshotData_result [OF inv(1) assms(2) live_top_ids [OF assms(1)] inv(2) assms(3,4)]
  have scope: "in_snapshot_scope ?me (next_completed s) s q"
    if "q \<in> set (pgprocnos s)" "q \<noteq> ?me" "\<not> skips_horizon (allProcs s q)" "x \<in> live q" "before x" for q x
  proof -
    have v: "TransactionIdIsValid (p_xid (allProcs s q))" and le: "unat (p_xid (allProcs s q) - b) \<le> unat (x - b)"
      and w: "p_xid (allProcs s q) \<in> xid_window b"
      using inv(3) [OF that(1)] that(4) by (auto simp: shows_live_def split: if_splits)
    then show ?thesis
      using that normal_precedes_window [OF w inv(2)] by (auto simp: in_snapshot_scope_def before_def)
  qed
  show xm: "snap_xmin sn \<in> xid_window b" "unat (snap_xmin sn - b) \<le> unat (next_completed s - b)"
    using oldest_inD [OF r(4), of "next_completed s"] r(4) by (auto simp: oldest_in_def)
  show top: "p_xid (allProcs s q) \<in> set (xip sn)"
    if "q \<in> set (pgprocnos s)" "q \<noteq> ?me" "\<not> skips_horizon (allProcs s q)" "x \<in> live q" "before x" for q x
    using scope [OF that] that(1) by (auto simp: r(1))
  show "unat (snap_xmin sn - b) \<le> unat (x - b)" if x: "x \<in> scope_live ?me live s" "before x" for x
  proof -
    obtain q where q: "q \<in> set (pgprocnos s)" "q \<noteq> ?me" "\<not> skips_horizon (allProcs s q)" "x \<in> live q"
      using x(1) by (auto simp: scope_live_def)
    have "unat (snap_xmin sn - b) \<le> unat (p_xid (allProcs s q) - b)"
      using oldest_inD [OF r(4)] top [OF q x(2)] by blast
    also have "\<dots> \<le> unat (x - b)" using inv(3) [OF q(1)] q(4) by (auto simp: shows_live_def split: if_splits)
    finally show ?thesis .
  qed
  show "x \<in> scope_live ?me live s" if "\<not> snap_suboverflowed sn" "x \<in> set (xip sn) \<union> set (subxip sn)" for x
  proof -
    have "\<exists>q \<in> set (pgprocnos s). in_snapshot_scope ?me (next_completed s) s q
        \<and> (x = p_xid (allProcs s q) \<or> x \<in> set (subxids (allProcs s q)))"
      using that r(1,3) by auto
    then obtain q where q: "q \<in> set (pgprocnos s)" "in_snapshot_scope ?me (next_completed s) s q"
      "x = p_xid (allProcs s q) \<or> x \<in> set (subxids (allProcs s q))" by blast
    then have "x \<in> live q" using inv(3) [OF q(1)] by (auto simp: shows_live_def in_snapshot_scope_def)
    then show ?thesis using q by (auto simp: scope_live_def in_snapshot_scope_def)
  qed
  show "x \<in> set (xip sn) \<union> set (subxip sn)" if x: "\<not> snap_suboverflowed sn" "x \<in> scope_live ?me live s" "before x" for x
  proof -
    obtain q where q: "q \<in> set (pgprocnos s)" "q \<noteq> ?me" "\<not> skips_horizon (allProcs s q)" "x \<in> live q"
      using x(2) by (auto simp: scope_live_def)
    have sc: "in_snapshot_scope ?me (next_completed s) s q" using scope [OF q x(3)] .
    then have "\<not> suboverflowed (allProcs s q)" using x(1) r(2) q(1) by auto
    then have "x = p_xid (allProcs s q) \<or> x \<in> set (subxids (allProcs s q))"
      using inv(3) [OF q(1)] q(4) by (auto simp: shows_live_def)
    then show ?thesis using sc q(1) r(1,3) x(1) by auto
  qed
  show "set (xip sn) \<subseteq> top_ids s"
    by (auto simp: r(1) top_ids_def in_snapshot_scope_def valid_id_def)
qed

lemma XidInMVCCSnapshot_live:
  assumes "live_inv b live s" and "MyProcNo be \<in> set (pgprocnos s)" and "GetSnapshotDataReuse cid old sn0 s be = None"
    and "GetSnapshotData False cid old sn0 s be = (sn, s', be', ev)"
    and "\<forall>q \<in> set (pgprocnos s). live q \<noteq> {} \<longrightarrow> subtrans_live sub b (p_xid (allProcs s q)) (live q)"
    and "txmin \<in> xid_window b" and "TransactionIdPrecedesOrEquals txmin (snap_xmin sn)" and "x \<in> xid_window b"
  defines "before \<equiv> unat (x - b) < unat (next_completed s - b)"
  shows "x \<in> scope_live (MyProcNo be) live s \<Longrightarrow> XidInMVCCSnapshot sub txmin x sn = Some (Inr True)"
    and "\<not> before \<Longrightarrow> XidInMVCCSnapshot sub txmin x sn = Some (Inr True)"
    and "before \<Longrightarrow> x \<notin> scope_live (MyProcNo be) live s \<Longrightarrow> \<not> snap_suboverflowed sn \<Longrightarrow>
      XidInMVCCSnapshot sub txmin x sn = Some (Inr False)"
    and "before \<Longrightarrow> SubTransGetTopmostTransaction sub txmin x = Some (Inr t) \<Longrightarrow> snap_suboverflowed sn \<Longrightarrow>
      t \<notin> set (xip sn) \<Longrightarrow> XidInMVCCSnapshot sub txmin x sn = Some (Inr False)"
proof -
  let ?me = "MyProcNo be"
  note r = GetSnapshotData_live [OF assms(1-4)]
  note b = GetSnapshotData_build(2,3) [OF assms(3,4)]
  have nw: "next_completed s \<in> xid_window b" using assms(1) by (simp add: live_inv_def)
  have cmp: "TransactionIdPrecedes x (snap_xmin sn) \<longleftrightarrow> unat (x - b) < unat (snap_xmin sn - b)"
    "TransactionIdFollowsOrEquals x (snap_xmax sn) \<longleftrightarrow> \<not> before"
    using precedes_window [OF assms(8) r(1)] follows_or_equals_window [OF assms(8) nw] by (auto simp: b before_def)
  show future: "XidInMVCCSnapshot sub txmin x sn = Some (Inr True)" if "\<not> before"
    using that r(2) unfolding XidInMVCCSnapshot_def cmp before_def by simp
  show "XidInMVCCSnapshot sub txmin x sn = Some (Inr True)" if x: "x \<in> scope_live ?me live s"
  proof (cases before)
    case False
    then show ?thesis by (rule future)
  next
    case True
    have ge: "\<not> unat (x - b) < unat (snap_xmin sn - b)" using r(3) [OF x] True by (simp add: before_def)
    show ?thesis
    proof (cases "snap_suboverflowed sn")
      case False
      then show ?thesis
        using r(6) [OF False x] True ge b(2) unfolding XidInMVCCSnapshot_def cmp before_def by auto
    next
      case over: True
      obtain q where q: "q \<in> set (pgprocnos s)" "q \<noteq> ?me" "\<not> skips_horizon (allProcs s q)" "x \<in> live q"
        using x by (auto simp: scope_live_def)
      let ?top = "p_xid (allProcs s q)"
      have sh: "live q \<subseteq> xid_window b" "?top \<in> live q" "\<forall>y \<in> live q. unat (?top - b) \<le> unat (y - b)"
        using assms(1) q(1,4) by (auto simp: live_inv_def shows_live_def split: if_splits)
      have top: "?top \<in> set (xip sn)" using r(4) [OF q] True by (simp add: before_def)
      have topb: "unat (?top - b) < unat (next_completed s - b)" using sh(3) q(4) True by (auto simp: before_def)
      have tw: "?top \<in> scope_live ?me live s" using q sh(2) by (auto simp: scope_live_def)
      have xt: "unat (snap_xmin sn - b) \<le> unat (?top - b)" using r(3) [OF tw topb] .
      have "unat (txmin - b) \<le> unat (?top - b)"
        using assms(7) precedes_or_equals_window [OF assms(6) r(1)] xt by auto
      then have walk: "SubTransGetTopmostTransaction sub txmin x = Some (Inr ?top)"
        using topmost_live [of sub b ?top "live q" txmin x] assms(5,6) q(1,4) sh by auto
      have "\<not> TransactionIdPrecedes ?top (snap_xmin sn)"
        using xt precedes_window [of ?top b "snap_xmin sn"] sh(1,2) r(1) by auto
      then show ?thesis
        using over ge True b(2) top unfolding XidInMVCCSnapshot_def cmp search_topmost_def walk by auto
    qed
  qed
  show "XidInMVCCSnapshot sub txmin x sn = Some (Inr False)"
    if "before" "x \<notin> scope_live ?me live s" "\<not> snap_suboverflowed sn"
    using that r(5) [OF that(3), of x] b(2) unfolding XidInMVCCSnapshot_def cmp by auto
  show "XidInMVCCSnapshot sub txmin x sn = Some (Inr False)"
    if "before" "SubTransGetTopmostTransaction sub txmin x = Some (Inr t)" "snap_suboverflowed sn" "t \<notin> set (xip sn)"
    using that b(2) unfolding XidInMVCCSnapshot_def cmp search_topmost_def by auto
qed

subsection \<open>The arrays of a snapshot are large enough\<close>

lemma snapshot_ids_recovery:
  assumes "ka_wf b (pa_known s)" and "xmax \<in> xid_window b"
  shows "snapshot_ids True off xmax xmin s =
    (let xm = (if ka_list (pa_known s) \<noteq> [] \<and> TransactionIdPrecedes (hd (ka_list (pa_known s))) xmin
               then hd (ka_list (pa_known s)) else xmin)
     in (xm, [], filter (\<lambda>x. TransactionIdPrecedes x xmax) (ka_list (pa_known s)),
         TransactionIdPrecedesOrEquals xm (pa_lastOverflowedXid s)))"
  by (simp add: snapshot_ids_def KnownAssignedXidsGetAndSetXmin_result [OF assms] Let_def)

text \<open>
  C22: a snapshot always fits the arrays allocated for it: the ids of transactions fit the array of
  \<open>GetMaxSnapshotXidCount\<close> entries, and the ids of subtransactions, or during recovery all known
  ids, fit the array of \<open>GetMaxSnapshotSubxidCount\<close> entries.
\<close>

theorem GetSnapshotData_fits:
  assumes "pa_inv s" and "MyProcNo be \<in> set (pgprocnos s)" and "top_ids s \<subseteq> xid_window b"
    and "next_completed s \<in> xid_window b" and "GetSnapshotDataReuse cid old sn0 s be = None"
    and "GetSnapshotData in_recovery cid old sn0 s be = (sn, s', be', ev)"
    and "\<forall>q \<in> set (pgprocnos s). length (subxids (allProcs s q)) \<le> PGPROC_MAX_CACHED_SUBXIDS"
    and "ka_wf b (pa_known s)" and "maxKnownAssignedXids (pa_known s) = TOTAL_MAX_CACHED_SUBXIDS (maxProcs s)"
  shows "length (xip sn) \<le> GetMaxSnapshotXidCount s \<and> length (subxip sn) \<le> GetMaxSnapshotSubxidCount (maxProcs s)"
proof (cases in_recovery)
  case True
  have "length (subxip sn) \<le> length (ka_list (pa_known s)) \<and> xip sn = []"
    using GetSnapshotData_build(1) [OF assms(5,6)] True by (simp add: snapshot_ids_recovery [OF assms(8,4)] Let_def)
  then show ?thesis
    using ka_list_length [OF assms(8)] assms(9) by (simp add: GetMaxSnapshotSubxidCount_def)
next
  case False
  let ?qs = "filter (in_snapshot_scope (MyProcNo be) (next_completed s) s) (pgprocnos s)"
  note r = GetSnapshotData_result [OF assms(1-5) assms(6) [unfolded False [THEN eq_False [THEN iffD2]]]]
  have "length ?qs \<le> length (pgprocnos s)" by (rule length_filter_le)
  also have "\<dots> \<le> maxProcs s" using assms(1) by (simp add: pa_inv_def)
  finally have n: "length ?qs \<le> maxProcs s" .
  have "sum_list (map (\<lambda>q. length (subxids (allProcs s q))) ?qs) \<le> sum_list (map (\<lambda>q. PGPROC_MAX_CACHED_SUBXIDS) ?qs)"
    using assms(7) by (intro sum_list_mono) auto
  also have "\<dots> = length ?qs * PGPROC_MAX_CACHED_SUBXIDS" by (simp add: sum_list_triv)
  also have "\<dots> \<le> maxProcs s * PGPROC_MAX_CACHED_SUBXIDS" using n by simp
  finally show ?thesis
    using r(1,5) n by (simp add: GetMaxSnapshotXidCount_def GetMaxSnapshotSubxidCount_def TOTAL_MAX_CACHED_SUBXIDS_def algebra_simps)
qed

subsection \<open>Snapshots on a standby\<close>

text \<open>
  The array of a standby holds the state of \<open>HotStandby\<close>; its backends have no ids of their own. The
  log of subtransactions leads from every id that is running on the primary to one that is known to
  be running.
\<close>

definition standby_view :: "StandbyProcArray \<Rightarrow> ProcArrayStruct \<Rightarrow> bool" where
  "standby_view st s \<longleftrightarrow> pa_known s = known st \<and> pa_lastOverflowedXid s = lastOverflowedXid st \<and> top_ids s = {}"

definition covered :: "TransactionId \<Rightarrow> StandbyProcArray \<Rightarrow> SubTransSlru \<Rightarrow> TransactionId \<Rightarrow> TransactionId \<Rightarrow> bool" where
  "covered b st sub txmin x \<longleftrightarrow>
     (\<exists>t \<in> running st. SubTransGetTopmostTransaction sub txmin x = Some (Inr t) \<and> unat (t - b) \<le> unat (x - b)
        \<and> (x \<in> running st \<or> lastOverflowedXid st \<in> xid_window b \<and> unat (x - b) \<le> unat (lastOverflowedXid st - b)))"

lemma standby_snapshot_xmin:
  assumes "ka_inv b (pa_known s)" and "next_completed s \<in> xid_window b" and "top_ids s = {}" and "pa_inv s"
    and "MyProcNo be \<in> set (pgprocnos s)" and "GetSnapshotDataReuse cid old sn0 s be = None"
    and "GetSnapshotData True cid old sn0 s be = (sn, s', be', ev)"
  shows "xip sn = []" and "subxip sn = filter (\<lambda>x. TransactionIdPrecedes x (next_completed s)) (ka_list (pa_known s))"
    and "oldest_in b ({next_completed s} \<union> set (ka_list (pa_known s))) (snap_xmin sn)"
    and "snap_suboverflowed sn \<longleftrightarrow> TransactionIdPrecedesOrEquals (snap_xmin sn) (pa_lastOverflowedXid s)"
proof -
  let ?ka = "pa_known s" and ?me = "MyProcNo be" and ?xmax = "next_completed s"
  define off where "off = pgxactoff (allProcs s ?me)"
  have wf: "ka_wf b ?ka" using assms(1) by (simp add: ka_inv_def)
  have "\<not> TransactionIdIsValid (p_xid (allProcs s ?me))"
    using assms(3,5) by (auto simp: top_ids_def valid_id_def split: if_splits)
  then have "\<not> TransactionIdIsNormal (g_xids s ! off)"
    using assms(4,5) pa_mirror(1) [OF assms(4,5)]
    by (auto simp: off_def TransactionIdIsValid_def TransactionIdIsNormal_def InvalidTransactionId_def FirstNormalTransactionId_def)
  then have ids: "(snap_xmin sn, xip sn, subxip sn, snap_suboverflowed sn) = snapshot_ids True off ?xmax ?xmax s"
    using GetSnapshotData_build(1) [OF assms(6,7), folded off_def] by simp
  show "xip sn = []" "subxip sn = filter (\<lambda>x. TransactionIdPrecedes x ?xmax) (ka_list ?ka)"
    "snap_suboverflowed sn \<longleftrightarrow> TransactionIdPrecedesOrEquals (snap_xmin sn) (pa_lastOverflowedXid s)"
    using ids by (simp_all add: snapshot_ids_recovery [OF wf assms(2)] Let_def)
  have "snap_xmin sn = TransactionIdOlder (KnownAssignedXidsGetOldestXmin ?ka) ?xmax"
    using ids window_valid [OF assms(2)] ka_list_window [OF wf] window_valid
    by (cases "ka_list ?ka") (auto simp: snapshot_ids_recovery [OF wf assms(2)] Let_def ka_tail_first [OF assms(1)]
        TransactionIdOlder_def TransactionIdIsValid_def)
  then show "oldest_in b ({?xmax} \<union> set (ka_list ?ka)) (snap_xmin sn)"
    using oldest_in_older [OF oldest_in_known [OF assms(1)] oldest_in_single [OF assms(2)]] by (simp add: Un_commute)
qed

lemma standby_snapshot_answers:
  assumes "standby_inv b st" and "standby_view st s" and "pa_inv s" and "MyProcNo be \<in> set (pgprocnos s)"
    and "next_completed s \<in> xid_window b" and "GetSnapshotDataReuse cid old sn0 s be = None"
    and "GetSnapshotData True cid old sn0 s be = (sn, s', be', ev)" and "x \<in> xid_window b"
  shows "(covered b st sub txmin x \<or> unat (next_completed s - b) \<le> unat (x - b) \<longrightarrow>
        XidInMVCCSnapshot sub txmin x sn = Some (Inr True))
    \<and> (unat (x - b) < unat (next_completed s - b) \<and> x \<notin> running st
        \<and> (\<exists>t. SubTransGetTopmostTransaction sub txmin x = Some (Inr t) \<and> t \<notin> running st) \<longrightarrow>
        XidInMVCCSnapshot sub txmin x sn = Some (Inr False))"
proof -
  let ?xmax = "next_completed s"
  have v: "pa_known s = known st" "pa_lastOverflowedXid s = lastOverflowedXid st" "top_ids s = {}"
    using assms(2) by (simp_all add: standby_view_def)
  have ka: "ka_inv b (pa_known s)" using assms(1) v(1) by (simp add: standby_inv_def)
  have run: "set (ka_list (pa_known s)) = running st" by (simp add: running_def v(1))
  note r = standby_snapshot_xmin [OF ka assms(5) v(3) assms(3,4,6,7)]
  have runw: "running st \<subseteq> xid_window b" using r(3) unfolding run oldest_in_def by auto
  have xm: "snap_xmin sn \<in> xid_window b" "\<And>y. y \<in> running st \<Longrightarrow> unat (snap_xmin sn - b) \<le> unat (y - b)"
    "unat (snap_xmin sn - b) \<le> unat (?xmax - b)"
    using r(3) unfolding run oldest_in_def by auto
  have b: "snap_xmax sn = ?xmax" "takenDuringRecovery sn" using GetSnapshotData_build(2,3) [OF assms(6,7)] by simp_all
  have cmp: "TransactionIdPrecedes x (snap_xmin sn) \<longleftrightarrow> unat (x - b) < unat (snap_xmin sn - b)"
    "TransactionIdFollowsOrEquals x (snap_xmax sn) \<longleftrightarrow> unat (?xmax - b) \<le> unat (x - b)"
    using precedes_window [OF assms(8) xm(1)] follows_or_equals_window [OF assms(8,5)] by (simp_all add: b(1))
  have mem: "y \<in> set (subxip sn) \<longleftrightarrow> y \<in> running st \<and> unat (y - b) < unat (?xmax - b)" for y
    using precedes_window [OF _ assms(5), of y] runw by (auto simp: r(2) run)
  have new: "XidInMVCCSnapshot sub txmin x sn = Some (Inr True)" if "unat (?xmax - b) \<le> unat (x - b)"
    using that xm(3) unfolding XidInMVCCSnapshot_def cmp by simp
  have "XidInMVCCSnapshot sub txmin x sn = Some (Inr True)" if x: "covered b st sub txmin x" "unat (x - b) < unat (?xmax - b)"
  proof -
    obtain t where t: "t \<in> running st" "SubTransGetTopmostTransaction sub txmin x = Some (Inr t)" "unat (t - b) \<le> unat (x - b)"
      "x \<in> running st \<or> lastOverflowedXid st \<in> xid_window b \<and> unat (x - b) \<le> unat (lastOverflowedXid st - b)"
      using x(1) by (auto simp: covered_def)
    have le: "unat (snap_xmin sn - b) \<le> unat (t - b)" using xm(2) [OF t(1)] .
    have "\<not> TransactionIdPrecedes t (snap_xmin sn)" using precedes_window [OF _ xm(1), of t] runw t(1) le by auto
    moreover have "t \<in> set (subxip sn)" using t(1,3) x(2) by (simp add: mem)
    moreover have "snap_suboverflowed sn \<or> x \<in> set (subxip sn)"
      using t(3,4) le x(2) precedes_or_equals_window [OF xm(1), of "lastOverflowedXid st"] by (auto simp: r(4) v(2) mem)
    ultimately show ?thesis
      using x(2) le t(2,3) b(2) unfolding XidInMVCCSnapshot_def cmp search_topmost_def by auto
  qed
  moreover have "XidInMVCCSnapshot sub txmin x sn = Some (Inr False)"
    if "unat (x - b) < unat (?xmax - b)" "x \<notin> running st" "SubTransGetTopmostTransaction sub txmin x = Some (Inr t)" "t \<notin> running st" for t
    using that b(2) unfolding XidInMVCCSnapshot_def cmp search_topmost_def by (auto simp: mem)
  ultimately show ?thesis using new by (meson not_le)
qed

text \<open>
  C6: a snapshot taken on a standby shows as in progress every id the standby knows to be running on
  the primary; every subtransaction that was dropped from the array when its assignment was replayed, as
  long as its top-level transaction is running; and every id after the newest completed one. An older
  id that is not known as running, and whose topmost transaction is not either, is complete.
\<close>

theorem standby_snapshot_exact:
  assumes "standby_inv b st" and "standby_view st s" and "pa_inv s" and "MyProcNo be \<in> set (pgprocnos s)"
    and "next_completed s \<in> xid_window b" and "GetSnapshotDataReuse cid old sn0 s be = None"
    and "GetSnapshotData True cid old sn0 s be = (sn, s', be', ev)" and "x \<in> xid_window b"
  shows "(covered b st sub txmin x \<or> unat (next_completed s - b) \<le> unat (x - b) \<longrightarrow>
        XidInMVCCSnapshot sub txmin x sn = Some (Inr True))
    \<and> (unat (x - b) < unat (next_completed s - b) \<and> x \<notin> running st
        \<and> (\<exists>t. SubTransGetTopmostTransaction sub txmin x = Some (Inr t) \<and> t \<notin> running st) \<longrightarrow>
        XidInMVCCSnapshot sub txmin x sn = Some (Inr False))"
  using assms by (rule standby_snapshot_answers)

subsection \<open>Witnesses\<close>

definition sample_snapshot :: SnapshotData where
  "sample_snapshot = \<lparr>snapshot_type = SNAPSHOT_MVCC, snap_xmin = 0, snap_xmax = 0, xip = [], subxip = [],
     snap_suboverflowed = False, takenDuringRecovery = False, copied = False, curcid = 0, speculativeToken = 0,
     vistest = VISHORIZON_SHARED, active_count = 0, regd_count = 0, whenTaken = 0, snap_lsn = 0,
     snapXactCompletionCount = 0\<rparr>"

lemma zero_walk: "TransactionIdIsNormal x \<Longrightarrow> SubTransGetTopmostTransaction zero_subtrans t x = Some (Inr x)"
  by (auto simp: SubTransGetTopmostTransaction_def topmost_loop.simps [of _ _ x] topmost_loop.simps [of _ _ 0]
      Let_def TransactionIdIsValid_def InvalidTransactionId_def TransactionIdPrecedes_def TransactionIdIsNormal_def
      FirstNormalTransactionId_def word_less_def word_le_def)

lemma sample_fresh: "GetSnapshotDataReuse 0 None sample_snapshot s be = None"
  by (simp add: GetSnapshotDataReuse_def sample_snapshot_def)

theorem GetSnapshotData_fits_witness:
  "length (subxip (fst (GetSnapshotData False 0 None sample_snapshot
      (sample_array\<lparr>pa_known := sample_kax\<lparr>maxKnownAssignedXids := 260\<rparr>\<rparr>) sample_vis))) \<le> 260"
proof -
  let ?s = "sample_array\<lparr>pa_known := sample_kax\<lparr>maxKnownAssignedXids := 260\<rparr>\<rparr>" and ?b = "4294967290 :: TransactionId"
  obtain sn s' be' ev where g: "GetSnapshotData False 0 None sample_snapshot ?s sample_vis = (sn, s', be', ev)"
    by (metis prod.exhaust)
  have pa: "pa_inv ?s" using sample_pa_inv by (simp add: pa_inv_def)
  have me: "MyProcNo sample_vis \<in> set (pgprocnos ?s)" using sample_member by simp
  have n: "next_completed ?s \<in> xid_window ?b"
    using sample_next by (simp add: next_completed_def xid_window_def TransactionIdIsNormal_def FirstNormalTransactionId_def)
  have "p_xid (allProcs ?s 3) = 10" "p_xid (allProcs ?s 5) = 12" by (simp_all add: sample_array_def)
  then have "top_ids ?s \<subseteq> {10, 12}" by (auto simp: top_ids_def valid_id_def split: if_splits)
  then have t: "top_ids ?s \<subseteq> xid_window ?b"
    by (rule subset_trans) (simp add: xid_window_def TransactionIdIsNormal_def FirstNormalTransactionId_def)
  have c: "\<forall>q \<in> set (pgprocnos ?s). length (subxids (allProcs ?s q)) \<le> PGPROC_MAX_CACHED_SUBXIDS"
    by simp (simp add: sample_array_def sample_proc_def PGPROC_MAX_CACHED_SUBXIDS_def)
  have k: "ka_wf ?b (pa_known ?s)"
    using sample_kax_inv by (simp add: ka_inv_def ka_wf_def ka_list_def ka_entries_def ka_span_def) (simp add: sample_kax_def)
  have m: "maxKnownAssignedXids (pa_known ?s) = TOTAL_MAX_CACHED_SUBXIDS (maxProcs ?s)"
    by (simp add: TOTAL_MAX_CACHED_SUBXIDS_def PGPROC_MAX_CACHED_SUBXIDS_def) (simp add: sample_array_def)
  show ?thesis
    using GetSnapshotData_fits [OF pa me t n sample_fresh g c k m] g m
    by (simp add: GetMaxSnapshotSubxidCount_def)
qed

definition standby_array :: "StandbyProcArray \<Rightarrow> ProcArrayStruct" where
  "standby_array st = \<lparr>allProcs = (\<lambda>_. sample_proc), pgprocnos = [3], maxProcs = 4, g_xids = [0],
     g_subxidStates = [(0, False)], g_statusFlags = [0], replication_slot_xmin = 0, replication_slot_catalog_xmin = 0,
     pa_known = known st, pa_lastOverflowedXid = lastOverflowedXid st, pa_shared = shared st\<rparr>"

lemma standby_array_ok:
  "standby_view st (standby_array st)" "pa_inv (standby_array st)" "MyProcNo sample_vis \<in> set (pgprocnos (standby_array st))"
  by (simp_all add: standby_view_def standby_array_def top_ids_def valid_id_def sample_proc_def pa_inv_def sample_vis_def
      TransactionIdIsValid_def InvalidTransactionId_def)

lemma standby_array_next:
  "latestCompletedXid (shared st) = \<lparr>fxid_value = 0xFFFFFFFD\<rparr> \<Longrightarrow> next_completed (standby_array st) = 4294967294"
  by (simp add: next_completed_def standby_array_def XidFromFullTransactionId_def TransactionIdAdvance_def FirstNormalTransactionId_def)

lemma standby_next_window: "4294967294 \<in> xid_window 4294967290"
  by (simp add: xid_window_def TransactionIdIsNormal_def FirstNormalTransactionId_def)

theorem standby_snapshot_exact_witness:
  "XidInMVCCSnapshot zero_subtrans 4294967290 4294967290
     (fst (GetSnapshotData True 0 None sample_snapshot (standby_array sample_standby) sample_vis)) = Some (Inr True)"
proof -
  let ?s = "standby_array sample_standby" and ?b = "4294967290 :: TransactionId"
  obtain sn s' be' ev where g: "GetSnapshotData True 0 None sample_snapshot ?s sample_vis = (sn, s', be', ev)"
    by (metis prod.exhaust)
  have n: "next_completed ?s \<in> xid_window ?b"
    using standby_array_next [of sample_standby] standby_next_window by (simp add: sample_standby_def)
  have x: "4294967290 \<in> xid_window ?b" by (simp add: xid_window_def TransactionIdIsNormal_def FirstNormalTransactionId_def)
  have "covered ?b sample_standby zero_subtrans 4294967290 4294967290"
    using zero_walk [OF window_normal [OF x]]
    by (simp add: covered_def running_def sample_standby_def sample_kax_list)
  then show ?thesis
    using standby_snapshot_exact [OF sample_standby_inv standby_array_ok n sample_fresh g x, of zero_subtrans 4294967290] g by simp
qed

end
