(* ===== verification/RunningXacts.thy ===== *)
theory RunningXacts
  imports Snapshots
begin

section \<open>Runs of backends\<close>

text \<open>
  The operations on the process array that assign, end and hand over transactions, together with
  the ids that are really in progress: every state that backends can reach keeps the array and
  \<open>latestCompletedXid\<close> true to them. With it the answers of snapshots and of
  \<open>TransactionIdIsInProgress\<close> become statements about the transactions themselves.
\<close>

subsection \<open>Ids assigned and completed\<close>

definition next_xid :: "ProcArrayStruct \<Rightarrow> TransactionId" where
  "next_xid s = XidFromFullTransactionId (nextXid (pa_shared s))"

definition last_completed :: "ProcArrayStruct \<Rightarrow> TransactionId" where
  "last_completed s = XidFromFullTransactionId (latestCompletedXid (pa_shared s))"

definition assigned_ids :: "TransactionId \<Rightarrow> ProcArrayStruct \<Rightarrow> TransactionId set" where
  "assigned_ids b s = {x \<in> xid_window b. unat (x - b) < unat (next_xid s - b)}"

definition running_ids :: "(nat \<Rightarrow> TransactionId set) \<Rightarrow> ProcArrayStruct \<Rightarrow> TransactionId set" where
  "running_ids live s = (\<Union>q \<in> set (pgprocnos s). live q)"

text \<open>
  The invariant: the array shows the running ids, all of them assigned, and every assigned id that is
  not running is at most \<open>latestCompletedXid\<close>.
\<close>

definition run_inv :: "TransactionId \<Rightarrow> (nat \<Rightarrow> TransactionId set) \<Rightarrow> ProcArrayStruct \<Rightarrow> bool" where
  "run_inv b live s \<longleftrightarrow> pa_inv s \<and> last_completed s \<in> xid_window b \<and> next_xid s \<in> xid_window b
     \<and> unat (last_completed s - b) < unat (next_xid s - b)
     \<and> (\<forall>q \<in> set (pgprocnos s). shows_live b (live q) (allProcs s q))
     \<and> running_ids live s \<subseteq> assigned_ids b s
     \<and> (\<forall>x \<in> assigned_ids b s - running_ids live s. unat (x - b) \<le> unat (last_completed s - b))"

lemma shows_live_cong:
  "p_xid proc' = p_xid proc \<Longrightarrow> subxids proc' = subxids proc \<Longrightarrow> suboverflowed proc' = suboverflowed proc \<Longrightarrow>
    shows_live b L proc' = shows_live b L proc"
  by (simp add: shows_live_def)

lemma shows_live_idle: "p_xid proc = InvalidTransactionId \<Longrightarrow> subxids proc = [] \<Longrightarrow> shows_live b {} proc"
  by (simp add: shows_live_def TransactionIdIsValid_def)

lemma next_completed_window:
  assumes "run_inv b live s"
  shows "next_completed s \<in> xid_window b" and "unat (next_completed s - b) \<le> unat (next_xid s - b)"
    and "x \<in> xid_window b \<Longrightarrow> unat (x - b) < unat (next_completed s - b) \<longleftrightarrow> unat (x - b) \<le> unat (last_completed s - b)"
proof -
  have e: "next_completed s = TransactionIdAdvance (last_completed s)"
    by (simp add: next_completed_def last_completed_def)
  have w: "last_completed s \<in> xid_window b" "next_xid s \<in> xid_window b" "unat (last_completed s - b) < unat (next_xid s - b)"
    using assms by (simp_all add: run_inv_def)
  note a = window_advance [OF w]
  show "next_completed s \<in> xid_window b" "unat (next_completed s - b) \<le> unat (next_xid s - b)"
    unfolding e using a by blast+
  show "unat (x - b) < unat (next_completed s - b) \<longleftrightarrow> unat (x - b) \<le> unat (last_completed s - b)" if "x \<in> xid_window b"
    unfolding e using a that by (meson leD le_less_linear order_le_less_trans)
qed

lemma run_inv_live:
  assumes "run_inv b live s"
  shows "live_inv b live s"
  using assms next_completed_window(1) [OF assms] by (simp add: live_inv_def run_inv_def)

lemma run_inv_shown:
  assumes "run_inv b live s" and "q \<in> set (pgprocnos s)" and "TransactionIdIsValid (p_xid (allProcs s q))"
  shows "p_xid (allProcs s q) \<in> live q"
  using assms by (simp add: run_inv_def shows_live_def)

lemma run_inv_tops: "run_inv b live s \<Longrightarrow> top_ids s \<subseteq> running_ids live s"
  using run_inv_shown by (fastforce simp: top_ids_def valid_id_def running_ids_def)

subsection \<open>Completing transactions\<close>

lemma xid_full_relative: "XidFromFullTransactionId (FullXidRelativeTo rel x) = x"
proof -
  have "(ucast (scast (x - ucast (fxid_value rel)) :: uint64) :: TransactionId) = x - ucast (fxid_value rel)"
    by (rule bit_word_eqI) (simp add: bit_simps)
  then show ?thesis
    by (simp add: FullXidRelativeTo_def XidFromFullTransactionId_def FullTransactionIdFromU64_def
        U64FromFullTransactionId_def ucast_add_down Let_def)
qed

lemma last_completed_maintain:
  assumes "last_completed s \<in> xid_window b" and "latest \<in> xid_window b"
    and "pa_shared t = advance_completion_count (MaintainLatestCompletedXid latest (pa_shared s))"
  shows "last_completed t = (if unat (last_completed s - b) < unat (latest - b) then latest else last_completed s)"
    and "next_xid t = next_xid s"
proof -
  show "last_completed t = (if unat (last_completed s - b) < unat (latest - b) then latest else last_completed s)"
    using precedes_window [OF assms(1,2)] unfolding last_completed_def
    by (simp add: assms(3) advance_completion_count_def MaintainLatestCompletedXid_def Let_def xid_full_relative)
  show "next_xid t = next_xid s"
    by (simp add: next_xid_def assms(3) advance_completion_count_def MaintainLatestCompletedXid_def Let_def)
qed

text \<open>Ending the ids \<open>D\<close>, the newest of which is \<open>latest\<close>.\<close>

lemma run_inv_complete:
  assumes "run_inv b live s" and "pa_inv t"
    and "pa_shared t = advance_completion_count (MaintainLatestCompletedXid latest (pa_shared s))"
    and "\<forall>q \<in> set (pgprocnos t). shows_live b (live' q) (allProcs t q)"
    and "running_ids live' t \<subseteq> running_ids live s" and "running_ids live s \<subseteq> running_ids live' t \<union> D"
    and "latest \<in> running_ids live s" and "\<forall>x \<in> D. unat (x - b) \<le> unat (latest - b)"
  shows "run_inv b live' t"
proof -
  have inv: "last_completed s \<in> xid_window b" "next_xid s \<in> xid_window b"
    "unat (last_completed s - b) < unat (next_xid s - b)" "running_ids live s \<subseteq> assigned_ids b s"
    "\<forall>x \<in> assigned_ids b s - running_ids live s. unat (x - b) \<le> unat (last_completed s - b)"
    using assms(1) by (simp_all add: run_inv_def)
  have l: "latest \<in> xid_window b" "unat (latest - b) < unat (next_xid s - b)"
    using assms(7) inv(4) by (auto simp: assigned_ids_def)
  note m = last_completed_maintain [OF inv(1) l(1) assms(3)]
  have a: "assigned_ids b t = assigned_ids b s" by (simp add: assigned_ids_def m(2))
  have le: "unat (last_completed s - b) \<le> unat (last_completed t - b)" "unat (latest - b) \<le> unat (last_completed t - b)"
    by (simp_all add: m(1))
  have "unat (x - b) \<le> unat (last_completed t - b)" if "x \<in> assigned_ids b t - running_ids live' t" for x
  proof (cases "x \<in> D")
    case True
    then show ?thesis using assms(8) le(2) by (blast intro: order_trans)
  next
    case False
    then have "x \<in> assigned_ids b s - running_ids live s" using that assms(6) a by blast
    then show ?thesis using inv(5) le(1) by (blast intro: order_trans)
  qed
  moreover have "last_completed t \<in> xid_window b" "unat (last_completed t - b) < unat (next_xid t - b)"
    using inv(1,3) l by (simp_all add: m)
  moreover have "running_ids live' t \<subseteq> assigned_ids b t" using assms(5) inv(4) a by blast
  ultimately show ?thesis using assms(2,4) inv(2) by (simp add: run_inv_def m(2))
qed

lemma run_inv_keep:
  assumes "run_inv b live s" and "pa_inv t" and "next_xid t = next_xid s" and "last_completed t = last_completed s"
    and "\<forall>q \<in> set (pgprocnos t). shows_live b (live' q) (allProcs t q)" and "running_ids live' t = running_ids live s"
  shows "run_inv b live' t"
  using assms by (simp add: run_inv_def assigned_ids_def)

subsection \<open>The operations\<close>

lemma running_ids_upd:
  assumes "p \<in> set (pgprocnos s)" and "pgprocnos t = pgprocnos s"
  shows "running_ids (live(p := L)) t = (\<Union>q \<in> set (pgprocnos s) - {p}. live q) \<union> L"
  using assms by (auto simp: running_ids_def)

lemma running_ids_split: "p \<in> set (pgprocnos s) \<Longrightarrow> running_ids live s = (\<Union>q \<in> set (pgprocnos s) - {p}. live q) \<union> live p"
  by (auto simp: running_ids_def)

text \<open>Assigning an id: to the transaction if it has none, else to a subtransaction.\<close>

lemma run_inv_assign:
  assumes "run_inv b live (sys_array sys)" and "p \<in> set (pgprocnos (sys_array sys))"
    and "isSub \<longleftrightarrow> TransactionIdIsValid (p_xid (allProcs (sys_array sys) p))"
    and "uint (fxid_value (nextXid (pa_shared (sys_array sys)))) < 2 ^ 64 - 5"
    and "TransactionIdAdvance (next_xid (sys_array sys)) \<in> xid_window b"
    and "unat (next_xid (sys_array sys) - b) < unat (TransactionIdAdvance (next_xid (sys_array sys)) - b)"
  shows "run_inv b (live(p := insert (next_xid (sys_array sys)) (live p))) (sys_array (snd (assign_xid p isSub sys)))"
proof -
  let ?s = "sys_array sys" and ?x = "next_xid (sys_array sys)"
  define proc where "proc = allProcs ?s p"
  define proc' where "proc' = (if \<not> isSub then proc\<lparr>p_xid := ?x\<rparr>
      else if length (subxids proc) < PGPROC_MAX_CACHED_SUBXIDS then proc\<lparr>subxids := subxids proc @ [?x]\<rparr>
      else proc\<lparr>suboverflowed := True\<rparr>)"
  define t where "t = sys_array (snd (assign_xid p isSub sys))"
  have inv: "pa_inv ?s" "last_completed ?s \<in> xid_window b" "?x \<in> xid_window b"
    "unat (last_completed ?s - b) < unat (?x - b)" "\<forall>q \<in> set (pgprocnos ?s). shows_live b (live q) (allProcs ?s q)"
    "running_ids live ?s \<subseteq> assigned_ids b ?s"
    "\<forall>x \<in> assigned_ids b ?s - running_ids live ?s. unat (x - b) \<le> unat (last_completed ?s - b)"
    using assms(1) by (simp_all add: run_inv_def)
  have t: "t = (set_proc p proc' ?s)\<lparr>pa_shared := (pa_shared ?s)\<lparr>nextXid := FullTransactionIdAdvance (nextXid (pa_shared ?s))\<rparr>\<rparr>"
    unfolding t_def assign_xid_array(2) [OF inv(1) assms(2)] proc'_def proc_def next_xid_def by simp
  have nx: "next_xid t = TransactionIdAdvance ?x"
    using xid_advance [OF window_normal [OF inv(3), unfolded next_xid_def] assms(4)] by (simp add: t next_xid_def)
  have lc: "last_completed t = last_completed ?s" by (simp add: t last_completed_def)
  have adv: "unat (x - b) < unat (next_xid t - b) \<longleftrightarrow> unat (x - b) < unat (?x - b) \<or> x = ?x" if "x \<in> xid_window b" for x
  proof -
    have "unat (x - b) < unat (next_xid t - b) \<longleftrightarrow> unat (x - b) \<le> unat (?x - b)"
      using window_advance [OF inv(3) assms(5,6)] that assms(6) unfolding nx by (meson leD le_less_linear order_le_less_trans)
    also have "\<dots> \<longleftrightarrow> unat (x - b) < unat (?x - b) \<or> x = ?x"
      using xid_at_offset [of x b ?x 0] by (auto simp: le_less)
    finally show ?thesis .
  qed
  have asg: "assigned_ids b t = insert ?x (assigned_ids b ?s)"
    using adv inv(3) by (auto simp: assigned_ids_def)
  have L: "live p \<subseteq> assigned_ids b ?s" using inv(6) assms(2) by (auto simp: running_ids_def)
  have "shows_live b (live p) proc" using inv(5) assms(2) by (simp add: proc_def)
  then have sh: "shows_live b (insert ?x (live p)) proc'"
    using L inv(3) window_valid [OF inv(3)] assms(3)
    by (cases isSub) (auto simp: shows_live_def proc'_def proc_def [symmetric] assigned_ids_def less_imp_le)
  have run: "running_ids (live(p := insert ?x (live p))) t = insert ?x (running_ids live ?s)"
    using running_ids_upd [OF assms(2), of t] running_ids_split [OF assms(2)] by (simp add: t)
  have "pa_inv t" unfolding t_def by (rule assign_xid_inv [OF inv(1) assms(2)])
  moreover have "\<forall>q \<in> set (pgprocnos t). shows_live b ((live(p := insert ?x (live p))) q) (allProcs t q)"
    using inv(5) sh by (simp add: t)
  moreover have "unat (last_completed t - b) < unat (next_xid t - b)" using inv(4) assms(6) by (simp add: lc nx)
  moreover have "\<forall>x \<in> assigned_ids b t - running_ids (live(p := insert ?x (live p))) t.
      unat (x - b) \<le> unat (last_completed t - b)"
    unfolding asg run lc using inv(7) by blast
  ultimately show ?thesis
    unfolding t_def [symmetric] run_inv_def using inv(2,6) assms(5) asg run by (simp add: lc nx) blast
qed

text \<open>The end of a transaction, by its backend or by the leader of its group.\<close>

lemma run_inv_end:
  assumes "run_inv b live s" and "p \<in> set (pgprocnos s)" and "latest \<in> live p"
    and "\<forall>x \<in> live p. unat (x - b) \<le> unat (latest - b)"
  shows "run_inv b (live(p := {})) (ProcArrayEndTransactionInternal p latest s)"
proof -
  have inv: "pa_inv s" "\<forall>q \<in> set (pgprocnos s). shows_live b (live q) (allProcs s q)"
    using assms(1) by (simp_all add: run_inv_def)
  note e = end_internal_inv [OF inv(1) assms(2), of latest]
  show ?thesis
  proof (rule run_inv_complete [OF assms(1) e(1), where D = "live p"])
    show "pa_shared (ProcArrayEndTransactionInternal p latest s)
        = advance_completion_count (MaintainLatestCompletedXid latest (pa_shared s))"
      by (simp add: end_internal_set_proc [OF inv(1) assms(2)])
    show "\<forall>q \<in> set (pgprocnos (ProcArrayEndTransactionInternal p latest s)).
        shows_live b ((live(p := {})) q) (allProcs (ProcArrayEndTransactionInternal p latest s) q)"
      using inv(2) by (simp add: e(2,3) shows_live_idle set_proc_fields)
    show "running_ids (live(p := {})) (ProcArrayEndTransactionInternal p latest s) \<subseteq> running_ids live s"
      "running_ids live s \<subseteq> running_ids (live(p := {})) (ProcArrayEndTransactionInternal p latest s) \<union> live p"
      using running_ids_upd [OF assms(2) e(2)] running_ids_split [OF assms(2), of live] by auto
    show "latest \<in> running_ids live s" using assms(2,3) by (auto simp: running_ids_def)
  qed (rule assms(4))
qed

lemma remove_one_subxid_shows:
  assumes "shows_live b L (allProcs s p)" and "x \<noteq> p_xid (allProcs s p)" and "x \<in> L"
  shows "shows_live b (L - {x}) (allProcs (snd (remove_one_subxid p x (ev, s))) p)
    \<and> p_xid (allProcs (snd (remove_one_subxid p x (ev, s))) p) = p_xid (allProcs s p)
    \<and> (\<forall>q. q \<noteq> p \<longrightarrow> allProcs (snd (remove_one_subxid p x (ev, s))) q = allProcs s q)
    \<and> pa_shared (snd (remove_one_subxid p x (ev, s))) = pa_shared s"
proof -
  define proc where "proc = allProcs s p"
  note m = subxid_cache_remove_mset [of x "subxids proc"]
  show ?thesis
  proof (cases "subxid_cache_remove x (subxids proc)")
    case None
    then have "x \<notin> set (subxids proc)" using m by simp
    then show ?thesis
      using assms None by (auto simp: remove_one_subxid_def proc_def [symmetric] shows_live_def)
  next
    case (Some rest)
    then have ms: "add_mset x (mset rest) = mset (subxids proc)" using m by simp
    then have d: "distinct (x # rest)" using mset_eq_imp_distinct_iff [of "x # rest" "subxids proc"] assms(1)
      by (simp add: proc_def shows_live_def)
    have st: "set (subxids proc) = insert x (set rest)" using ms by (metis set_mset_add_mset_insert set_mset_mset)
    show ?thesis
      using assms d Some st by (auto simp: remove_one_subxid_def proc_def [symmetric] shows_live_def Let_def)
  qed
qed

lemma remove_subxids_shows:
  fixes ev
  assumes "shows_live b L (allProcs s p)" and "set xs \<subseteq> L - {p_xid (allProcs s p)}" and "distinct xs"
  defines "t \<equiv> snd (fold (remove_one_subxid p) xs (ev, s))"
  shows "shows_live b (L - set xs) (allProcs t p) \<and> (\<forall>q. q \<noteq> p \<longrightarrow> allProcs t q = allProcs s q) \<and> pa_shared t = pa_shared s"
  using assms(1-3) unfolding t_def
proof (induction xs arbitrary: ev s L)
  case (Cons x xs)
  obtain ev1 u where u: "remove_one_subxid p x (ev, s) = (ev1, u)" by fastforce
  have x: "x \<noteq> p_xid (allProcs s p)" "x \<in> L" using Cons.prems(2) by auto
  note r = remove_one_subxid_shows [OF Cons.prems(1) x, of ev, unfolded u snd_conv]
  have "shows_live b (L - {x} - set xs) (allProcs (snd (fold (remove_one_subxid p) xs (ev1, u))) p)
    \<and> (\<forall>q. q \<noteq> p \<longrightarrow> allProcs (snd (fold (remove_one_subxid p) xs (ev1, u))) q = allProcs u q)
    \<and> pa_shared (snd (fold (remove_one_subxid p) xs (ev1, u))) = pa_shared u"
    using r Cons.prems(2,3) by (intro Cons.IH) auto
  moreover have "L - {x} - set xs = L - set (x # xs)" by auto
  ultimately show ?case using r by (simp add: u)
qed simp

text \<open>The abort of a subtransaction with its committed children.\<close>

lemma run_inv_sub_abort:
  assumes "run_inv b live s" and "p \<in> set (pgprocnos s)" and "distinct (xid # xids)"
    and "set (xid # xids) \<subseteq> live p - {p_xid (allProcs s p)}" and "latest \<in> set (xid # xids)"
    and "\<forall>x \<in> set (xid # xids). unat (x - b) \<le> unat (latest - b)"
  shows "run_inv b (live(p := live p - set (xid # xids))) (snd (XidCacheRemoveRunningXids p xid xids latest s))"
proof -
  let ?D = "set (xid # xids)"
  define u where "u = snd (fold (remove_one_subxid p) (rev xids @ [xid]) ([], s))"
  define t where "t = snd (XidCacheRemoveRunningXids p xid xids latest s)"
  have inv: "pa_inv s" "\<forall>q \<in> set (pgprocnos s). shows_live b (live q) (allProcs s q)"
    using assms(1) by (simp_all add: run_inv_def)
  have "shows_live b (live p) (allProcs s p)" using inv(2) assms(2) by blast
  then have u: "shows_live b (live p - ?D) (allProcs u p) \<and> (\<forall>q. q \<noteq> p \<longrightarrow> allProcs u q = allProcs s q) \<and> pa_shared u = pa_shared s"
    using remove_subxids_shows [of b "live p" s p "rev xids @ [xid]" "[]"] assms(3,4) by (simp add: u_def)
  have nos: "pgprocnos u = pgprocnos s"
    using remove_subxids_inv [OF inv(1) assms(2), of "rev xids @ [xid]" "[]"] by (simp add: u_def)
  have t: "t = u\<lparr>pa_shared := advance_completion_count (MaintainLatestCompletedXid latest (pa_shared u))\<rparr>"
    by (simp add: t_def u_def XidCacheRemoveRunningXids_def split_beta Let_def)
  have "run_inv b (live(p := live p - ?D)) t"
  proof (rule run_inv_complete [OF assms(1), where D = ?D])
    show "pa_inv t" unfolding t_def by (rule XidCacheRemoveRunningXids_inv [OF inv(1) assms(2)])
    show "pa_shared t = advance_completion_count (MaintainLatestCompletedXid latest (pa_shared s))" using u by (simp add: t)
    show "\<forall>q \<in> set (pgprocnos t). shows_live b ((live(p := live p - ?D)) q) (allProcs t q)"
      using u inv(2) nos by (simp add: t)
    have tn: "pgprocnos t = pgprocnos s" using nos by (simp add: t)
    show "running_ids (live(p := live p - ?D)) t \<subseteq> running_ids live s"
      "running_ids live s \<subseteq> running_ids (live(p := live p - ?D)) t \<union> ?D"
      using running_ids_upd [OF assms(2) tn] running_ids_split [OF assms(2), of live] by auto
    show "latest \<in> running_ids live s" using assms(2,4,5) by (auto simp: running_ids_def)
  qed (rule assms(6))
  then show ?thesis by (simp add: t_def)
qed

text \<open>Joining: a new backend, idle, or the dummy entry of a transaction being prepared.\<close>

lemma ProcArrayAdd_entries:
  assumes "ProcArrayAdd p s = Inr t"
  shows "p_xid (allProcs t q) = p_xid (allProcs s q)" "subxids (allProcs t q) = subxids (allProcs s q)"
    "suboverflowed (allProcs t q) = suboverflowed (allProcs s q)" "pa_shared t = pa_shared s"
  using assms by (auto simp: ProcArrayAdd_def Let_def split: if_splits)

lemma run_inv_join:
  assumes "run_inv b live s" and "p \<notin> set (pgprocnos s)" and "ProcArrayAdd p s = Inr t"
    and "shows_live b L (allProcs s p)" and "L \<subseteq> running_ids live s"
  shows "run_inv b (live(p := L)) t"
proof (rule run_inv_keep [OF assms(1)])
  have inv: "pa_inv s" "\<forall>q \<in> set (pgprocnos s). shows_live b (live q) (allProcs s q)"
    using assms(1) by (simp_all add: run_inv_def)
  note a = ProcArrayAdd_inv [OF inv(1) assms(2,3)] and e = ProcArrayAdd_entries [OF assms(3)]
  show "pa_inv t" "next_xid t = next_xid s" "last_completed t = last_completed s"
    using a e(4) by (simp_all add: next_xid_def last_completed_def)
  have "shows_live b L' (allProcs t q) = shows_live b L' (allProcs s q)" for L' q
    by (rule shows_live_cong) (rule e)+
  then show "\<forall>q \<in> set (pgprocnos t). shows_live b ((live(p := L)) q) (allProcs t q)"
    using a inv(2) assms(2,4) by auto
  have "set (pgprocnos t) = insert p (set (pgprocnos s))" using a by blast
  then show "running_ids (live(p := L)) t = running_ids live s"
    using assms(2,5) by (auto simp: running_ids_def)
qed

text \<open>Handing a prepared transaction over to its dummy entry.\<close>

lemma run_inv_handover:
  assumes "run_inv b live s" and "p \<in> set (pgprocnos s)" and "q \<in> set (pgprocnos s)" and "q \<noteq> p" and "live p \<subseteq> live q"
  shows "run_inv b (live(p := {})) (ProcArrayClearTransaction p s)"
proof (rule run_inv_keep [OF assms(1)])
  have inv: "pa_inv s" "\<forall>q \<in> set (pgprocnos s). shows_live b (live q) (allProcs s q)"
    using assms(1) by (simp_all add: run_inv_def)
  note c = clear_transaction_set_proc [OF inv(1) assms(2)]
  show "pa_inv (ProcArrayClearTransaction p s)" by (rule ProcArrayClearTransaction_inv [OF inv(1) assms(2)])
  show "next_xid (ProcArrayClearTransaction p s) = next_xid s"
    "last_completed (ProcArrayClearTransaction p s) = last_completed s"
    by (simp_all add: c next_xid_def last_completed_def advance_completion_count_def)
  show "\<forall>q \<in> set (pgprocnos (ProcArrayClearTransaction p s)).
      shows_live b ((live(p := {})) q) (allProcs (ProcArrayClearTransaction p s) q)"
    using inv(2) by (simp add: c shows_live_idle)
  show "running_ids (live(p := {})) (ProcArrayClearTransaction p s) = running_ids live s"
    using assms(2-5) by (auto simp: running_ids_def c)
qed

text \<open>Leaving: a backend without a transaction, or the dummy entry of a prepared transaction that ends.\<close>

lemma ProcArrayRemove_entries:
  "p_xid (allProcs (ProcArrayRemove p latest s) q) = p_xid (allProcs s q)"
  "subxids (allProcs (ProcArrayRemove p latest s) q) = subxids (allProcs s q)"
  "suboverflowed (allProcs (ProcArrayRemove p latest s) q) = suboverflowed (allProcs s q)"
  "pa_shared (ProcArrayRemove p latest s) = (if TransactionIdIsValid latest
     then advance_completion_count (MaintainLatestCompletedXid latest (pa_shared s)) else pa_shared s)"
  by (simp_all add: ProcArrayRemove_def Let_def)

lemma run_inv_leave:
  assumes "run_inv b live s" and "p \<in> set (pgprocnos s)"
    and "if TransactionIdIsValid latest then latest \<in> live p \<and> (\<forall>x \<in> live p. unat (x - b) \<le> unat (latest - b)) else live p = {}"
  shows "run_inv b live (ProcArrayRemove p latest s)"
proof -
  let ?t = "ProcArrayRemove p latest s"
  have inv: "pa_inv s" "\<forall>q \<in> set (pgprocnos s). shows_live b (live q) (allProcs s q)"
    using assms(1) by (simp_all add: run_inv_def)
  note r = ProcArrayRemove_inv [OF inv(1) assms(2), of latest]
  have nos: "set (pgprocnos ?t) = set (pgprocnos s) - {p}" using r by blast
  have "shows_live b L (allProcs ?t q) = shows_live b L (allProcs s q)" for L q
    by (rule shows_live_cong) (rule ProcArrayRemove_entries)+
  then have sh: "\<forall>q \<in> set (pgprocnos ?t). shows_live b (live q) (allProcs ?t q)" using inv(2) nos by blast
  have run: "running_ids live ?t \<subseteq> running_ids live s" "running_ids live s \<subseteq> running_ids live ?t \<union> live p"
    using nos by (auto simp: running_ids_def)
  show ?thesis
  proof (cases "TransactionIdIsValid latest")
    case True
    then have l: "latest \<in> live p" "\<forall>x \<in> live p. unat (x - b) \<le> unat (latest - b)" using assms(3) by simp_all
    show ?thesis
    proof (rule run_inv_complete [OF assms(1) _ _ sh run _ l(2)])
      show "latest \<in> running_ids live s" using l(1) assms(2) by (auto simp: running_ids_def)
    qed (use r True in \<open>simp_all add: ProcArrayRemove_entries\<close>)
  next
    case False
    then have "running_ids live ?t = running_ids live s" using run assms(3) by auto
    then show ?thesis
      using r False by (intro run_inv_keep [OF assms(1) _ _ _ sh])
        (simp_all add: ProcArrayRemove_entries next_xid_def last_completed_def)
  qed
qed

text \<open>Changes of what is not about ids.\<close>

lemma run_inv_frame:
  assumes "run_inv b live s" and "pa_inv t" and "pgprocnos t = pgprocnos s" and "pa_shared t = pa_shared s"
    and "\<And>q. p_xid (allProcs t q) = p_xid (allProcs s q)" and "\<And>q. subxids (allProcs t q) = subxids (allProcs s q)"
    and "\<And>q. suboverflowed (allProcs t q) = suboverflowed (allProcs s q)"
  shows "run_inv b live t"
proof (rule run_inv_keep [OF assms(1,2)])
  have "shows_live b L (allProcs t q) = shows_live b L (allProcs s q)" for L q
    by (rule shows_live_cong) (rule assms)+
  then show "\<forall>q \<in> set (pgprocnos t). shows_live b (live q) (allProcs t q)"
    using assms(1,3) by (simp add: run_inv_def)
qed (simp_all add: next_xid_def last_completed_def running_ids_def assms(3,4))

lemma set_my_xmin_state:
  "fst (set_my_xmin x (s, be)) = s \<or> fst (set_my_xmin x (s, be)) = update_proc (MyProcNo be) (\<lambda>proc. proc\<lparr>p_xmin := x\<rparr>) s"
  by (simp add: set_my_xmin_def)

lemma GetSnapshotData_state:
  assumes "GetSnapshotData in_recovery cid old sn0 s be = (sn, s', be', ev)"
  shows "s' = s \<or> s' = update_proc (MyProcNo be) (\<lambda>proc. proc\<lparr>p_xmin := snap_xmin sn\<rparr>) s"
proof (cases "GetSnapshotDataReuse cid old sn0 s be")
  case None
  show ?thesis using GetSnapshotData_build(5) [OF None assms] set_my_xmin_state [of "snap_xmin sn" s be] by simp
next
  case (Some r)
  then have e: "GetSnapshotDataReuse cid old sn0 s be = Some (sn, s', be', ev)" using assms by (simp add: GetSnapshotData_def)
  obtain t be1 where set: "set_my_xmin (snap_xmin sn0) (s, be) = (t, be1)" by fastforce
  have "s' = t" "snap_xmin sn = snap_xmin sn0"
    using e by (auto simp: GetSnapshotDataReuse_def set Let_def split_beta split: if_splits)
  then show ?thesis using set_my_xmin_state [of "snap_xmin sn0" s be] set by simp
qed

lemma run_inv_xmin:
  assumes "run_inv b live s" and "t = s \<or> t = update_proc p (\<lambda>proc. proc\<lparr>p_xmin := x\<rparr>) s"
  shows "run_inv b live t"
proof -
  have "pa_inv s" using assms(1) by (simp add: run_inv_def)
  then have "pa_inv (update_proc p (\<lambda>proc. proc\<lparr>p_xmin := x\<rparr>) s)" by (intro update_proc_inv) simp_all
  then have "run_inv b live (update_proc p (\<lambda>proc. proc\<lparr>p_xmin := x\<rparr>) s)"
    by (rule run_inv_frame [OF assms(1)]) simp_all
  then show ?thesis using assms by blast
qed

lemma InstallRestoredXmin_inv:
  assumes "pa_inv s" and "MyProcNo be \<in> set (pgprocnos s)"
    and "ProcArrayInstallRestoredXmin xmin q s be = (ok, t, be')"
  shows "pa_inv t"
proof -
  let ?my = "allProcs s (MyProcNo be)"
  define proc' where "proc' = ?my\<lparr>p_xmin := xmin,
    statusFlags := (statusFlags ?my AND NOT PROC_XMIN_FLAGS) OR (statusFlags (allProcs s q) AND PROC_XMIN_FLAGS)\<rparr>"
  have "t = s \<or> t = s\<lparr>allProcs := (allProcs s)(MyProcNo be := proc'),
      g_statusFlags := (g_statusFlags s)[pgxactoff ?my := statusFlags proc']\<rparr>"
    using assms(3) by (auto simp: ProcArrayInstallRestoredXmin_def Let_def proc'_def split: if_splits)
  moreover have "s\<lparr>allProcs := (allProcs s)(MyProcNo be := proc'),
      g_statusFlags := (g_statusFlags s)[pgxactoff ?my := statusFlags proc']\<rparr> = set_proc (MyProcNo be) proc' s"
    using pa_mirror [OF assms(1,2)] by (simp add: set_proc_def proc'_def Let_def list_update_same)
  ultimately show ?thesis using set_proc_inv [OF assms(1,2), of proc'] assms(1) by (auto simp: proc'_def)
qed

subsection \<open>Ending in groups\<close>

text \<open>\<open>latest\<close> is the newest of a set of ids.\<close>

definition newest_in :: "TransactionId \<Rightarrow> TransactionId set \<Rightarrow> TransactionId \<Rightarrow> bool" where
  "newest_in b L latest \<longleftrightarrow> latest \<in> L \<and> (\<forall>x \<in> L. unat (x - b) \<le> unat (latest - b))"

definition without :: "nat list \<Rightarrow> (nat \<Rightarrow> TransactionId set) \<Rightarrow> nat \<Rightarrow> TransactionId set" where
  "without members live = (\<lambda>q. if q \<in> set members then {} else live q)"

lemma run_inv_end_members:
  assumes "run_inv b live s" and "set members \<subseteq> set (pgprocnos s)" and "distinct members"
    and "\<forall>q \<in> set members. newest_in b (live q) (procArrayGroupMemberXid (allProcs s q))"
  shows "run_inv b (without members live)
    (fold (\<lambda>q s. ProcArrayEndTransactionInternal q (procArrayGroupMemberXid (allProcs s q)) s) members s)"
  using assms
proof (induction members arbitrary: s live)
  case Nil
  then show ?case by (simp add: without_def)
next
  case (Cons q qs)
  let ?u = "ProcArrayEndTransactionInternal q (procArrayGroupMemberXid (allProcs s q)) s"
  have q: "q \<in> set (pgprocnos s)" "pa_inv s" using Cons.prems(1,2) by (simp_all add: run_inv_def)
  note e = end_internal_inv [OF q(2,1), of "procArrayGroupMemberXid (allProcs s q)"]
  have "run_inv b (live(q := {})) ?u"
    using Cons.prems(4) by (intro run_inv_end [OF Cons.prems(1) q(1)]) (simp_all add: newest_in_def)
  then have "run_inv b (without qs (live(q := {})))
      (fold (\<lambda>q s. ProcArrayEndTransactionInternal q (procArrayGroupMemberXid (allProcs s q)) s) qs ?u)"
  proof (rule Cons.IH)
    show "set qs \<subseteq> set (pgprocnos ?u)" "distinct qs" using Cons.prems(2,3) e(2) by simp_all
    show "\<forall>q' \<in> set qs. newest_in b ((live(q := {})) q') (procArrayGroupMemberXid (allProcs ?u q'))"
      using Cons.prems(3,4) e(3) by auto
  qed
  moreover have "without qs (live(q := {})) = without (q # qs) live" by (auto simp: without_def fun_eq_iff)
  ultimately show ?case by simp
qed

lemma run_inv_leave_group:
  assumes "run_inv b live s"
  shows "run_inv b live (fold leave_group members s)"
  using assms
proof (induction members arbitrary: s)
  case (Cons q qs)
  have "pa_inv (leave_group q s)"
    unfolding leave_group_def using Cons.prems by (intro update_proc_inv) (simp_all add: run_inv_def)
  then have "run_inv b live (leave_group q s)"
    by (rule run_inv_frame [OF Cons.prems]) (simp_all add: leave_group_def)
  then show ?case using Cons.IH by simp
qed simp

lemma run_inv_end_group:
  assumes "run_inv b live s" and "set (before @ p # after) \<subseteq> set (pgprocnos s)" and "distinct (before @ p # after)"
    and "\<forall>q \<in> set before \<union> set after. newest_in b (live q) (procArrayGroupMemberXid (allProcs s q))"
    and "newest_in b (live p) latest"
  shows "run_inv b (without (before @ p # after) live) (ProcArrayGroupClearXid before after p latest s)"
proof -
  define u where "u = update_proc p (\<lambda>proc. proc\<lparr>procArrayGroupMember := True, procArrayGroupMemberXid := latest\<rparr>) s"
  have "pa_inv u" unfolding u_def using assms(1) by (intro update_proc_inv) (simp_all add: run_inv_def)
  then have u: "run_inv b live u" by (rule run_inv_frame [OF assms(1)]) (simp_all add: u_def)
  have "\<forall>q \<in> set (before @ p # after). newest_in b (live q) (procArrayGroupMemberXid (allProcs u q))"
    using assms(3-5) by (auto simp: u_def)
  then show ?thesis
    unfolding ProcArrayGroupClearXid_def group_clear_def Let_def u_def [symmetric]
    using assms(2,3) by (intro run_inv_leave_group run_inv_end_members [OF u]) (simp_all add: u_def)
qed

subsection \<open>Reachable states\<close>

text \<open>
  A state of the array with the ids in progress of each backend. New ids stay within the half
  circle; the end of a transaction, of a prepared transaction or of a subtransaction reports the
  newest of the ids it ends, as \<open>TransactionIdLatest\<close> computes it.
\<close>

type_synonym run_state = "(nat \<Rightarrow> TransactionId set) \<times> ProcArrayStruct"

inductive run_step :: "TransactionId \<Rightarrow> run_state \<Rightarrow> run_state \<Rightarrow> bool" for b where
  assigns: "p \<in> set (pgprocnos (sys_array sys)) \<Longrightarrow>
    isSub \<longleftrightarrow> TransactionIdIsValid (p_xid (allProcs (sys_array sys) p)) \<Longrightarrow>
    uint (fxid_value (nextXid (pa_shared (sys_array sys)))) < 2 ^ 64 - 5 \<Longrightarrow>
    TransactionIdAdvance (next_xid (sys_array sys)) \<in> xid_window b \<Longrightarrow>
    unat (next_xid (sys_array sys) - b) < unat (TransactionIdAdvance (next_xid (sys_array sys)) - b) \<Longrightarrow>
    assign_xid p isSub sys = (F, sys') \<Longrightarrow>
    run_step b (live, sys_array sys) (live(p := insert (XidFromFullTransactionId F) (live p)), sys_array sys')"
| finishes: "p \<in> set (pgprocnos s) \<Longrightarrow> newest_in b (live p) latest \<Longrightarrow>
    run_step b (live, s) (live(p := {}), ProcArrayEndTransaction ProcArrayLockFree p latest s)"
| finishes_in_group: "set (before @ p # after) \<subseteq> set (pgprocnos s) \<Longrightarrow> distinct (before @ p # after) \<Longrightarrow>
    \<forall>q \<in> set before \<union> set after. newest_in b (live q) (procArrayGroupMemberXid (allProcs s q)) \<Longrightarrow>
    newest_in b (live p) latest \<Longrightarrow> length (before @ p # after) < 2 ^ 31 \<Longrightarrow>
    run_step b (live, s) (without (before @ p # after) live, ProcArrayEndTransaction (ProcArrayGroup before after) p latest s)"
| sub_aborts: "p \<in> set (pgprocnos s) \<Longrightarrow> distinct (xid # xids) \<Longrightarrow>
    set (xid # xids) \<subseteq> live p - {p_xid (allProcs s p)} \<Longrightarrow> newest_in b (set (xid # xids)) latest \<Longrightarrow>
    run_step b (live, s) (live(p := live p - set (xid # xids)), snd (XidCacheRemoveRunningXids p xid xids latest s))"
| joins: "p \<notin> set (pgprocnos s) \<Longrightarrow> p_xid (allProcs s p) = InvalidTransactionId \<Longrightarrow> subxids (allProcs s p) = [] \<Longrightarrow>
    ProcArrayAdd p s = Inr t \<Longrightarrow> run_step b (live, s) (live(p := {}), t)"
| prepares: "p \<notin> set (pgprocnos s) \<Longrightarrow> q \<in> set (pgprocnos s) \<Longrightarrow> shows_live b (live q) (allProcs s p) \<Longrightarrow>
    ProcArrayAdd p s = Inr t \<Longrightarrow> run_step b (live, s) (live(p := live q), t)"
| hands_over: "p \<in> set (pgprocnos s) \<Longrightarrow> q \<in> set (pgprocnos s) \<Longrightarrow> q \<noteq> p \<Longrightarrow> live p \<subseteq> live q \<Longrightarrow>
    run_step b (live, s) (live(p := {}), ProcArrayClearTransaction p s)"
| leaves: "p \<in> set (pgprocnos s) \<Longrightarrow>
    (if TransactionIdIsValid latest then newest_in b (live p) latest else live p = {}) \<Longrightarrow>
    run_step b (live, s) (live, ProcArrayRemove p latest s)"
| snapshots: "GetSnapshotData in_recovery cid old sn0 s be = (sn, t, be', ev) \<Longrightarrow> run_step b (live, s) (live, t)"
| adopts: "ProcArrayInstallImportedXmin xmin vxid s be = (ok, t, be') \<Longrightarrow> run_step b (live, s) (live, t)"
| restores: "MyProcNo be \<in> set (pgprocnos s) \<Longrightarrow> ProcArrayInstallRestoredXmin xmin q s be = (ok, t, be') \<Longrightarrow>
    run_step b (live, s) (live, t)"

text \<open>The array as created at start-up, after the newest completed id \<open>b\<close> has been recovered.\<close>

definition run_start :: "TransactionId \<Rightarrow> run_state \<Rightarrow> bool" where
  "run_start b st \<longleftrightarrow> (\<exists>n procs ka vc. st = (\<lambda>_. {}, CreateSharedProcArray n procs ka vc)
     \<and> TransactionIdIsNormal b \<and> XidFromFullTransactionId (latestCompletedXid vc) = b
     \<and> XidFromFullTransactionId (nextXid vc) = TransactionIdAdvance b)"

lemma advance_self_window:
  assumes "TransactionIdIsNormal b"
  shows "TransactionIdAdvance b \<in> xid_window b \<and> 0 < unat (TransactionIdAdvance b - b)"
proof (cases "b + 1 = 0")
  case True
  then have "b = - 1" by (simp add: eq_neg_iff_add_eq_0)
  then show ?thesis
    using TransactionIdAdvance_normal [of b]
    by (simp add: TransactionIdAdvance_def FirstNormalTransactionId_def xid_window_def)
next
  case False
  have "b \<noteq> 0" "b \<noteq> 1" using assms not_normal_iff by blast+
  then have "b + 1 \<noteq> 1" "b + 1 \<noteq> 2" by (auto simp: eq_diff_eq [symmetric])
  with False have "\<not> b + 1 < FirstNormalTransactionId" by (simp add: special_cases)
  then have "TransactionIdAdvance b = b + 1" by (simp add: TransactionIdAdvance_def)
  then show ?thesis using TransactionIdAdvance_normal [of b] by (simp add: xid_window_def)
qed

lemma run_start_inv:
  assumes "run_start b st"
  shows "run_inv b (fst st) (snd st)"
proof -
  obtain n procs ka vc where st: "st = (\<lambda>_. {}, CreateSharedProcArray n procs ka vc)" and b: "TransactionIdIsNormal b"
    "XidFromFullTransactionId (latestCompletedXid vc) = b" "XidFromFullTransactionId (nextXid vc) = TransactionIdAdvance b"
    using assms by (auto simp: run_start_def)
  let ?s = "CreateSharedProcArray n procs ka vc"
  have s: "last_completed ?s = b" "next_xid ?s = TransactionIdAdvance b" "pgprocnos ?s = []" "pa_inv ?s"
    using b by (simp_all add: last_completed_def next_xid_def CreateSharedProcArray_def pa_inv_def)
  note a = advance_self_window [OF b(1)] and self = window_self [OF b(1)]
  have "unat (x - b) \<le> unat (b - b)" if "x \<in> assigned_ids b ?s" for x
    using window_advance [OF self, of "TransactionIdAdvance b"] a that
    by (auto simp: assigned_ids_def s(2) not_less [symmetric])
  then show ?thesis using a self s by (simp add: run_inv_def st running_ids_def)
qed

lemma run_step_inv:
  assumes "run_step b st st'" and "run_inv b (fst st) (snd st)"
  shows "run_inv b (fst st') (snd st')"
  using assms
proof (cases rule: run_step.cases)
  case (assigns p sys isSub F sys' live)
  have "pa_inv (sys_array sys)" using assms(2) assigns(1) by (simp add: run_inv_def)
  then have "XidFromFullTransactionId F = next_xid (sys_array sys)"
    using assign_xid_array(1) [OF _ assigns(3), of isSub] assigns(8) by (simp add: next_xid_def)
  then show ?thesis
    using run_inv_assign [OF _ assigns(3-7), of live] assms(2) assigns(1,2,8) by simp
next
  case (finishes p s live latest)
  have "run_inv b live s" using assms(2) finishes(1) by simp
  moreover from this have "TransactionIdIsValid latest"
    using finishes(3,4) window_valid by (auto simp: run_inv_def running_ids_def assigned_ids_def newest_in_def)
  ultimately show ?thesis
    using run_inv_end finishes by (simp add: ProcArrayEndTransaction_def newest_in_def)
next
  case (finishes_in_group before p after s live latest)
  have i: "run_inv b live s" using assms(2) finishes_in_group(1) by simp
  moreover from this have "TransactionIdIsValid latest"
    using finishes_in_group(3,6) window_valid by (auto simp: run_inv_def running_ids_def assigned_ids_def newest_in_def)
  ultimately show ?thesis
    using run_inv_end_group [OF i finishes_in_group(3-6)] finishes_in_group(2) by (simp add: ProcArrayEndTransaction_def)
next
  case (sub_aborts p s xid xids live latest)
  then show ?thesis using assms(2) run_inv_sub_abort [of b live s p xid xids latest] by (simp add: newest_in_def)
next
  case (joins p s t live)
  then show ?thesis using assms(2) run_inv_join [of b live s p t "{}"] shows_live_idle by simp
next
  case (prepares p s q live t)
  then show ?thesis using assms(2) run_inv_join [of b live s p t "live q"] by (auto simp: running_ids_def)
next
  case (hands_over p s q live)
  then show ?thesis using assms(2) run_inv_handover [of b live s p q] by simp
next
  case (leaves p s latest live)
  then show ?thesis
    using assms(2) run_inv_leave [of b live s p latest] by (cases "TransactionIdIsValid latest") (simp_all add: newest_in_def)
next
  case (snapshots in_recovery cid old sn0 s be sn t be' ev live)
  then show ?thesis using assms(2) run_inv_xmin [OF _ GetSnapshotData_state] by auto
next
  case (adopts xmin vxid s be ok t be' live)
  then have "t = s \<or> t = update_proc (MyProcNo be) (\<lambda>proc. proc\<lparr>p_xmin := xmin\<rparr>) s"
    by (auto simp: ProcArrayInstallImportedXmin_def split: option.splits prod.splits if_splits)
  then show ?thesis using assms(2) adopts(1,2) run_inv_xmin by auto
next
  case (restores be s xmin q ok t be' live)
  have i: "run_inv b live s" using assms(2) restores(1) by simp
  then have "pa_inv t" using InstallRestoredXmin_inv [OF _ restores(3,4)] by (simp add: run_inv_def)
  then have "run_inv b live t"
    using restores(4) by (intro run_inv_frame [OF i])
      (auto simp: ProcArrayInstallRestoredXmin_def Let_def split: if_splits)
  then show ?thesis using restores(2) by simp
qed

lemma run_reachable_inv:
  assumes "run_start b st0" and "(run_step b)\<^sup>*\<^sup>* st0 (live, s)"
  shows "run_inv b live s"
proof -
  have "run_inv b (fst st) (snd st)" if "(run_step b)\<^sup>*\<^sup>* st0 st" for st
    using that by (induction rule: rtranclp_induct) (use run_start_inv [OF assms(1)] run_step_inv in blast)+
  from this [OF assms(2)] show ?thesis by simp
qed

subsection \<open>Snapshots of reachable states\<close>

text \<open>
  The log of subtransactions has the transactions in progress right; the horizon of the backend for
  that log is its oldest snapshot, or this one.
\<close>

definition subtrans_right :: "SubTransSlru \<Rightarrow> TransactionId \<Rightarrow> (nat \<Rightarrow> TransactionId set) \<Rightarrow> ProcArrayStruct \<Rightarrow> bool" where
  "subtrans_right sub b live s \<longleftrightarrow>
     (\<forall>q \<in> set (pgprocnos s). live q \<noteq> {} \<longrightarrow> subtrans_live sub b (p_xid (allProcs s q)) (live q))"

definition older_xmin :: "TransactionId \<Rightarrow> VisBackend \<Rightarrow> ProcArrayStruct \<Rightarrow> TransactionId \<Rightarrow> bool" where
  "older_xmin b be s xmin \<longleftrightarrow> (TransactionIdIsValid (p_xmin (allProcs s (MyProcNo be))) \<longrightarrow>
     TransactionXmin be \<in> xid_window b \<and> TransactionIdPrecedesOrEquals (TransactionXmin be) xmin)"

lemma snapshot_txmin:
  assumes "live_inv b live s" and "MyProcNo be \<in> set (pgprocnos s)" and "GetSnapshotDataReuse cid old sn0 s be = None"
    and "GetSnapshotData False cid old sn0 s be = (sn, s', be', ev)" and "older_xmin b be s (snap_xmin sn)"
  shows "TransactionXmin be' \<in> xid_window b" and "TransactionIdPrecedesOrEquals (TransactionXmin be') (snap_xmin sn)"
proof -
  have w: "snap_xmin sn \<in> xid_window b" using GetSnapshotData_live(1) [OF assms(1-4)] .
  have "TransactionXmin be' = (if TransactionIdIsValid (p_xmin (allProcs s (MyProcNo be))) then TransactionXmin be else snap_xmin sn)"
    using GetSnapshotData_build(7) [OF assms(3,4)] by (simp add: set_my_xmin_def)
  then show "TransactionXmin be' \<in> xid_window b" "TransactionIdPrecedesOrEquals (TransactionXmin be') (snap_xmin sn)"
    using assms(5) w precedes_or_equals_window [OF w w] by (auto simp: older_xmin_def)
qed

lemma snapshot_divides:
  assumes inv: "run_inv b live s" and "MyProcNo be \<in> set (pgprocnos s)"
    and "GetSnapshotDataReuse cid old sn0 s be = None" and "GetSnapshotData False cid old sn0 s be = (sn, s', be', ev)"
    and "subtrans_right sub b live s" and tx: "txmin \<in> xid_window b" "TransactionIdPrecedesOrEquals txmin (snap_xmin sn)"
    and x: "x \<in> xid_window b"
  shows "x \<in> scope_live (MyProcNo be) live s \<or> x \<notin> assigned_ids b s \<Longrightarrow> XidInMVCCSnapshot sub txmin x sn = Some (Inr True)"
    and "x \<in> assigned_ids b s \<Longrightarrow> x \<notin> running_ids live s \<Longrightarrow>
      snap_suboverflowed sn \<longrightarrow> (\<exists>t. SubTransGetTopmostTransaction sub txmin x = Some (Inr t) \<and> t \<notin> running_ids live s) \<Longrightarrow>
      XidInMVCCSnapshot sub txmin x sn = Some (Inr False)"
proof -
  note l = run_inv_live [OF inv]
  note a = XidInMVCCSnapshot_live [OF l assms(2-4) assms(5) [unfolded subtrans_right_def] tx x]
  note nc = next_completed_window [OF inv]
  show "XidInMVCCSnapshot sub txmin x sn = Some (Inr True)" if "x \<in> scope_live (MyProcNo be) live s \<or> x \<notin> assigned_ids b s"
    using that
  proof
    assume "x \<notin> assigned_ids b s"
    then show ?thesis using a(2) nc(2) x by (simp add: assigned_ids_def)
  qed (rule a(1))
  have tops: "set (xip sn) \<subseteq> running_ids live s"
    using GetSnapshotData_live(7) [OF l assms(2-4)] run_inv_tops [OF inv] by blast
  assume c: "x \<in> assigned_ids b s" "x \<notin> running_ids live s"
    "snap_suboverflowed sn \<longrightarrow> (\<exists>t. SubTransGetTopmostTransaction sub txmin x = Some (Inr t) \<and> t \<notin> running_ids live s)"
  have before: "unat (x - b) < unat (next_completed s - b)" using c(1,2) inv nc(3) [OF x] by (auto simp: run_inv_def)
  have "x \<notin> scope_live (MyProcNo be) live s" using c(2) by (auto simp: scope_live_def running_ids_def)
  then show "XidInMVCCSnapshot sub txmin x sn = Some (Inr False)"
    using a(3,4) before c(3) tops by (cases "snap_suboverflowed sn") blast+
qed

text \<open>
  C2: in every reachable state, a snapshot a backend takes divides the ids exactly into what was
  running and what was complete at that moment. An id in progress in another backend (not
  one vacuuming or decoding), whether of a transaction or of a subtransaction, cached or not, is in
  progress for the snapshot; so is every id not yet assigned. An id that was assigned and is in
  progress nowhere is complete for the snapshot; if the snapshot had to drop subtransaction ids,
  provided its topmost transaction is complete as well.
\<close>

theorem GetSnapshotData_reachable_exact:
  assumes "run_start b st0" and "(run_step b)\<^sup>*\<^sup>* st0 (live, s)" and "MyProcNo be \<in> set (pgprocnos s)"
    and "GetSnapshotDataReuse cid old sn0 s be = None" and "GetSnapshotData False cid old sn0 s be = (sn, s', be', ev)"
    and "subtrans_right sub b live s" and "older_xmin b be s (snap_xmin sn)" and "x \<in> xid_window b"
  shows "(x \<in> scope_live (MyProcNo be) live s \<or> x \<notin> assigned_ids b s \<longrightarrow>
        XidInMVCCSnapshot sub (TransactionXmin be') x sn = Some (Inr True))
    \<and> (x \<in> assigned_ids b s \<and> x \<notin> running_ids live s
        \<and> (snap_suboverflowed sn \<longrightarrow> (\<exists>t. SubTransGetTopmostTransaction sub (TransactionXmin be') x = Some (Inr t)
             \<and> t \<notin> running_ids live s)) \<longrightarrow>
        XidInMVCCSnapshot sub (TransactionXmin be') x sn = Some (Inr False))"
proof -
  have inv: "run_inv b live s" using run_reachable_inv [OF assms(1,2)] .
  note d = snapshot_divides [OF inv assms(3-6) snapshot_txmin [OF run_inv_live [OF inv] assms(3-5,7)] assms(8)]
  show ?thesis using d(1) d(2) by blast
qed

subsection \<open>Asking whether a transaction runs\<close>

lemma in_progress_loop_result:
  assumes "pa_inv s" and "me \<in> set (pgprocnos s)" and "set offs \<subseteq> {..< length (pgprocnos s)}"
  defines "qs \<equiv> {q \<in> (\<lambda>i. pgprocnos s ! i) ` set offs. q \<noteq> me \<and> TransactionIdIsValid (p_xid (allProcs s q))}"
  shows "case in_progress_loop x (pgxactoff (allProcs s me)) s offs xids of
      None \<Rightarrow> \<exists>q \<in> qs. x = p_xid (allProcs s q) \<or> x \<in> set (subxids (allProcs s q))
    | Some ys \<Rightarrow> set xids \<subseteq> set ys \<and> set ys \<subseteq> set xids \<union> (\<lambda>q. p_xid (allProcs s q)) ` qs
        \<and> (\<forall>q \<in> qs. x \<noteq> p_xid (allProcs s q) \<and> (\<not> TransactionIdPrecedes x (p_xid (allProcs s q)) \<longrightarrow>
             x \<notin> set (subxids (allProcs s q)) \<and> (suboverflowed (allProcs s q) \<longrightarrow> p_xid (allProcs s q) \<in> set ys)))"
  using assms(3) unfolding qs_def
proof (induction offs arbitrary: xids)
  case Nil
  then show ?case by simp
next
  case (Cons off offs)
  define q where "q = pgprocnos s ! off"
  define proc where "proc = allProcs s q"
  have off: "off < length (pgprocnos s)" "set offs \<subseteq> {..< length (pgprocnos s)}" using Cons.prems by simp_all
  have mirror: "g_xids s ! off = p_xid proc" "g_subxidStates s ! off = (length (subxids proc), suboverflowed proc)"
    using assms(1) off(1) by (simp_all add: pa_inv_def proc_def q_def)
  have me: "off = pgxactoff (allProcs s me) \<longleftrightarrow> q = me"
    using pa_procno_offset [OF assms(1,2) off(1)] by (simp add: q_def)
  have step: "in_progress_loop x (pgxactoff (allProcs s me)) s (off # offs) xids =
    (if q = me \<or> \<not> TransactionIdIsValid (p_xid proc) then in_progress_loop x (pgxactoff (allProcs s me)) s offs xids
     else if p_xid proc = x then None
     else if TransactionIdPrecedes x (p_xid proc) then in_progress_loop x (pgxactoff (allProcs s me)) s offs xids
     else if x \<in> set (subxids proc) then None
     else in_progress_loop x (pgxactoff (allProcs s me)) s offs (if suboverflowed proc then xids @ [p_xid proc] else xids))"
    by (simp add: mirror me proc_def [symmetric] q_def [symmetric] Let_def)
  consider (skip) "q = me \<or> \<not> TransactionIdIsValid (p_xid proc)"
    | (found) "q \<noteq> me" "TransactionIdIsValid (p_xid proc)"
        "p_xid proc = x \<or> \<not> TransactionIdPrecedes x (p_xid proc) \<and> x \<in> set (subxids proc)"
    | (young) "q \<noteq> me" "TransactionIdIsValid (p_xid proc)" "p_xid proc \<noteq> x" "TransactionIdPrecedes x (p_xid proc)"
    | (old) "q \<noteq> me" "TransactionIdIsValid (p_xid proc)" "p_xid proc \<noteq> x" "\<not> TransactionIdPrecedes x (p_xid proc)"
        "x \<notin> set (subxids proc)" by blast
  then show ?case
  proof cases
    case skip
    then show ?thesis using Cons.IH [OF off(2), of xids]
      unfolding step by (auto simp: q_def [symmetric] proc_def split: option.splits)
  next
    case found
    then have "in_progress_loop x (pgxactoff (allProcs s me)) s (off # offs) xids = None" unfolding step by auto
    then show ?thesis using found by (auto simp: q_def [symmetric] proc_def)
  next
    case young
    then show ?thesis using Cons.IH [OF off(2), of xids]
      unfolding step by (auto simp: q_def [symmetric] proc_def split: option.splits)
  next
    case old
    define zs where "zs = (if suboverflowed proc then xids @ [p_xid proc] else xids)"
    let ?qs = "{q \<in> (\<lambda>i. pgprocnos s ! i) ` set offs. q \<noteq> me \<and> TransactionIdIsValid (p_xid (allProcs s q))}"
    have e: "in_progress_loop x (pgxactoff (allProcs s me)) s (off # offs) xids
        = in_progress_loop x (pgxactoff (allProcs s me)) s offs zs"
      using old unfolding step zs_def by auto
    have zs: "set xids \<subseteq> set zs" "set zs \<subseteq> insert (p_xid proc) (set xids)" "suboverflowed proc \<Longrightarrow> p_xid proc \<in> set zs"
      by (auto simp: zs_def)
    have qs: "{q \<in> (\<lambda>i. pgprocnos s ! i) ` set (off # offs). q \<noteq> me \<and> TransactionIdIsValid (p_xid (allProcs s q))} = insert q ?qs"
      using old(1,2) by (auto simp: q_def proc_def)
    note IH = Cons.IH [OF off(2), of zs]
    show ?thesis
    proof (cases "in_progress_loop x (pgxactoff (allProcs s me)) s offs zs")
      case None
      then show ?thesis using IH unfolding e qs by simp
    next
      case (Some ys)
      then have ys: "set zs \<subseteq> set ys" "set ys \<subseteq> set zs \<union> (\<lambda>q. p_xid (allProcs s q)) ` ?qs"
        "\<forall>q \<in> ?qs. x \<noteq> p_xid (allProcs s q) \<and> (\<not> TransactionIdPrecedes x (p_xid (allProcs s q)) \<longrightarrow>
             x \<notin> set (subxids (allProcs s q)) \<and> (suboverflowed (allProcs s q) \<longrightarrow> p_xid (allProcs s q) \<in> set ys))"
        using IH by simp_all
      have "set ys \<subseteq> set xids \<union> (\<lambda>q. p_xid (allProcs s q)) ` insert q ?qs" using ys(2) zs(2) unfolding proc_def by blast
      moreover have "suboverflowed (allProcs s q) \<longrightarrow> p_xid (allProcs s q) \<in> set ys" using zs(3) ys(1) unfolding proc_def by blast
      ultimately show ?thesis
        using ys(1,3) zs(1) old(3-5) unfolding e qs Some option.case proc_def by blast
    qed
  qed
qed

text \<open>A log in which parents precede their children never makes the walk fail.\<close>

lemma topmost_returns:
  assumes "subtrans_ok sub" and "TransactionIdIsNormal txmin" and "TransactionIdIsValid x"
  shows "\<exists>t. SubTransGetTopmostTransaction sub txmin x = Some (Inr t)"
proof -
  have valid: "TransactionIdIsValid c" if "(parent_link sub)\<^sup>*\<^sup>* x c" for c
    using that assms(3) by (cases rule: rtranclp.cases) (auto simp: parent_link_def)
  have "TransactionIdPrecedes (SubTransGetParent sub c) c" if "TransactionIdIsValid c" for c
  proof (cases "TransactionIdIsNormal c \<and> TransactionIdIsValid (SubTransGetParent sub c)")
    case True
    then show ?thesis using assms(1) by (simp add: subtrans_ok_def)
  next
    case False
    then have "SubTransGetParent sub c = 0"
      by (auto simp: SubTransGetParent_def TransactionIdIsValid_def InvalidTransactionId_def)
    then show ?thesis
      using that by (simp add: TransactionIdPrecedes_def TransactionIdIsNormal_def FirstNormalTransactionId_def
          TransactionIdIsValid_def InvalidTransactionId_def word_neq_0_conv)
  qed
  then show ?thesis
    using topmost_loop_result [OF assms(2), of x sub x] assms(3) valid
    unfolding SubTransGetTopmostTransaction_def topmost_result_def by auto
qed

text \<open>
  What a backend knows by itself: its own transactions, bounds below which nothing runs, and an
  id it found completed before; and what the two logs say of the ids assigned so far.
\<close>

definition backend_right ::
  "TransactionId \<Rightarrow> (nat \<Rightarrow> TransactionId set) \<Rightarrow> ProcArrayStruct \<Rightarrow> XactBackend \<Rightarrow> VisBackend \<Rightarrow> bool" where
  "backend_right b live s xb be \<longleftrightarrow>
     (\<forall>y. TransactionIdIsCurrentTransactionId xb y \<longleftrightarrow> y \<in> live (MyProcNo be))
     \<and> RecentXmin be \<in> xid_window b \<and> TransactionXmin be \<in> xid_window b
     \<and> (\<forall>y \<in> running_ids live s. unat (RecentXmin be - b) \<le> unat (y - b) \<and> unat (TransactionXmin be - b) \<le> unat (y - b))
     \<and> cachedXidIsNotInProgress be \<notin> running_ids live s"

definition logs_right ::
  "XactSlru \<Rightarrow> SubTransSlru \<Rightarrow> TransactionId \<Rightarrow> TransactionId \<Rightarrow> (nat \<Rightarrow> TransactionId set) \<Rightarrow> ProcArrayStruct \<Rightarrow> bool" where
  "logs_right clog sub txmin b live s \<longleftrightarrow> subtrans_ok sub \<and> subtrans_right sub b live s
     \<and> (\<forall>y \<in> running_ids live s. \<not> did_abort clog sub txmin y)
     \<and> (\<forall>y \<in> assigned_ids b s - running_ids live s. did_abort clog sub txmin y
          \<or> (\<forall>t. SubTransGetTopmostTransaction sub txmin y = Some (Inr t) \<longrightarrow> t \<notin> running_ids live s))"

text \<open>
  What the search of the array shows of an id that is not the backend's own: found, it is running;
  missed, it can only run as a subtransaction whose main id is among those collected.
\<close>

lemma array_search:
  assumes inv: "run_inv b live s" and "me \<in> set (pgprocnos s)" and x: "x \<in> xid_window b" "x \<notin> live me"
  shows "case in_progress_loop x (pgxactoff (allProcs s me)) s [0 ..< length (pgprocnos s)] [] of
      None \<Rightarrow> x \<in> running_ids live s
    | Some ys \<Rightarrow> set ys \<subseteq> running_ids live s \<and> (x \<in> running_ids live s \<longrightarrow>
        (\<exists>q \<in> set (pgprocnos s). x \<in> live q \<and> p_xid (allProcs s q) \<in> set ys \<and> x \<noteq> p_xid (allProcs s q)))"
proof -
  let ?offs = "[0 ..< length (pgprocnos s)]" and ?run = "running_ids live s"
  let ?qs = "{q \<in> set (pgprocnos s). q \<noteq> me \<and> TransactionIdIsValid (p_xid (allProcs s q))}"
  have pa: "pa_inv s" and sh: "\<And>q. q \<in> set (pgprocnos s) \<Longrightarrow> shows_live b (live q) (allProcs s q)"
    using inv by (simp_all add: run_inv_def)
  have rng: "set ?offs \<subseteq> {..< length (pgprocnos s)}" "(\<lambda>i. pgprocnos s ! i) ` set ?offs = set (pgprocnos s)"
    by (auto simp: in_set_conv_nth)
  note L = in_progress_loop_result [OF pa assms(2) rng(1), of x "[]", unfolded rng(2)]
  show ?thesis
  proof (cases "in_progress_loop x (pgxactoff (allProcs s me)) s ?offs []")
    case None
    then obtain q where q: "q \<in> ?qs" "x = p_xid (allProcs s q) \<or> x \<in> set (subxids (allProcs s q))" using L by auto
    then have "x \<in> live q" using sh [of q] by (auto simp: shows_live_def)
    then show ?thesis using q(1) None by (auto simp: running_ids_def)
  next
    case (Some ys)
    have ys: "set ys \<subseteq> (\<lambda>q. p_xid (allProcs s q)) ` ?qs"
      "\<forall>q \<in> ?qs. x \<noteq> p_xid (allProcs s q) \<and> (\<not> TransactionIdPrecedes x (p_xid (allProcs s q)) \<longrightarrow>
         x \<notin> set (subxids (allProcs s q)) \<and> (suboverflowed (allProcs s q) \<longrightarrow> p_xid (allProcs s q) \<in> set ys))"
      using L Some by auto
    have "\<exists>q \<in> set (pgprocnos s). x \<in> live q \<and> p_xid (allProcs s q) \<in> set ys \<and> x \<noteq> p_xid (allProcs s q)" if xr: "x \<in> ?run"
    proof -
      obtain q where q: "q \<in> set (pgprocnos s)" "x \<in> live q" using xr by (auto simp: running_ids_def)
      have "q \<noteq> me" using q(2) x(2) by auto
      note s1 = sh [OF q(1), unfolded shows_live_def]
      have v: "TransactionIdIsValid (p_xid (allProcs s q))" using s1 q(2) by (auto split: if_splits)
      then have w: "p_xid (allProcs s q) \<in> xid_window b" "unat (p_xid (allProcs s q) - b) \<le> unat (x - b)" using s1 q(2) by auto
      then have "\<not> TransactionIdPrecedes x (p_xid (allProcs s q))" using precedes_window [OF x(1) w(1)] by simp
      then show ?thesis using ys(2) q \<open>q \<noteq> me\<close> v s1 by blast
    qed
    moreover have "set ys \<subseteq> ?run" using ys(1) run_inv_shown [OF inv] by (auto simp: running_ids_def)
    ultimately show ?thesis using Some by simp
  qed
qed

lemma running_topmost:
  assumes "run_inv b live s" and "subtrans_right sub b live s" and "txmin \<in> xid_window b"
    and "\<forall>y \<in> running_ids live s. unat (txmin - b) \<le> unat (y - b)" and "q \<in> set (pgprocnos s)" and "x \<in> live q"
  shows "SubTransGetTopmostTransaction sub txmin x = Some (Inr (p_xid (allProcs s q)))"
proof -
  have "shows_live b (live q) (allProcs s q)" using assms(1,5) by (simp add: run_inv_def)
  then have s1: "live q \<subseteq> xid_window b" "p_xid (allProcs s q) \<in> live q" "\<forall>y \<in> live q. unat (p_xid (allProcs s q) - b) \<le> unat (y - b)"
    using assms(6) by (auto simp: shows_live_def split: if_splits)
  have top: "unat (txmin - b) \<le> unat (p_xid (allProcs s q) - b)" using assms(4,5) s1(2) by (auto simp: running_ids_def)
  have "subtrans_live sub b (p_xid (allProcs s q)) (live q)" using assms(2,5,6) by (auto simp: subtrans_right_def)
  then show ?thesis using topmost_live [OF _ s1 assms(3) top assms(6)] by simp
qed

text \<open>The question when no shortcut applies: the array is searched, and then the logs.\<close>

lemma in_progress_searches:
  assumes "\<not> TransactionIdPrecedes x (RecentXmin be)" and "cachedXidIsNotInProgress be \<noteq> x"
    and "\<not> TransactionIdIsCurrentTransactionId xb x" and "\<not> TransactionIdPrecedes (last_completed s) x"
  shows "TransactionIdIsInProgress False xb clog sub s x (be, c) =
    (case in_progress_loop x (pgxactoff (allProcs s (MyProcNo be))) s [0 ..< length (pgprocnos s)] [] of
       None \<Rightarrow> Some (Inr True, be, c)
     | Some xids \<Rightarrow> if length xids = 0 then Some (Inr False, be\<lparr>cachedXidIsNotInProgress := x\<rparr>, c)
         else (case TransactionIdDidAbort clog sub (TransactionXmin be) x c of None \<Rightarrow> None
           | Some (aborted, c) \<Rightarrow> if aborted then Some (Inr False, be\<lparr>cachedXidIsNotInProgress := x\<rparr>, c)
               else (case SubTransGetTopmostTransaction sub (TransactionXmin be) x of None \<Rightarrow> None
                  | Some (Inl e) \<Rightarrow> Some (Inl e, be, c)
                  | Some (Inr topxid) \<Rightarrow> if topxid \<noteq> x \<and> pg_lfind32 topxid xids then Some (Inr True, be, c)
                      else Some (Inr False, be\<lparr>cachedXidIsNotInProgress := x\<rparr>, c))))"
  using assms unfolding TransactionIdIsInProgress_def prod.case Let_def simp_thms if_False last_completed_def by simp

lemma in_progress_search:
  assumes inv: "run_inv b live s" and me: "MyProcNo be \<in> set (pgprocnos s)" and be: "backend_right b live s xb be"
    and lg: "logs_right clog sub (TransactionXmin be) b live s" and c: "cache_ok clog c" and xa: "x \<in> assigned_ids b s"
    and search: "\<not> TransactionIdPrecedes x (RecentXmin be)" "cachedXidIsNotInProgress be \<noteq> x" "x \<notin> live (MyProcNo be)"
      "\<not> TransactionIdPrecedes (last_completed s) x"
  shows "\<exists>be' c'. TransactionIdIsInProgress False xb clog sub s x (be, c) = Some (Inr (x \<in> running_ids live s), be', c')
    \<and> backend_right b live s xb be' \<and> cache_ok clog c'"
proof -
  let ?run = "running_ids live s" and ?me = "MyProcNo be" and ?txmin = "TransactionXmin be"
  have x: "x \<in> xid_window b" "TransactionIdIsValid x" using xa window_valid by (auto simp: assigned_ids_def)
  have tx: "?txmin \<in> xid_window b" "\<forall>y \<in> ?run. unat (?txmin - b) \<le> unat (y - b)" using be by (simp_all add: backend_right_def)
  have keep: "x \<notin> ?run \<Longrightarrow> backend_right b live s xb (be\<lparr>cachedXidIsNotInProgress := x\<rparr>)"
    using be by (simp add: backend_right_def)
  have sub: "subtrans_ok sub" "subtrans_right sub b live s" using lg by (simp_all add: logs_right_def)
  note L = array_search [OF inv me x(1) search(3)]
  have "\<not> TransactionIdIsCurrentTransactionId xb x" using search(3) be by (simp add: backend_right_def)
  note IP' = in_progress_searches [OF search(1,2) this search(4), of clog sub c]
  obtain c' where ab: "TransactionIdDidAbort clog sub ?txmin x c = Some (did_abort clog sub ?txmin x, c')" "cache_ok clog c'"
    using TransactionIdDidAbort_spec [OF window_normal [OF tx(1)] sub(1) c x(2)] by blast
  obtain t where t: "SubTransGetTopmostTransaction sub ?txmin x = Some (Inr t)"
    using topmost_returns [OF sub(1) window_normal [OF tx(1)] x(2)] by blast
  show ?thesis
  proof (cases "in_progress_loop x (pgxactoff (allProcs s ?me)) s [0 ..< length (pgprocnos s)] []")
    case None
    then show ?thesis using L be c by (simp add: IP')
  next
    case (Some ys)
    then have ysrun: "set ys \<subseteq> ?run" using L by simp
    show ?thesis
    proof (cases "x \<in> ?run")
      case True
      then obtain q where q: "q \<in> set (pgprocnos s)" "x \<in> live q" "p_xid (allProcs s q) \<in> set ys" "x \<noteq> p_xid (allProcs s q)"
        using L Some by auto
      have "t = p_xid (allProcs s q)" using running_topmost [OF inv sub(2) tx(1) _ q(1,2)] tx(2) t by simp
      moreover have "ys \<noteq> []" using q(3) by auto
      ultimately show ?thesis using True Some ab t q(3,4) lg be by (auto simp: IP' logs_right_def)
    next
      case False
      have "t \<notin> set ys" if "\<not> did_abort clog sub ?txmin x" using lg xa False that t ysrun by (auto simp: logs_right_def)
      then show ?thesis using False Some ab t keep c by (auto simp: IP')
    qed
  qed
qed

text \<open>
  C4: in every reachable state, \<open>TransactionIdIsInProgress\<close> returns, and answers for every id
  assigned so far whether it is in progress, whichever of its shortcuts applies: the bound of the last
  snapshot, the remembered id, the backend's own transactions, the newest completed id, the main ids
  and the caches of the array, or the logs when a cache has overflowed. The id it remembers is
  again one that is not in progress.
\<close>

theorem TransactionIdIsInProgress_exact:
  assumes "run_start b st0" and "(run_step b)\<^sup>*\<^sup>* st0 (live, s)" and "MyProcNo be \<in> set (pgprocnos s)"
    and "backend_right b live s xb be" and "logs_right clog sub (TransactionXmin be) b live s" and "cache_ok clog c"
    and "x \<in> assigned_ids b s"
  shows "\<exists>be' c'. TransactionIdIsInProgress False xb clog sub s x (be, c) = Some (Inr (x \<in> running_ids live s), be', c')
    \<and> backend_right b live s xb be' \<and> cache_ok clog c'"
proof -
  let ?run = "running_ids live s" and ?me = "MyProcNo be" and ?txmin = "TransactionXmin be"
  have inv: "run_inv b live s" using run_reachable_inv [OF assms(1,2)] .
  have x: "x \<in> xid_window b" "TransactionIdIsValid x" using assms(7) window_valid by (auto simp: assigned_ids_def)
  have be: "\<forall>y. TransactionIdIsCurrentTransactionId xb y \<longleftrightarrow> y \<in> live ?me" "RecentXmin be \<in> xid_window b" "?txmin \<in> xid_window b"
    "\<forall>y \<in> ?run. unat (RecentXmin be - b) \<le> unat (y - b) \<and> unat (?txmin - b) \<le> unat (y - b)"
    "cachedXidIsNotInProgress be \<notin> ?run"
    using assms(4) by (simp_all add: backend_right_def)
  note IP = TransactionIdIsInProgress_def [of False xb clog sub s x "(be, c)", unfolded prod.case Let_def simp_thms if_False]
  consider (old) "TransactionIdPrecedes x (RecentXmin be)" | (cached) "cachedXidIsNotInProgress be = x"
    | (mine) "\<not> TransactionIdPrecedes x (RecentXmin be)" "cachedXidIsNotInProgress be \<noteq> x" "x \<in> live ?me"
    | (new) "\<not> TransactionIdPrecedes x (RecentXmin be)" "cachedXidIsNotInProgress be \<noteq> x" "x \<notin> live ?me"
        "TransactionIdPrecedes (last_completed s) x"
    | (search) "\<not> TransactionIdPrecedes x (RecentXmin be)" "cachedXidIsNotInProgress be \<noteq> x" "x \<notin> live ?me"
        "\<not> TransactionIdPrecedes (last_completed s) x"
    by blast
  then show ?thesis
  proof cases
    case old
    then have "x \<notin> ?run" using be(4) precedes_window [OF x(1) be(2)] by auto
    then show ?thesis using old assms(4,6) by (simp add: IP)
  next
    case cached
    then have "x \<notin> ?run" using be(5) by auto
    then show ?thesis using cached assms(4,6) by (simp add: IP)
  next
    case mine
    then have "x \<in> ?run" using assms(3) by (auto simp: running_ids_def)
    then show ?thesis using mine be(1) assms(4,6) by (simp add: IP)
  next
    case new
    have "last_completed s \<in> xid_window b" using inv by (simp add: run_inv_def)
    then have "x \<in> ?run" using new(4) inv assms(7) precedes_window [OF _ x(1)] by (force simp: run_inv_def)
    then show ?thesis using new be(1) assms(4,6) by (simp add: IP last_completed_def)
  next
    case search
    then show ?thesis using in_progress_search [OF inv assms(3-7)] by blast
  qed
qed

subsection \<open>A run\<close>

text \<open>Two backends join an empty array; the second starts a transaction with id 10.\<close>

definition run_vcache :: VariableCache where
  "run_vcache = sample_vcache\<lparr>nextXid := \<lparr>fxid_value = 10\<rparr>, latestCompletedXid := \<lparr>fxid_value = 9\<rparr>\<rparr>"

definition run_array :: "nat list \<Rightarrow> (nat \<Rightarrow> ProcEntry) \<Rightarrow> ProcArrayStruct" where
  "run_array ps procs = (CreateSharedProcArray 2 procs sample_kax run_vcache)\<lparr>pgprocnos := ps,
     g_xids := map (\<lambda>p. p_xid (procs p)) ps, g_subxidStates := map (\<lambda>p. sub_state (procs p)) ps,
     g_statusFlags := map (\<lambda>p. statusFlags (procs p)) ps\<rparr>"

definition at_offset :: "nat \<Rightarrow> ProcEntry" where
  "at_offset i = sample_proc\<lparr>pgxactoff := i\<rparr>"

definition run_joined :: ProcArrayStruct where
  "run_joined = run_array [3, 5] ((\<lambda>_. sample_proc)(3 := at_offset 0, 5 := at_offset 1))"

definition run_assigned :: ProcArrayStruct where
  "run_assigned = (run_array [3, 5] ((\<lambda>_. sample_proc)(3 := at_offset 0, 5 := (at_offset 1)\<lparr>p_xid := 10\<rparr>)))
     \<lparr>pa_shared := run_vcache\<lparr>xactCompletionCount := 1, nextXid := \<lparr>fxid_value = 11\<rparr>\<rparr>\<rparr>"

definition run_live :: "nat \<Rightarrow> TransactionId set" where
  "run_live = (\<lambda>_. {})(5 := {10})"

lemmas run_defs = run_array_def CreateSharedProcArray_def run_vcache_def at_offset_def sample_proc_def Let_def

lemma run_start_sample: "run_start 9 (\<lambda>_. {}, CreateSharedProcArray 2 (\<lambda>_. sample_proc) sample_kax run_vcache)"
  unfolding run_start_def
  by (rule exI [of _ 2], rule exI [of _ "\<lambda>_. sample_proc"], rule exI [of _ sample_kax], rule exI [of _ run_vcache])
    (simp add: run_vcache_def XidFromFullTransactionId_def TransactionIdIsNormal_def FirstNormalTransactionId_def TransactionIdAdvance_def)

lemma run_join_3:
  "ProcArrayAdd 3 (CreateSharedProcArray 2 (\<lambda>_. sample_proc) sample_kax run_vcache)
    = Inr (run_array [3] ((\<lambda>_. sample_proc)(3 := at_offset 0)))"
  by (simp add: ProcArrayAdd_def run_defs insert_at_def)

lemma run_join_5: "ProcArrayAdd 5 (run_array [3] ((\<lambda>_. sample_proc)(3 := at_offset 0))) = Inr run_joined"
  by (simp add: ProcArrayAdd_def run_joined_def run_defs insert_at_def fun_upd_def)

definition run_sys :: XactSystem where
  "run_sys = \<lparr>sys_array = run_joined, sys_clog = zero_clog, sys_subtrans = zero_subtrans, sys_cts = cts_slru sample_xidgen\<rparr>"

lemma run_pa_inv: "pa_inv run_joined" "pa_inv run_assigned"
  by (simp_all add: pa_inv_def run_joined_def run_assigned_def run_defs)

lemma run_assign_5: "sys_array (snd (assign_xid 5 False run_sys)) = run_assigned"
proof -
  have "pa_inv (sys_array run_sys)" "5 \<in> set (pgprocnos (sys_array run_sys))"
    using run_pa_inv(1) by (simp_all add: run_sys_def run_joined_def run_array_def)
  note a = assign_xid_array(2) [OF this, of False]
  have adv: "FullTransactionIdAdvance \<lparr>fxid_value = 10\<rparr> = \<lparr>fxid_value = 11\<rparr>" by code_simp
  show ?thesis
    unfolding a by (simp add: run_sys_def run_joined_def run_assigned_def run_defs set_proc_def
        XidFromFullTransactionId_def adv)
qed

lemma run_reaches:
  "(run_step 9)\<^sup>*\<^sup>* (\<lambda>_. {}, CreateSharedProcArray 2 (\<lambda>_. sample_proc) sample_kax run_vcache) (run_live, run_assigned)"
proof -
  let ?s0 = "CreateSharedProcArray 2 (\<lambda>_. sample_proc) sample_kax run_vcache"
  let ?s1 = "run_array [3] ((\<lambda>_. sample_proc)(3 := at_offset 0))"
  have none: "(\<lambda>_. {})(p := {}) = (\<lambda>_. {})" for p :: nat by auto
  have "run_step 9 (\<lambda>_. {}, ?s0) ((\<lambda>_. {})(3 := {}), ?s1)"
    by (rule joins [OF _ _ _ run_join_3]) (simp_all add: CreateSharedProcArray_def sample_proc_def InvalidTransactionId_def)
  moreover have "run_step 9 (\<lambda>_. {}, ?s1) ((\<lambda>_. {})(5 := {}), run_joined)"
    by (rule joins [OF _ _ _ run_join_5]) (simp_all add: run_defs InvalidTransactionId_def)
  moreover have "run_step 9 (\<lambda>_. {}, sys_array run_sys) ((\<lambda>_. {})(5 := insert (XidFromFullTransactionId (fst (assign_xid 5 False run_sys))) {}),
      sys_array (snd (assign_xid 5 False run_sys)))"
  proof (rule assigns)
    have n: "next_xid (sys_array run_sys) = 10"
      by (simp add: next_xid_def run_sys_def run_joined_def run_defs XidFromFullTransactionId_def)
    have a: "TransactionIdAdvance 10 = 11" by (simp add: TransactionIdAdvance_def FirstNormalTransactionId_def)
    show "5 \<in> set (pgprocnos (sys_array run_sys))" by (simp add: run_sys_def run_joined_def run_defs)
    show "False \<longleftrightarrow> TransactionIdIsValid (p_xid (allProcs (sys_array run_sys) 5))"
      by (simp add: run_sys_def run_joined_def run_defs TransactionIdIsValid_def InvalidTransactionId_def)
    show "uint (fxid_value (nextXid (pa_shared (sys_array run_sys)))) < 2 ^ 64 - 5"
      by (simp add: run_sys_def run_joined_def run_defs)
    show "TransactionIdAdvance (next_xid (sys_array run_sys)) \<in> xid_window 9"
      by (simp add: n a xid_window_def TransactionIdIsNormal_def FirstNormalTransactionId_def)
    show "unat (next_xid (sys_array run_sys) - 9) < unat (TransactionIdAdvance (next_xid (sys_array run_sys)) - 9)"
      by (simp add: n a)
  qed simp
  moreover have "XidFromFullTransactionId (fst (assign_xid 5 False run_sys)) = 10"
  proof -
    have "pa_inv (sys_array run_sys)" "5 \<in> set (pgprocnos (sys_array run_sys))"
      using run_pa_inv(1) by (simp_all add: run_sys_def run_joined_def run_array_def)
    from assign_xid_array(1) [OF this, of False] show ?thesis
      by (simp add: run_sys_def run_joined_def run_defs XidFromFullTransactionId_def)
  qed
  moreover have "sys_array run_sys = run_joined" by (simp add: run_sys_def)
  ultimately show ?thesis
    by (simp add: none run_assign_5 run_live_def [symmetric] rtranclp.rtrancl_into_rtrancl)
qed

lemma run_member: "MyProcNo sample_vis \<in> set (pgprocnos run_assigned)"
  by (simp add: sample_vis_def run_assigned_def run_defs)

lemma run_window: "9 \<in> xid_window 9" "10 \<in> xid_window 9"
  by (simp_all add: xid_window_def TransactionIdIsNormal_def FirstNormalTransactionId_def)

lemma run_procs: "set (pgprocnos run_assigned) = {3, 5}"
  by (simp add: run_assigned_def run_defs)

lemma run_id_sets: "running_ids run_live run_assigned = {10}" "assigned_ids 9 run_assigned = {x \<in> xid_window 9. unat (x - 9) < 2}"
  by (simp_all add: running_ids_def run_procs run_live_def assigned_ids_def)
    (simp add: next_xid_def run_assigned_def run_defs XidFromFullTransactionId_def)

lemma run_scope: "10 \<in> scope_live 3 run_live run_assigned"
  by (simp add: scope_live_def run_procs run_live_def)
    (simp add: run_assigned_def run_defs skips_horizon_def)

lemma run_subtrans: "subtrans_right zero_subtrans 9 run_live run_assigned"
  by (simp add: subtrans_right_def run_procs run_live_def subtrans_live_def TransactionIdIsValid_def)
    (simp add: run_assigned_def run_defs)

theorem GetSnapshotData_reachable_exact_witness:
  "\<exists>sn s' be' ev. GetSnapshotData False 0 None sample_snapshot run_assigned sample_vis = (sn, s', be', ev)
    \<and> XidInMVCCSnapshot zero_subtrans (TransactionXmin be') 10 sn = Some (Inr True)"
proof -
  obtain sn s' be' ev where g: "GetSnapshotData False 0 None sample_snapshot run_assigned sample_vis = (sn, s', be', ev)"
    by (metis prod.exhaust)
  have r: "GetSnapshotDataReuse 0 None sample_snapshot run_assigned sample_vis = None"
    by (simp add: GetSnapshotDataReuse_def sample_snapshot_def)
  have o: "older_xmin 9 sample_vis run_assigned (snap_xmin sn)"
    by (simp add: older_xmin_def sample_vis_def run_assigned_def run_defs TransactionIdIsValid_def InvalidTransactionId_def)
  have me: "MyProcNo sample_vis = 3" by (simp add: sample_vis_def)
  have "XidInMVCCSnapshot zero_subtrans (TransactionXmin be') 10 sn = Some (Inr True)"
    using GetSnapshotData_reachable_exact [OF run_start_sample run_reaches run_member r g run_subtrans o run_window(2)]
      run_scope unfolding me by blast
  with g show ?thesis by blast
qed

definition idle_backend :: XactBackend where
  "idle_backend = sample_backend\<lparr>XactTopFullTransactionId := \<lparr>fxid_value = 0\<rparr>, xstack := []\<rparr>"

lemma idle_not_current: "\<not> TransactionIdIsCurrentTransactionId idle_backend y"
  by (auto simp: TransactionIdIsCurrentTransactionId_def idle_backend_def sample_backend_def GetTopTransactionIdIfAny_def
      XidFromFullTransactionId_def TransactionIdIsNormal_def FirstNormalTransactionId_def)

lemma zero_not_aborted: "x \<in> xid_window b \<Longrightarrow> \<not> did_abort zero_clog zero_subtrans t x"
  by (simp add: did_abort_iff [of _ _ _ x] true_status_window TransactionIdGetStatus_def zero_clog_def status_defs Let_def)

theorem TransactionIdIsInProgress_exact_witness:
  "\<exists>be' c'. TransactionIdIsInProgress False idle_backend zero_clog zero_subtrans run_assigned 10
     (sample_vis\<lparr>RecentXmin := 9, TransactionXmin := 9\<rparr>, empty_cache) = Some (Inr True, be', c')"
proof -
  let ?be = "sample_vis\<lparr>RecentXmin := 9, TransactionXmin := 9\<rparr>"
  have me: "MyProcNo ?be \<in> set (pgprocnos run_assigned)" using run_member by simp
  have b: "backend_right 9 run_live run_assigned idle_backend ?be"
    using run_window by (simp add: backend_right_def idle_not_current run_id_sets sample_vis_def) (simp add: run_live_def)
  have "subtrans_ok zero_subtrans" by (simp add: subtrans_ok_def TransactionIdIsValid_def)
  then have l: "logs_right zero_clog zero_subtrans (TransactionXmin ?be) 9 run_live run_assigned"
    using run_subtrans zero_not_aborted [OF run_window(2)]
    by (auto simp: logs_right_def run_id_sets zero_walk window_normal)
  have x: "10 \<in> assigned_ids 9 run_assigned" using run_window by (simp add: run_id_sets)
  show ?thesis
    using TransactionIdIsInProgress_exact [OF run_start_sample run_reaches me b l cache_ok_empty x] by (auto simp: run_id_sets)
qed

end
