(* ===== verification/SnapshotReuse.thy ===== *)
theory SnapshotReuse
  imports RunningXacts
begin

section \<open>Reused snapshots\<close>

text \<open>
  A backend keeps its last snapshot as long as the counter of completed transactions stands still
  (\<open>GetSnapshotDataReuse\<close>). Along the runs of \<open>RunningXacts\<close>, a counter that stands
  still means that no transaction ended, so the kept snapshot is as exact as a new one.
\<close>

subsection \<open>Steps that end no transaction\<close>

text \<open>
  The counter of completed transactions as a number. A step that does not change it ends no
  transaction: it keeps the newest completed id, and an id assigned before is in progress after it
  just when it was before.
\<close>

definition completions :: "ProcArrayStruct \<Rightarrow> int" where
  "completions s = uint (xactCompletionCount (pa_shared s))"

definition quiet :: "TransactionId \<Rightarrow> run_state \<Rightarrow> run_state \<Rightarrow> bool" where
  "quiet b st st' \<longleftrightarrow> last_completed (snd st') = last_completed (snd st)
     \<and> assigned_ids b (snd st) \<subseteq> assigned_ids b (snd st')
     \<and> running_ids (fst st') (snd st') \<inter> assigned_ids b (snd st) = running_ids (fst st) (snd st) \<inter> assigned_ids b (snd st)"

lemma quiet_trans:
  assumes "quiet b st st'" and "quiet b st' st''"
  shows "quiet b st st''"
proof -
  have "R'' \<inter> A = R \<inter> A" if "A \<subseteq> A'" "R' \<inter> A = R \<inter> A" "R'' \<inter> A' = R' \<inter> A'" for A A' R R' R'' :: "TransactionId set"
    using that by blast
  then show ?thesis using assms by (simp add: quiet_def) (meson order_trans)
qed

lemma quiet_same:
  assumes "last_completed t = last_completed s" and "next_xid t = next_xid s" and "running_ids live' t = running_ids live s"
  shows "quiet b (live, s) (live', t)"
  using assms by (simp add: quiet_def assigned_ids_def)

lemma completions_advance:
  assumes "pa_shared t = advance_completion_count vc" and "xactCompletionCount vc = xactCompletionCount (pa_shared s)"
  shows "completions t \<noteq> completions s"
  using assms by (simp add: completions_def advance_completion_count_def flip: word_uint_eq_iff)

lemma maintain_count [simp]: "xactCompletionCount (MaintainLatestCompletedXid latest vc) = xactCompletionCount vc"
  by (simp add: MaintainLatestCompletedXid_def Let_def)

lemma end_internal_shared:
  "pa_shared (ProcArrayEndTransactionInternal q latest s) = advance_completion_count (MaintainLatestCompletedXid latest (pa_shared s))"
  by (simp add: ProcArrayEndTransactionInternal_def clear_subxids_def clear_vacuum_flags_def Let_def)

lemma group_count:
  "xactCompletionCount (pa_shared (ProcArrayGroupClearXid before after p latest s))
    = xactCompletionCount (pa_shared s) + of_nat (length (before @ p # after))"
proof -
  have leave: "pa_shared (fold leave_group ms u) = pa_shared u" for ms u
    by (induction ms arbitrary: u) (simp_all add: leave_group_def)
  have ends: "xactCompletionCount (pa_shared (fold (\<lambda>q s. ProcArrayEndTransactionInternal q (procArrayGroupMemberXid (allProcs s q)) s) ms u))
      = xactCompletionCount (pa_shared u) + of_nat (length ms)" for ms u
    by (induction ms arbitrary: u) (simp_all add: end_internal_shared advance_completion_count_def)
  show ?thesis
    unfolding ProcArrayGroupClearXid_def group_clear_def Let_def leave by (simp only: ends) simp
qed

lemma step_quiet_assign:
  assumes "run_inv b live (sys_array sys)" and "p \<in> set (pgprocnos (sys_array sys))"
    and "uint (fxid_value (nextXid (pa_shared (sys_array sys)))) < 2 ^ 64 - 5"
    and "unat (next_xid (sys_array sys) - b) < unat (TransactionIdAdvance (next_xid (sys_array sys)) - b)"
  shows "quiet b (live, sys_array sys)
    (live(p := insert (next_xid (sys_array sys)) (live p)), sys_array (snd (assign_xid p isSub sys)))"
proof -
  let ?s = "sys_array sys" and ?t = "sys_array (snd (assign_xid p isSub sys))" and ?x = "next_xid (sys_array sys)"
  have inv: "pa_inv ?s" "?x \<in> xid_window b" using assms(1) by (simp_all add: run_inv_def)
  note t = assign_xid_array(2) [OF inv(1) assms(2), of isSub]
  have nos: "pgprocnos ?t = pgprocnos ?s" by (simp add: t)
  have "next_xid ?t = TransactionIdAdvance ?x"
    using xid_advance [OF window_normal [OF inv(2), unfolded next_xid_def] assms(3)] by (simp add: t next_xid_def)
  then have "assigned_ids b ?s \<subseteq> assigned_ids b ?t" using assms(4) by (auto simp: assigned_ids_def)
  moreover have "?x \<notin> assigned_ids b ?s" by (simp add: assigned_ids_def)
  moreover have "running_ids (live(p := insert ?x (live p))) ?t = insert ?x (running_ids live ?s)"
    using running_ids_upd [OF assms(2) nos] running_ids_split [OF assms(2)] by simp
  ultimately show ?thesis by (simp add: quiet_def last_completed_def t)
qed

lemma sub_abort_shared:
  "pa_shared (snd (XidCacheRemoveRunningXids p xid xids latest s))
    = advance_completion_count (MaintainLatestCompletedXid latest (pa_shared s))"
proof -
  have one: "pa_shared (snd (remove_one_subxid p x acc)) = pa_shared (snd acc)" for x acc
    by (cases acc) (simp add: remove_one_subxid_def Let_def split: option.split)
  have "pa_shared (snd (fold (remove_one_subxid p) xs acc)) = pa_shared (snd acc)" for xs acc
    by (induction xs arbitrary: acc) (simp_all add: one)
  then show ?thesis by (simp add: XidCacheRemoveRunningXids_def split_beta Let_def one)
qed

lemma running_newest_valid:
  assumes "run_inv b live s" and "p \<in> set (pgprocnos s)" and "newest_in b (live p) latest"
  shows "TransactionIdIsValid latest"
  using assms window_valid by (auto simp: run_inv_def running_ids_def assigned_ids_def newest_in_def)

text \<open>The steps that end transactions advance the counter.\<close>

lemma finishing_counts:
  assumes "TransactionIdIsValid latest"
  shows "completions (ProcArrayEndTransaction ProcArrayLockFree p latest s) \<noteq> completions s"
    and "length (before @ p # after) < 2 ^ 31 \<Longrightarrow>
      completions (ProcArrayEndTransaction (ProcArrayGroup before after) p latest s) \<noteq> completions s"
    and "completions (ProcArrayRemove p latest s) \<noteq> completions s"
proof -
  show "completions (ProcArrayEndTransaction ProcArrayLockFree p latest s) \<noteq> completions s"
    using assms by (intro completions_advance [where vc = "MaintainLatestCompletedXid latest (pa_shared s)"])
      (simp_all add: ProcArrayEndTransaction_def end_internal_shared)
  show "completions (ProcArrayRemove p latest s) \<noteq> completions s"
    using assms by (intro completions_advance [where vc = "MaintainLatestCompletedXid latest (pa_shared s)"])
      (simp_all add: ProcArrayRemove_entries)
  define n where "n = length (before @ p # after)"
  assume "length (before @ p # after) < 2 ^ 31"
  then have "0 < n" "n < 2 ^ 31" by (simp_all add: n_def)
  then have "unat (of_nat n :: uint64) \<noteq> 0" by (simp add: unsigned_of_nat take_bit_nat_eq_self)
  then have "(of_nat n :: uint64) \<noteq> 0" by fastforce
  moreover have "xactCompletionCount (pa_shared (ProcArrayEndTransaction (ProcArrayGroup before after) p latest s))
      = xactCompletionCount (pa_shared s) + of_nat n"
    using assms unfolding n_def by (simp only: ProcArrayEndTransaction_def group_count if_True procarray_lock.case)
  ultimately show "completions (ProcArrayEndTransaction (ProcArrayGroup before after) p latest s) \<noteq> completions s"
    by (simp add: completions_def flip: word_uint_eq_iff)
qed

lemma sub_aborting_counts: "completions (snd (XidCacheRemoveRunningXids p xid xids latest s)) \<noteq> completions s"
  by (rule completions_advance [where vc = "MaintainLatestCompletedXid latest (pa_shared s)"])
    (simp_all add: sub_abort_shared)

lemma handing_over_counts:
  assumes "pa_inv s" and "p \<in> set (pgprocnos s)"
  shows "completions (ProcArrayClearTransaction p s) \<noteq> completions s"
  by (rule completions_advance [where vc = "pa_shared s"]) (simp_all add: clear_transaction_set_proc [OF assms])

lemma joining_quiet:
  assumes "pa_inv s" and "p \<notin> set (pgprocnos s)" and "ProcArrayAdd p s = Inr t" and "L \<subseteq> running_ids live s"
  shows "quiet b (live, s) (live(p := L), t)"
proof (rule quiet_same)
  note a = ProcArrayAdd_inv [OF assms(1-3)] and e = ProcArrayAdd_entries(4) [OF assms(3)]
  show "last_completed t = last_completed s" "next_xid t = next_xid s" by (simp_all add: last_completed_def next_xid_def e)
  have "set (pgprocnos t) = insert p (set (pgprocnos s))" using a by blast
  then show "running_ids (live(p := L)) t = running_ids live s" using assms(2,4) by (auto simp: running_ids_def)
qed

lemma leaving_idle_quiet:
  assumes "pa_inv s" and "p \<in> set (pgprocnos s)" and "\<not> TransactionIdIsValid latest" and "live p = {}"
  shows "quiet b (live, s) (live, ProcArrayRemove p latest s)"
proof (rule quiet_same)
  have "set (pgprocnos (ProcArrayRemove p latest s)) = set (pgprocnos s) - {p}"
    using ProcArrayRemove_inv [OF assms(1,2), of latest] by blast
  then show "running_ids live (ProcArrayRemove p latest s) = running_ids live s"
    using assms(4) by (auto simp: running_ids_def)
qed (use assms(3) in \<open>simp_all add: last_completed_def next_xid_def ProcArrayRemove_entries\<close>)

lemma xmin_quiet:
  assumes "pgprocnos t = pgprocnos s" and "pa_shared t = pa_shared s"
  shows "quiet b (live, s) (live, t)"
  by (rule quiet_same) (simp_all add: assms last_completed_def next_xid_def running_ids_def)

lemma step_quiet:
  assumes "run_step b st st'" and "run_inv b (fst st) (snd st)" and "completions (snd st') = completions (snd st)"
  shows "quiet b st st'"
  using assms(1)
proof (cases rule: run_step.cases)
  case (assigns p sys isSub F sys' live)
  have "pa_inv (sys_array sys)" using assms(2) assigns(1) by (simp add: run_inv_def)
  then have "XidFromFullTransactionId F = next_xid (sys_array sys)"
    using assign_xid_array(1) [OF _ assigns(3), of isSub] assigns(8) by (simp add: next_xid_def)
  then show ?thesis
    using step_quiet_assign [OF _ assigns(3,5,7), of live isSub] assms(2) assigns(1,2,8) by simp
next
  case (finishes p s live latest)
  then have "TransactionIdIsValid latest" using running_newest_valid [of b live s p latest] assms(2) by simp
  from finishing_counts(1) [OF this, of p s] show ?thesis using assms(3) finishes(1,2) by simp
next
  case (finishes_in_group before p after s live latest)
  have "p \<in> set (pgprocnos s)" using finishes_in_group(3) by simp
  then have "TransactionIdIsValid latest" using running_newest_valid [of b live s p latest] assms(2) finishes_in_group(1,6) by simp
  from finishing_counts(2) [OF this finishes_in_group(7), of s] show ?thesis
    using assms(3) finishes_in_group(1,2) by simp
next
  case (sub_aborts p s xid xids live latest)
  then show ?thesis using assms(3) sub_aborting_counts [of p xid xids latest s] by simp
next
  case (joins p s t live)
  then show ?thesis using assms(2) joining_quiet [of s p t "{}" live b] by (simp add: run_inv_def)
next
  case (prepares p s q live t)
  have "live q \<subseteq> running_ids live s" using prepares(4) by (auto simp: running_ids_def)
  then show ?thesis using assms(2) joining_quiet [OF _ prepares(3,6), of "live q" live b] prepares(1,2) by (simp add: run_inv_def)
next
  case (hands_over p s q live)
  then show ?thesis using assms(2,3) handing_over_counts [of s p] by (simp add: run_inv_def)
next
  case (leaves p s latest live)
  have "pa_inv s" using assms(2) leaves(1) by (simp add: run_inv_def)
  then show ?thesis
    using assms(3) leaves finishing_counts(3) [of latest p s] leaving_idle_quiet [of s p latest live b]
    by (cases "TransactionIdIsValid latest") simp_all
next
  case (snapshots in_recovery cid old sn0 s be sn t be' ev live)
  then show ?thesis using GetSnapshotData_state [OF snapshots(3)] xmin_quiet [of t s b live] by auto
next
  case (adopts xmin vxid s be ok t be' live)
  then have "pgprocnos t = pgprocnos s \<and> pa_shared t = pa_shared s"
    by (auto simp: ProcArrayInstallImportedXmin_def split: option.splits prod.splits if_splits)
  then show ?thesis using adopts(1,2) xmin_quiet by simp
next
  case (restores be s xmin q ok t be' live)
  then have "pgprocnos t = pgprocnos s \<and> pa_shared t = pa_shared s"
    by (auto simp: ProcArrayInstallRestoredXmin_def Let_def split: if_splits)
  then show ?thesis using restores(1,2) xmin_quiet by simp
qed

subsection \<open>The kept snapshot\<close>

text \<open>The steps of a run on which the 64-bit counter does not wrap around.\<close>

definition counted_step :: "TransactionId \<Rightarrow> run_state \<Rightarrow> run_state \<Rightarrow> bool" where
  "counted_step b st st' \<longleftrightarrow> run_step b st st' \<and> completions (snd st) \<le> completions (snd st')"

lemma counted_quiet:
  assumes "(counted_step b)\<^sup>*\<^sup>* st st'" and "run_inv b (fst st) (snd st)" and "completions (snd st') = completions (snd st)"
  shows "run_inv b (fst st') (snd st') \<and> quiet b st st'"
proof -
  have "completions (snd st) \<le> completions (snd st') \<and> run_inv b (fst st') (snd st')
    \<and> (completions (snd st') = completions (snd st) \<longrightarrow> quiet b st st')"
    using assms(1)
  proof (induction rule: rtranclp_induct)
    case base
    then show ?case using assms(2) by (simp add: quiet_def)
  next
    case (step st1 st2)
    have s: "run_step b st1 st2" "completions (snd st1) \<le> completions (snd st2)"
      using step.hyps(2) by (simp_all add: counted_step_def)
    have "quiet b st st2" if "completions (snd st2) = completions (snd st)"
      using that step.IH s step_quiet [OF s(1)] quiet_trans by (metis order_antisym)
    then show ?case using step.IH s run_step_inv by (meson order_trans)
  qed
  then show ?thesis using assms(3) by simp
qed

lemma quiet_complete:
  assumes "run_inv b live0 s0" and "run_inv b live s" and "quiet b (live0, s0) (live, s)"
  shows "assigned_ids b s - running_ids live s \<subseteq> assigned_ids b s0 - running_ids live0 s0"
    and "running_ids live0 s0 \<subseteq> running_ids live s"
    and "running_ids live s - running_ids live0 s0 \<subseteq> - assigned_ids b s0"
proof -
  have q: "last_completed s = last_completed s0"
    "running_ids live s \<inter> assigned_ids b s0 = running_ids live0 s0 \<inter> assigned_ids b s0"
    using assms(3) by (simp_all add: quiet_def)
  have i: "unat (last_completed s0 - b) < unat (next_xid s0 - b)" "running_ids live0 s0 \<subseteq> assigned_ids b s0"
    "\<forall>x \<in> assigned_ids b s - running_ids live s. unat (x - b) \<le> unat (last_completed s - b)"
    using assms(1,2) by (simp_all add: run_inv_def)
  have "x \<in> assigned_ids b s0" if "x \<in> assigned_ids b s - running_ids live s" for x
  proof -
    have "unat (x - b) \<le> unat (last_completed s0 - b)" using i(3) that q(1) by simp
    then have "unat (x - b) < unat (next_xid s0 - b)" using i(1) by simp
    then show ?thesis using that by (simp add: assigned_ids_def)
  qed
  then show "assigned_ids b s - running_ids live s \<subseteq> assigned_ids b s0 - running_ids live0 s0" using q(2) by blast
  show "running_ids live0 s0 \<subseteq> running_ids live s" "running_ids live s - running_ids live0 s0 \<subseteq> - assigned_ids b s0"
    using q(2) i(2) by blast+
qed

lemma reuse_fields:
  assumes "GetSnapshotDataReuse cid old sn s be = Some (sn', s', be', ev)"
  shows "XidInMVCCSnapshot sub txmin x sn' = XidInMVCCSnapshot sub txmin x sn" and "snap_suboverflowed sn' = snap_suboverflowed sn"
    and "snapXactCompletionCount sn = xactCompletionCount (pa_shared s)"
    and "TransactionXmin be' = (if TransactionIdIsValid (p_xmin (allProcs s (MyProcNo be))) then TransactionXmin be else snap_xmin sn)"
proof -
  have c: "snapXactCompletionCount sn \<noteq> 0" "xactCompletionCount (pa_shared s) = snapXactCompletionCount sn"
    using assms by (simp_all add: GetSnapshotDataReuse_def split: if_splits)
  then show "snapXactCompletionCount sn = xactCompletionCount (pa_shared s)" by simp
  obtain t be1 where set: "set_my_xmin (snap_xmin sn) (s, be) = (t, be1)" by fastforce
  have r: "sn' = fst (GetSnapshotDataInitOldSnapshot old (fresh_snapshot cid sn))" "be' = be1\<lparr>RecentXmin := snap_xmin sn\<rparr>"
    using assms c by (simp_all add: GetSnapshotDataReuse_def set Let_def split_beta)
  show "TransactionXmin be' = (if TransactionIdIsValid (p_xmin (allProcs s (MyProcNo be))) then TransactionXmin be else snap_xmin sn)"
    using set by (auto simp: r(2) set_my_xmin_def split: if_splits)
  have f: "snap_xmin sn' = snap_xmin sn" "snap_xmax sn' = snap_xmax sn" "xip sn' = xip sn" "subxip sn' = subxip sn"
    "snap_suboverflowed sn' = snap_suboverflowed sn" "takenDuringRecovery sn' = takenDuringRecovery sn"
    by (simp_all add: r(1) GetSnapshotDataInitOldSnapshot_def fresh_snapshot_def split_beta split: option.split)
  then show "XidInMVCCSnapshot sub txmin x sn' = XidInMVCCSnapshot sub txmin x sn" "snap_suboverflowed sn' = snap_suboverflowed sn"
    by (simp_all only: XidInMVCCSnapshot_def search_topmost_def f)
qed

text \<open>
  C3: a snapshot that is taken again without being rebuilt, because no transaction completed since it
  was built, is exact for the present. Whatever backends did in the meantime - start, assign ids,
  prepare, leave, take snapshots - an id that is in progress now or not yet assigned is in progress
  for the snapshot (its own ids and those of vacuuming backends apart, which it left out when it was
  built), and an id that is assigned and not in progress now is complete for it; if it had to drop
  subtransaction ids, provided its topmost transaction is complete as well.
\<close>

theorem GetSnapshotDataReuse_exact:
  assumes "run_start b st0" and "(run_step b)\<^sup>*\<^sup>* st0 (live0, s0)" and "MyProcNo be0 \<in> set (pgprocnos s0)"
    and "GetSnapshotDataReuse cid0 old0 sn0 s0 be0 = None"
    and "GetSnapshotData False cid0 old0 sn0 s0 be0 = (sn, s1, be1, ev1)" and "(counted_step b)\<^sup>*\<^sup>* (live0, s1) (live, s)"
    and "GetSnapshotDataReuse cid old sn s be = Some (sn', s', be', ev)"
    and "subtrans_right sub b live0 s0" and "older_xmin b be s (snap_xmin sn)" and "x \<in> xid_window b"
  shows "(x \<notin> assigned_ids b s
          \<or> x \<in> running_ids live s \<and> x \<notin> running_ids live0 s0 - scope_live (MyProcNo be0) live0 s0 \<longrightarrow>
        XidInMVCCSnapshot sub (TransactionXmin be') x sn' = Some (Inr True))
    \<and> (x \<in> assigned_ids b s \<and> x \<notin> running_ids live s
        \<and> (snap_suboverflowed sn' \<longrightarrow> (\<exists>t. SubTransGetTopmostTransaction sub (TransactionXmin be') x = Some (Inr t)
             \<and> t \<notin> running_ids live s)) \<longrightarrow>
        XidInMVCCSnapshot sub (TransactionXmin be') x sn' = Some (Inr False))"
proof -
  have inv0: "run_inv b live0 s0" using run_reachable_inv [OF assms(1,2)] .
  note re = reuse_fields [OF assms(7)]
  have s1: "pgprocnos s1 = pgprocnos s0" "pa_shared s1 = pa_shared s0" using GetSnapshotData_state [OF assms(5)] by auto
  have inv1: "run_inv b live0 s1" using run_inv_xmin [OF inv0 GetSnapshotData_state [OF assms(5)]] .
  have "completions s = completions s1"
    using GetSnapshotData_build(4) [OF assms(4,5)] re(3) by (simp add: completions_def s1(2))
  then have "run_inv b live s" "quiet b (live0, s1) (live, s)"
    using counted_quiet [OF assms(6)] inv1 by simp_all
  then have inv: "run_inv b live s" "quiet b (live0, s0) (live, s)"
    using quiet_trans [OF xmin_quiet [OF s1, of b live0]] by blast+
  note q = quiet_complete [OF inv0 inv]
  have w: "snap_xmin sn \<in> xid_window b" using GetSnapshotData_live(1) [OF run_inv_live [OF inv0] assms(3-5)] .
  have tx: "TransactionXmin be' \<in> xid_window b" "TransactionIdPrecedesOrEquals (TransactionXmin be') (snap_xmin sn)"
    using assms(9) w precedes_or_equals_window [OF w w] by (auto simp: re(4) older_xmin_def)
  note d = snapshot_divides [OF inv0 assms(3-5,8) tx assms(10)]
  have "x \<in> scope_live (MyProcNo be0) live0 s0 \<or> x \<notin> assigned_ids b s0"
    if "x \<notin> assigned_ids b s \<or> x \<in> running_ids live s \<and> x \<notin> running_ids live0 s0 - scope_live (MyProcNo be0) live0 s0"
  proof -
    have "assigned_ids b s0 \<subseteq> assigned_ids b s" using inv(2) by (simp add: quiet_def)
    then show ?thesis using that q(3) by blast
  qed
  then show ?thesis unfolding re(1,2) using d(1) d(2) q(1,2) by blast
qed

theorem GetSnapshotDataReuse_exact_witness:
  "\<exists>sn s1 be1 ev1 live t sn' s' be' ev. GetSnapshotData False 0 None sample_snapshot run_assigned sample_vis = (sn, s1, be1, ev1)
    \<and> (counted_step 9)\<^sup>*\<^sup>* (run_live, s1) (live, t) \<and> GetSnapshotDataReuse 1 None sn t be1 = Some (sn', s', be', ev)
    \<and> XidInMVCCSnapshot zero_subtrans (TransactionXmin be') 10 sn' = Some (Inr True)"
proof -
  obtain sn s1 be1 ev1 where g: "GetSnapshotData False 0 None sample_snapshot run_assigned sample_vis = (sn, s1, be1, ev1)"
    by (metis prod.exhaust)
  obtain sn5 t be5 ev5 where g5: "GetSnapshotData False 0 None sample_snapshot s1 (sample_vis\<lparr>MyProcNo := 5\<rparr>) = (sn5, t, be5, ev5)"
    by (metis prod.exhaust)
  have r: "GetSnapshotDataReuse 0 None sample_snapshot run_assigned sample_vis = None"
    by (simp add: GetSnapshotDataReuse_def sample_snapshot_def)
  have s1: "pgprocnos s1 = pgprocnos run_assigned" "pa_shared s1 = pa_shared run_assigned"
    using GetSnapshotData_state [OF g] by auto
  have t: "pgprocnos t = pgprocnos s1" "pa_shared t = pa_shared s1" using GetSnapshotData_state [OF g5] by auto
  have run: "(counted_step 9)\<^sup>*\<^sup>* (run_live, s1) (run_live, t)"
    using snapshots [OF g5] by (auto simp: counted_step_def completions_def t(2))
  have c: "snapXactCompletionCount sn = xactCompletionCount (pa_shared t)"
    using GetSnapshotData_build(4) [OF r g] by (simp add: t(2) s1(2))
  have "xactCompletionCount (pa_shared run_assigned) \<noteq> 0" by (simp add: run_assigned_def run_defs)
  then obtain sn' s' be' ev where u: "GetSnapshotDataReuse 1 None sn t be1 = Some (sn', s', be', ev)"
    using c by (auto simp: GetSnapshotDataReuse_def t(2) s1(2) Let_def split_beta)
  have inv: "run_inv 9 run_live run_assigned" using run_reachable_inv [OF run_start_sample run_reaches] .
  have "older_xmin 9 sample_vis run_assigned (snap_xmin sn)"
    by (simp add: older_xmin_def sample_vis_def run_assigned_def run_defs TransactionIdIsValid_def InvalidTransactionId_def)
  then have o: "older_xmin 9 be1 t (snap_xmin sn)"
    using snapshot_txmin [OF run_inv_live [OF inv] run_member r g] by (simp add: older_xmin_def)
  have now: "10 \<in> running_ids run_live t" using run_id_sets(1) by (simp add: running_ids_def t(1) s1(1))
  have me: "MyProcNo sample_vis = 3" by (simp add: sample_vis_def)
  have "XidInMVCCSnapshot zero_subtrans (TransactionXmin be') 10 sn' = Some (Inr True)"
    using GetSnapshotDataReuse_exact [OF run_start_sample run_reaches run_member r g run u run_subtrans o run_window(2)]
      now run_scope unfolding me by blast
  with g run u show ?thesis by blast
qed

end
