(* ===== verification/StandbyRuns.thy ===== *)
theory StandbyRuns
  imports Snapshots
begin

section \<open>Transactions of the primary over a standby's replay\<close>

text \<open>
  What a standby keeps of a transaction while it replays further records: its main id stays in
  the array of running ids, and each of its other ids is in that array or was handed over to the
  log of subtransactions and lies below the overflow mark. As long as no record ends the
  transaction, every snapshot on the standby therefore shows its ids as in progress.
\<close>

subsection \<open>Extending the log of subtransactions\<close>

text \<open>A page is cleared when its first id is observed, so an id observed earlier is on another page.\<close>

lemma window_next:
  assumes "y \<in> xid_window b" and "unat y \<le> unat x" and "unat x < unat y + 2048"
  shows "unat (y - b) \<le> unat (x - b)"
proof -
  have "unat (x - y) = unat x - unat y" using assms(2) by (intro unat_sub) (simp add: word_le_nat_alt)
  then have d: "unat (x - y) < 2048" using assms(2,3) by linarith
  have y: "unat (y - b) < 2147483648" using assms(1) by (simp add: xid_window_def)
  have "x - b = (y - b) + (x - y)" by simp
  also have "unat \<dots> = unat (y - b) + unat (x - y)" using d y by (intro unat_add_lem [THEN iffD1]) simp
  finally show ?thesis by simp
qed

lemma ExtendSUBTRANS_keeps:
  assumes "x \<in> xid_window b" and "y \<in> xid_window b" and "unat (x - b) < unat (y - b)"
  shows "SubTransGetParent (ExtendSUBTRANS y s) x = SubTransGetParent s x"
proof (rule ccontr)
  assume "SubTransGetParent (ExtendSUBTRANS y s) x \<noteq> SubTransGetParent s x"
  then have first: "TransactionIdToEntry y = 0 \<or> y = FirstNormalTransactionId" and page: "subtrans_page x = subtrans_page y"
    by (auto simp: SubTransGetParent_def ExtendSUBTRANS_def ZeroSUBTRANSPage_def split: if_splits)
  have n: "SUBTRANS_XACTS_PER_PAGE = 2048" by (simp add: SUBTRANS_XACTS_PER_PAGE_def BLCKSZ_def)
  have at: "unat z = subtrans_page z * 2048 + TransactionIdToEntry z" "TransactionIdToEntry z < 2048" for z
    by (simp_all add: subtrans_page_def TransactionIdToEntry_def n)
  have "unat y \<le> unat x"
  proof (cases "y = FirstNormalTransactionId")
    case True
    then show ?thesis using window_normal [OF assms(1)] by (simp add: TransactionIdIsNormal_def word_le_nat_alt)
  next
    case False
    then show ?thesis using first at(1) [of x] at(1) [of y] page by simp
  qed
  moreover have "unat x < unat y + 2048" using at [of x] at(1) [of y] page by linarith
  ultimately show False using window_next [OF assms(2)] assms(3) by (meson not_le)
qed

lemma extend_subtrans_upto_keeps:
  assumes "o' \<in> xid_window b" and "n \<in> xid_window b" and "x \<in> xid_window b" and "unat (x - b) \<le> unat (o' - b)"
  shows "SubTransGetParent (extend_subtrans_upto o' n s) x = SubTransGetParent s x"
  using assms
proof (induction o' n s rule: extend_subtrans_upto.induct)
  case (1 o' n s)
  show ?case
  proof (cases "TransactionIdPrecedes o' n")
    case True
    then have "unat (o' - b) < unat (n - b)" using "1.prems" by (simp add: precedes_window)
    note adv = window_advance [OF "1.prems"(1,2) this]
    let ?o = "TransactionIdAdvance o'"
    have "SubTransGetParent (extend_subtrans_upto ?o n (ExtendSUBTRANS ?o s)) x = SubTransGetParent (ExtendSUBTRANS ?o s) x"
      using "1.IH" [OF True refl] adv "1.prems" by auto
    also have "\<dots> = SubTransGetParent s x"
      using adv "1.prems" by (intro ExtendSUBTRANS_keeps [of _ b]) auto
    finally show ?thesis using True by (simp add: extend_subtrans_upto.simps [of o'] Let_def)
  next
    case False
    then show ?thesis by (simp add: extend_subtrans_upto.simps)
  qed
qed

lemma RecordKnownAssigned_parent:
  assumes "standby_inv b st" and "xid \<in> xid_window b" and "x \<in> observed b st"
    and "RecordKnownAssignedTransactionIds clock xid st = Inr st'"
  shows "SubTransGetParent (subtrans st') x = SubTransGetParent (subtrans st) x"
proof -
  have "SubTransGetParent (extend_subtrans_upto (latestObservedXid st) xid (subtrans st)) x = SubTransGetParent (subtrans st) x"
    using assms(1-3) by (intro extend_subtrans_upto_keeps [of _ b]) (auto simp: standby_inv_def observed_def)
  then show ?thesis
    using assms(4) by (auto simp: RecordKnownAssignedTransactionIds_def Let_def split: if_splits sum.splits)
qed

lemma parent_set_fold_other:
  "x \<notin> set xs \<Longrightarrow> SubTransGetParent (fold (\<lambda>x. SubTransSetParent x p) xs sub) x = SubTransGetParent sub x"
  by (induction xs arbitrary: sub) (simp_all add: parent_set)

lemma assignment_parent:
  assumes "standby_inv b st" and "set (topxid # subs) \<subseteq> xid_window b" and "x \<in> observed b st" and "x \<notin> set subs"
    and "ProcArrayApplyXidAssignment clock clock' topxid subs st = Inr st'"
  shows "SubTransGetParent (subtrans st') x = SubTransGetParent (subtrans st) x"
proof -
  let ?m = "TransactionIdLatest topxid subs"
  obtain st1 where st1: "RecordKnownAssignedTransactionIds clock ?m st = Inr st1"
    "subtrans st' = fold (\<lambda>x. SubTransSetParent x topxid) subs (subtrans st1)"
    using assms(5) by (auto simp: ProcArrayApplyXidAssignment_def Let_def split: sum.splits if_splits)
  then show ?thesis
    using RecordKnownAssigned_parent [OF assms(1) latest_in_window(1) [OF assms(2)] assms(3) st1(1)] assms(4)
    by (simp add: parent_set_fold_other)
qed

subsection \<open>What is kept of a transaction\<close>

text \<open>
  The standby tracks the id \<open>x\<close> of the transaction with the main id \<open>m\<close>: it is the main id, it is
  in the array and not linked to another transaction, or it is linked to the main id and not after
  the overflow mark.
\<close>

definition overflow_ok :: "TransactionId \<Rightarrow> StandbyProcArray \<Rightarrow> bool" where
  "overflow_ok b st \<longleftrightarrow> lastOverflowedXid st = InvalidTransactionId \<or> lastOverflowedXid st \<in> xid_window b"

definition handed_over :: "TransactionId \<Rightarrow> StandbyProcArray \<Rightarrow> TransactionId \<Rightarrow> TransactionId \<Rightarrow> bool" where
  "handed_over b st m x \<longleftrightarrow> SubTransGetParent (subtrans st) x = m \<and> lastOverflowedXid st \<in> xid_window b
     \<and> unat (x - b) \<le> unat (lastOverflowedXid st - b)"

definition tracked :: "TransactionId \<Rightarrow> StandbyProcArray \<Rightarrow> TransactionId \<Rightarrow> TransactionId \<Rightarrow> bool" where
  "tracked b st m x \<longleftrightarrow> m \<in> running st \<and> x \<in> observed b st \<and> unat (m - b) \<le> unat (x - b)
     \<and> SubTransGetParent (subtrans st) m = InvalidTransactionId
     \<and> (x = m \<or> x \<in> running st \<and> SubTransGetParent (subtrans st) x \<in> {InvalidTransactionId, m} \<or> handed_over b st m x)"

text \<open>
  A record that leaves this transaction running: it ends neither of the two ids, assigns neither
  to another transaction, and if it names the oldest running id, that is not after the main id.
\<close>

fun keeps_running :: "TransactionId \<Rightarrow> TransactionId \<Rightarrow> TransactionId \<Rightarrow> standby_op \<Rightarrow> bool" where
  "keeps_running b m x (Observe xid) \<longleftrightarrow> True" |
  "keeps_running b m x (EndTree xid subs max_xid) \<longleftrightarrow> m \<notin> set (xid # subs) \<and> x \<notin> set (xid # subs)" |
  "keeps_running b m x (Assignment topxid subs) \<longleftrightarrow> m \<notin> set subs \<and> (x \<in> set subs \<longrightarrow> topxid = m)" |
  "keeps_running b m x (PruneBefore xid) \<longleftrightarrow> unat (xid - b) \<le> unat (m - b)" |
  "keeps_running b m x Idle \<longleftrightarrow> True"

lemma running_observed: "standby_inv b st \<Longrightarrow> running st \<subseteq> observed b st"
  using ka_list_subset [of "known st"] by (auto simp: standby_inv_def running_def)

text \<open>Operations that leave the log and the overflow mark alone, but for ids not observed before.\<close>

lemma tracked_same_log:
  assumes "standby_inv b st" and "tracked b st m x" and "observed b st \<subseteq> observed b st'"
    and "running st - R \<subseteq> running st'" and "m \<notin> R" and "x \<notin> R"
    and "\<And>y. y \<in> observed b st \<Longrightarrow> SubTransGetParent (subtrans st') y = SubTransGetParent (subtrans st) y"
    and "handed_over b st m x \<Longrightarrow> lastOverflowedXid st' = lastOverflowedXid st"
  shows "tracked b st' m x"
proof -
  have "m \<in> observed b st" "x \<in> observed b st"
    using running_observed [OF assms(1)] assms(2) by (auto simp: tracked_def)
  then show ?thesis using assms(2-8) by (auto simp: tracked_def handed_over_def)
qed

lemma tracked_assignment:
  assumes "standby_inv b st" and "tracked b st m x" and "overflow_ok b st" and "set (topxid # subs) \<subseteq> xid_window b"
    and "m \<notin> set subs" and "x \<in> set subs \<longrightarrow> topxid = m"
    and "ProcArrayApplyXidAssignment clock clock' topxid subs st = Inr st'"
  shows "tracked b st' m x"
proof -
  let ?l = "TransactionIdLatest topxid subs" and ?new = "newly_observed b (Assignment topxid subs) st"
  have r: "observed b st \<subseteq> observed b st'" "running st' = (running st \<union> ?new) - set subs"
    "\<exists>sub. subtrans st' = fold (\<lambda>x. SubTransSetParent x topxid) subs sub"
    "lastOverflowedXid st' = (if TransactionIdPrecedes (lastOverflowedXid st) ?l then ?l else lastOverflowedXid st)"
    using assignment_result [OF assms(1,4), of clock clock'] assms(7) by (simp_all add: Let_def)
  note l = latest_in_window [OF assms(4)]
  have ov: "lastOverflowedXid st' \<in> xid_window b"
    using assignment_overflow_window [OF assms(1,4) _ assms(7)] assms(3) by (simp add: overflow_ok_def)
  have obs: "m \<in> observed b st" "x \<in> observed b st" using running_observed [OF assms(1)] assms(2) by (auto simp: tracked_def)
  have keep: "SubTransGetParent (subtrans st') y = SubTransGetParent (subtrans st) y" if "y \<in> observed b st" "y \<notin> set subs" for y
    using assignment_parent [OF assms(1,4) that assms(7)] .
  have le: "unat (?l - b) \<le> unat (lastOverflowedXid st' - b)"
    using r(4) ov precedes_window [OF _ l(1), of "lastOverflowedXid st"] by (auto split: if_splits)
  have grow: "unat (lastOverflowedXid st - b) \<le> unat (lastOverflowedXid st' - b)" if "lastOverflowedXid st \<in> xid_window b"
    using r(4) precedes_window [OF that l(1)] by (auto split: if_splits)
  have "handed_over b st' m x" if x: "x \<in> set subs"
  proof -
    have "TransactionIdIsNormal x" using x assms(4) window_normal by auto
    then have "SubTransGetParent (subtrans st') x = m" using r(3) parent_set_fold [OF x] assms(6) x by metis
    moreover have "unat (x - b) \<le> unat (lastOverflowedXid st' - b)" using l(2) x le by (meson list.set_intros(2) order_trans)
    ultimately show ?thesis using ov by (simp add: handed_over_def)
  qed
  moreover have "handed_over b st' m x" if "x \<notin> set subs" "handed_over b st m x"
    using that keep obs(2) grow ov by (auto simp: handed_over_def)
  ultimately have "x \<in> set subs \<or> handed_over b st m x \<longrightarrow> handed_over b st' m x" by blast
  moreover have "x \<notin> set subs \<longrightarrow> SubTransGetParent (subtrans st') x = SubTransGetParent (subtrans st) x" using keep obs(2) by blast
  ultimately show ?thesis
    using assms(2,5) r(1,2) keep [OF obs(1)] obs unfolding tracked_def by auto
qed

lemma tracked_prune:
  assumes "standby_inv b st" and "tracked b st m x" and "xid \<in> xid_window b" and "unat (xid - b) \<le> unat (m - b)"
    and "standby_apply is_prepared clock (PruneBefore xid) st = Inr st'"
  shows "tracked b st' m x"
proof (rule tracked_same_log [OF assms(1,2)])
  have w: "m \<in> xid_window b" "x \<in> xid_window b"
    using running_observed [OF assms(1)] assms(2) by (auto simp: tracked_def observed_def)
  have le: "unat (xid - b) \<le> unat (x - b)" using assms(2,4) by (auto simp: tracked_def)
  show "m \<notin> {y. TransactionIdPrecedes y xid \<and> \<not> is_prepared y}" "x \<notin> {y. TransactionIdPrecedes y xid \<and> \<not> is_prepared y}"
    using precedes_window [OF w(1) assms(3)] precedes_window [OF w(2) assms(3)] assms(4) le by auto
  show "lastOverflowedXid st' = lastOverflowedXid st" if "handed_over b st m x"
    using that le precedes_window [OF _ assms(3), of "lastOverflowedXid st"] assms(5)
    by (auto simp: handed_over_def ExpireOldKnownAssignedTransactionIds_def Let_def)
qed (use standby_apply_result [OF assms(1), of "PruneBefore xid" is_prepared clock] assms(3,5) in
    \<open>auto simp: newly_observed_def ExpireOldKnownAssignedTransactionIds_def Let_def\<close>)

lemma tracked_apply:
  assumes "standby_inv b st" and "tracked b st m x" and "overflow_ok b st" and "op_ids p \<subseteq> xid_window b"
    and "keeps_running b m x p" and "standby_apply is_prepared clock p st = Inr st'"
  shows "tracked b st' m x"
proof (cases p)
  case (Observe xid)
  have w: "xid \<in> xid_window b" and r: "RecordKnownAssignedTransactionIds clock xid st = Inr st'"
    using assms(4,6) Observe by simp_all
  show ?thesis
    by (rule tracked_same_log [OF assms(1,2), of _ "{}"])
      (use RecordKnownAssigned_result [OF assms(1) w, of clock] RecordKnownAssigned_parent [OF assms(1) w _ r] r in auto)
next
  case (EndTree xid subs max_xid)
  show ?thesis
    by (rule tracked_same_log [OF assms(1,2), of _ "set (xid # subs)"])
      (use standby_apply_result [OF assms(1,4), of is_prepared clock] assms(5,6) EndTree in
        \<open>auto simp: newly_observed_def ExpireTreeKnownAssignedTransactionIds_def\<close>)
next
  case (Assignment topxid subs)
  then show ?thesis using tracked_assignment [OF assms(1-3)] assms(4-6) by auto
next
  case (PruneBefore xid)
  then show ?thesis using tracked_prune [OF assms(1,2)] assms(4-6) by auto
next
  case Idle
  show ?thesis
    by (rule tracked_same_log [OF assms(1,2), of _ "{}"])
      (use standby_apply_result [OF assms(1,4), of is_prepared clock] assms(6) Idle in
        \<open>auto simp: newly_observed_def KnownAssignedTransactionIdsIdleMaintenance_def\<close>)
qed

lemma overflow_ok_apply:
  assumes "standby_inv b st" and "overflow_ok b st" and "op_ids p \<subseteq> xid_window b" and "standby_apply is_prepared clock p st = Inr st'"
  shows "overflow_ok b st'"
proof (cases p)
  case (Observe xid)
  then show ?thesis using RecordKnownAssigned_result [OF assms(1), of xid clock] assms(2-4) by (auto simp: overflow_ok_def)
next
  case (Assignment topxid subs)
  then show ?thesis
    using assignment_overflow_window [OF assms(1), of topxid subs clock clock] assms(2-4) by (auto simp: overflow_ok_def)
qed (use assms(2,4) in \<open>auto simp: overflow_ok_def ExpireTreeKnownAssignedTransactionIds_def
      ExpireOldKnownAssignedTransactionIds_def KnownAssignedTransactionIdsIdleMaintenance_def Let_def\<close>)

lemma tracked_replay:
  assumes "standby_inv b st" and "tracked b st m x" and "overflow_ok b st"
    and "\<forall>p \<in> set ops. op_ids p \<subseteq> xid_window b \<and> keeps_running b m x p"
    and "run_ops (standby_apply is_prepared clock) ops st = Inr st'"
  shows "standby_inv b st' \<and> tracked b st' m x"
  using assms
proof (induction ops arbitrary: st)
  case (Cons p ops)
  then obtain u where u: "standby_apply is_prepared clock p st = Inr u" "run_ops (standby_apply is_prepared clock) ops u = Inr st'"
    by (auto split: sum.splits)
  have p: "op_ids p \<subseteq> xid_window b" "keeps_running b m x p" using Cons.prems(4) by auto
  show ?case
    using Cons.IH [OF standby_ids.app_wf [OF Cons.prems(1) p(1) u(1)] tracked_apply [OF Cons.prems(1-3) p u(1)]
        overflow_ok_apply [OF Cons.prems(1,3) p(1) u(1)] _ u(2)] Cons.prems(4) by simp
qed simp

subsection \<open>Snapshots after the replay\<close>

lemma tracked_covered:
  assumes "standby_inv b st" and "tracked b st m x" and "txmin \<in> xid_window b" and "TransactionIdPrecedesOrEquals txmin m"
  shows "covered b st (subtrans st) txmin x"
proof -
  let ?p = "SubTransGetParent (subtrans st)"
  have t: "m \<in> running st" "unat (m - b) \<le> unat (x - b)" "?p m = InvalidTransactionId"
    and x: "x = m \<or> x \<in> running st \<and> ?p x \<in> {InvalidTransactionId, m} \<or> handed_over b st m x"
    using assms(2) by (simp_all add: tracked_def)
  have w: "m \<in> xid_window b" "x \<in> xid_window b"
    using running_observed [OF assms(1)] assms(2) by (auto simp: tracked_def observed_def)
  have le: "unat (txmin - b) \<le> unat (m - b)" using assms(4) precedes_or_equals_window [OF assms(3) w(1)] by simp
  have in_array: "x \<in> running st \<or> lastOverflowedXid st \<in> xid_window b \<and> unat (x - b) \<le> unat (lastOverflowedXid st - b)"
    using x t(1) by (auto simp: handed_over_def)
  show ?thesis
  proof (cases "?p x = m \<and> x \<noteq> m")
    case True
    have "unat (m - b) < unat (x - b)" using t(2) True xid_at_offset [of x b m 0] by (auto simp: le_less)
    with True t(3) have "subtrans_live (subtrans st) b m {m, x}" by (auto simp: subtrans_live_def TransactionIdIsValid_def)
    then have "SubTransGetTopmostTransaction (subtrans st) txmin x = Some (Inr m)"
      using w t(2) le assms(3) by (intro topmost_live [where L = "{m, x}" and b = b]) auto
    then show ?thesis using t(1,2) in_array by (auto simp: covered_def)
  next
    case False
    then have r: "x \<in> running st" "?p x = InvalidTransactionId" using x t(1,3) by (auto simp: handed_over_def)
    then have "subtrans_live (subtrans st) b x {x}" by (simp add: subtrans_live_def TransactionIdIsValid_def)
    then have "SubTransGetTopmostTransaction (subtrans st) txmin x = Some (Inr x)"
      using w t(2) le assms(3) by (intro topmost_live [where L = "{x}" and b = b]) auto
    then show ?thesis using r(1) by (auto simp: covered_def)
  qed
qed

lemma tracked_in_snapshot:
  assumes "standby_inv b st" and "tracked b st m x" and "overflow_ok b st"
    and "\<forall>p \<in> set ops. op_ids p \<subseteq> xid_window b \<and> keeps_running b m x p"
    and "run_ops (standby_apply is_prepared clock) ops st = Inr st'"
    and "standby_view st' s" and "pa_inv s" and "MyProcNo be \<in> set (pgprocnos s)" and "next_completed s \<in> xid_window b"
    and "GetSnapshotDataReuse cid old sn0 s be = None" and "GetSnapshotData True cid old sn0 s be = (sn, s', be', ev)"
    and "txmin \<in> xid_window b" and "TransactionIdPrecedesOrEquals txmin m"
  shows "XidInMVCCSnapshot (subtrans st') txmin x sn = Some (Inr True)"
proof -
  have t: "standby_inv b st'" "tracked b st' m x" using tracked_replay [OF assms(1-5)] by simp_all
  then have "x \<in> xid_window b" by (simp add: tracked_def observed_def)
  then show ?thesis using standby_snapshot_answers [OF t(1) assms(6-11)] tracked_covered [OF t assms(12,13)] by blast
qed


subsection \<open>Witnesses\<close>

definition shared_array :: "VariableCache \<Rightarrow> StandbyProcArray \<Rightarrow> ProcArrayStruct" where
  "shared_array vc st = (standby_array st)\<lparr>pa_shared := vc\<rparr>"

lemma shared_array_ok:
  "standby_view st (shared_array vc st)" "pa_inv (shared_array vc st)" "MyProcNo sample_vis \<in> set (pgprocnos (shared_array vc st))"
  using standby_array_ok [of st] by (simp_all add: shared_array_def standby_view_def top_ids_def pa_inv_def)


end
