(* ===== verification/RunningData.thy ===== *)
theory RunningData
  imports RunningXacts StandbyRuns
begin

section \<open>Running transactions for standbys\<close>

text \<open>
  The queries over all running transactions of \<open>procarray.c\<close>: \<open>GetRunningTransactionData\<close>, whose
  record a primary writes to its log, and the oldest running id that checkpoints and logical
  decoding start from; and from \<open>src/backend/storage/ipc/standby.c\<close> the record itself, as the primary writes
  it and the standby reads it. On reachable states the queries are exact; a standby that starts from the
  record of a primary follows its transactions, and keeps showing them as in progress while it
  replays what comes after the record.
\<close>

subsection \<open>The queries\<close>

text \<open>The bodies of the two loops: main ids with the oldest of them, then the cached subtransactions.\<close>

definition running_proc ::
  "ProcArrayStruct \<Rightarrow> nat \<Rightarrow> TransactionId \<times> TransactionId list \<times> bool \<Rightarrow> TransactionId \<times> TransactionId list \<times> bool" where
  "running_proc s index acc =
     (let (oldest, xids, overflowed) = acc; xid = g_xids s ! index
      in if \<not> TransactionIdIsValid xid then acc
         else (if TransactionIdPrecedes xid oldest then xid else oldest, xids @ [xid],
               if snd (g_subxidStates s ! index) then True else overflowed))"

definition running_subxids :: "ProcArrayStruct \<Rightarrow> nat \<Rightarrow> TransactionId list \<Rightarrow> TransactionId list" where
  "running_subxids s index xids =
     (let nsubxids = fst (g_subxidStates s ! index)
      in if 0 < nsubxids then xids @ take nsubxids (subxids (allProcs s (pgprocnos s ! index))) else xids)"

definition GetRunningTransactionData :: "ProcArrayStruct \<Rightarrow> RunningTransactionsData" where
  "GetRunningTransactionData s =
     (let indexes = [0 ..< length (pgprocnos s)];
          nxt = XidFromFullTransactionId (nextXid (pa_shared s));
          (oldest, tops, overflowed) = fold (running_proc s) indexes (nxt, [], False);
          xids = (if \<not> overflowed then fold (running_subxids s) indexes tops else tops);
          subcount = length xids - length tops
      in \<lparr>xcnt = length xids - subcount, subxcnt = subcount,
          subxid_status = (if overflowed then SUBXIDS_IN_SUBTRANS else SUBXIDS_IN_ARRAY),
          running_nextXid = nxt, oldestRunningXid = oldest,
          running_latestCompletedXid = XidFromFullTransactionId (latestCompletedXid (pa_shared s)),
          running_xids = xids\<rparr>)"

definition oldest_xid_proc :: "ProcArrayStruct \<Rightarrow> nat \<Rightarrow> TransactionId \<Rightarrow> TransactionId" where
  "oldest_xid_proc s index oldest =
     (let xid = g_xids s ! index
      in if \<not> TransactionIdIsNormal xid then oldest
         else if TransactionIdPrecedes xid oldest then xid else oldest)"

definition GetOldestActiveTransactionId :: "ProcArrayStruct \<Rightarrow> TransactionId" where
  "GetOldestActiveTransactionId s =
     fold (oldest_xid_proc s) [0 ..< length (pgprocnos s)] (XidFromFullTransactionId (nextXid (pa_shared s)))"

definition GetOldestSafeDecodingTransactionId :: "bool \<Rightarrow> bool \<Rightarrow> ProcArrayStruct \<Rightarrow> TransactionId" where
  "GetOldestSafeDecodingTransactionId in_recovery catalogOnly s =
     (let oldest = XidFromFullTransactionId (nextXid (pa_shared s));
          oldest = (if TransactionIdIsValid (replication_slot_xmin s)
                       \<and> TransactionIdPrecedes (replication_slot_xmin s) oldest
                    then replication_slot_xmin s else oldest);
          oldest = (if catalogOnly \<and> TransactionIdIsValid (replication_slot_catalog_xmin s)
                       \<and> TransactionIdPrecedes (replication_slot_catalog_xmin s) oldest
                    then replication_slot_catalog_xmin s else oldest)
      in if \<not> in_recovery then fold (oldest_xid_proc s) [0 ..< length (pgprocnos s)] oldest else oldest)"

subsection \<open>The record of running transactions in the log\<close>

text \<open>
  The record in the write-ahead log only says whether the snapshot overflowed: a primary writes
  \<open>SUBXIDS_IN_SUBTRANS\<close> as an overflow, and a standby reads an overflow as \<open>SUBXIDS_MISSING\<close>, since
  its own log of subtransactions does not have the entries of the primary's. \<open>redo_running_xacts\<close> is the case of
  \<open>standby_redo\<close> for this record, without the report to the statistics system.
\<close>

record xl_running_xacts =
  xl_xcnt :: nat
  xl_subxcnt :: nat
  xl_subxid_overflow :: bool
  xl_nextXid :: TransactionId
  xl_oldestRunningXid :: TransactionId
  xl_latestCompletedXid :: TransactionId
  xl_xids :: "TransactionId list"

definition LogCurrentRunningXacts :: "RunningTransactionsData \<Rightarrow> xl_running_xacts" where
  "LogCurrentRunningXacts CurrRunningXacts =
     \<lparr>xl_xcnt = xcnt CurrRunningXacts, xl_subxcnt = subxcnt CurrRunningXacts,
      xl_subxid_overflow = (subxid_status CurrRunningXacts \<noteq> SUBXIDS_IN_ARRAY),
      xl_nextXid = running_nextXid CurrRunningXacts, xl_oldestRunningXid = oldestRunningXid CurrRunningXacts,
      xl_latestCompletedXid = running_latestCompletedXid CurrRunningXacts,
      xl_xids = (if 0 < xcnt CurrRunningXacts then take (xcnt CurrRunningXacts + subxcnt CurrRunningXacts) (running_xids CurrRunningXacts) else [])\<rparr>"

definition running_from_record :: "xl_running_xacts \<Rightarrow> RunningTransactionsData" where
  "running_from_record xlrec =
     \<lparr>xcnt = xl_xcnt xlrec, subxcnt = xl_subxcnt xlrec,
      subxid_status = (if xl_subxid_overflow xlrec then SUBXIDS_MISSING else SUBXIDS_IN_ARRAY),
      running_nextXid = xl_nextXid xlrec, oldestRunningXid = xl_oldestRunningXid xlrec,
      running_latestCompletedXid = xl_latestCompletedXid xlrec, running_xids = xl_xids xlrec\<rparr>"

definition redo_running_xacts ::
  "XactSlru \<Rightarrow> TransactionId \<Rightarrow> (TransactionId \<Rightarrow> bool) \<Rightarrow> compress_clock \<Rightarrow> xl_running_xacts
    \<Rightarrow> StandbyProcArray \<Rightarrow> TransamCache
    \<Rightarrow> standby_event list \<times> (standby_error + StandbyProcArray \<times> TransamCache) option" where
  "redo_running_xacts clog xmin is_prepared clock xlrec st c =
     (if standbyState st = STANDBY_DISABLED then ([], Some (Inr (st, c)))
      else ProcArrayApplyRecoveryInfo clog xmin is_prepared clock (running_from_record xlrec) st c)"

subsection \<open>What the loops compute\<close>

text \<open>A loop over the offsets of the array is a loop over its entries.\<close>

lemma fold_offsets:
  assumes "\<And>i acc. i < length xs \<Longrightarrow> f i acc = g (xs ! i) acc"
  shows "fold f [0 ..< length xs] acc = fold g xs acc"
proof -
  have "fold f [0 ..< k] acc = fold g (take k xs) acc" if "k \<le> length xs" for k
    using that by (induction k) (simp_all add: assms take_Suc_conv_app_nth)
  from this [of "length xs"] show ?thesis by simp
qed

lemma oldest_in_step:
  assumes "oldest_in b S m" and "S \<noteq> {}" and "x \<in> xid_window b"
  shows "oldest_in b (insert x S) (if TransactionIdPrecedes x m then x else m)"
proof -
  have m: "m \<in> xid_window b" "m \<in> S" "\<forall>y \<in> S. unat (m - b) \<le> unat (y - b)" "S \<subseteq> xid_window b"
    using assms(1,2) by (auto simp: oldest_in_def)
  show ?thesis
    using m assms(3) precedes_window [OF assms(3) m(1)] by (auto simp: oldest_in_def intro: order_trans less_imp_le)
qed

definition main_ids :: "ProcArrayStruct \<Rightarrow> TransactionId list" where
  "main_ids s = filter TransactionIdIsValid (map (\<lambda>q. p_xid (allProcs s q)) (pgprocnos s))"

definition cached_subxids :: "ProcArrayStruct \<Rightarrow> TransactionId list" where
  "cached_subxids s = concat (map (\<lambda>q. subxids (allProcs s q)) (pgprocnos s))"

definition uncached_subxids :: "ProcArrayStruct \<Rightarrow> bool" where
  "uncached_subxids s \<longleftrightarrow>
     (\<exists>q \<in> set (pgprocnos s). TransactionIdIsValid (p_xid (allProcs s q)) \<and> suboverflowed (allProcs s q))"

definition older_main :: "ProcArrayStruct \<Rightarrow> nat \<Rightarrow> TransactionId \<Rightarrow> TransactionId" where
  "older_main s q m =
     (let x = p_xid (allProcs s q)
      in if \<not> TransactionIdIsValid x then m else if TransactionIdPrecedes x m then x else m)"

lemma older_main_oldest:
  assumes "oldest_in b S m" and "S \<noteq> {}" and "set (filter TransactionIdIsValid (map (\<lambda>q. p_xid (allProcs s q)) qs)) \<subseteq> xid_window b"
  shows "oldest_in b (S \<union> set (filter TransactionIdIsValid (map (\<lambda>q. p_xid (allProcs s q)) qs))) (fold (older_main s) qs m)"
  using assms
proof (induction qs arbitrary: S m)
  case (Cons q qs)
  let ?x = "p_xid (allProcs s q)"
  show ?case
  proof (cases "TransactionIdIsValid ?x")
    case False
    then show ?thesis using Cons by (simp add: older_main_def Let_def)
  next
    case True
    then have "oldest_in b (insert ?x S) (older_main s q m)"
      using oldest_in_step [OF Cons.prems(1,2)] Cons.prems(3) by (simp add: older_main_def Let_def)
    from Cons.IH [OF this] show ?thesis using True Cons.prems(3) by simp
  qed
qed simp

lemma running_loop:
  assumes "pa_inv s"
  shows "fold (running_proc s) [0 ..< length (pgprocnos s)] (nxt, [], False)
    = (fold (older_main s) (pgprocnos s) nxt, main_ids s, uncached_subxids s)"
proof -
  define g where "g q acc = (case acc of (oldest, xids, overflowed) \<Rightarrow>
      if \<not> TransactionIdIsValid (p_xid (allProcs s q)) then acc
      else (older_main s q oldest, xids @ [p_xid (allProcs s q)], overflowed \<or> suboverflowed (allProcs s q)))"
    for q and acc :: "TransactionId \<times> TransactionId list \<times> bool"
  have "running_proc s i acc = g (pgprocnos s ! i) acc" if "i < length (pgprocnos s)" for i acc
    using assms that by (auto simp: running_proc_def g_def older_main_def pa_inv_def split_beta Let_def)
  then have e: "fold (running_proc s) [0 ..< length (pgprocnos s)] acc = fold g (pgprocnos s) acc" for acc
    by (rule fold_offsets)
  have "fold g qs (m, xs, ov) = (fold (older_main s) qs m,
      xs @ filter TransactionIdIsValid (map (\<lambda>q. p_xid (allProcs s q)) qs),
      ov \<or> (\<exists>q \<in> set qs. TransactionIdIsValid (p_xid (allProcs s q)) \<and> suboverflowed (allProcs s q)))" for qs m xs ov
    by (induction qs arbitrary: m xs ov) (auto simp: g_def older_main_def)
  then show ?thesis unfolding e by (simp add: main_ids_def uncached_subxids_def)
qed

lemma subxids_loop:
  assumes "pa_inv s"
  shows "fold (running_subxids s) [0 ..< length (pgprocnos s)] xs = xs @ cached_subxids s"
proof -
  have appends: "fold (\<lambda>q acc. acc @ f q) qs ys = ys @ concat (map f qs)" for f :: "nat \<Rightarrow> TransactionId list" and qs ys
    by (induction qs arbitrary: ys) simp_all
  have "running_subxids s i acc = (\<lambda>q acc. acc @ subxids (allProcs s q)) (pgprocnos s ! i) acc"
    if "i < length (pgprocnos s)" for i acc
    using assms that by (simp add: running_subxids_def pa_inv_def Let_def)
  then have "fold (running_subxids s) [0 ..< length (pgprocnos s)] xs = fold (\<lambda>q acc. acc @ subxids (allProcs s q)) (pgprocnos s) xs"
    by (rule fold_offsets)
  also have "\<dots> = xs @ concat (map (\<lambda>q. subxids (allProcs s q)) (pgprocnos s))"
    by (rule appends)
  finally show ?thesis by (simp add: cached_subxids_def)
qed

lemma running_record:
  assumes "pa_inv s"
  defines "r \<equiv> GetRunningTransactionData s"
  shows "running_xids r = main_ids s @ (if uncached_subxids s then [] else cached_subxids s)"
    and "xcnt r = length (main_ids s)" and "xcnt r + subxcnt r = length (running_xids r)"
    and "subxid_status r = (if uncached_subxids s then SUBXIDS_IN_SUBTRANS else SUBXIDS_IN_ARRAY)"
    and "running_nextXid r = next_xid s" and "running_latestCompletedXid r = last_completed s"
    and "next_xid s \<in> xid_window b \<Longrightarrow> set (main_ids s) \<subseteq> xid_window b \<Longrightarrow>
      oldest_in b (insert (next_xid s) (set (main_ids s))) (oldestRunningXid r)"
proof -
  let ?oldest = "fold (older_main s) (pgprocnos s) (next_xid s)"
  have o: "next_xid s \<in> xid_window b \<Longrightarrow> set (main_ids s) \<subseteq> xid_window b \<Longrightarrow> oldest_in b (insert (next_xid s) (set (main_ids s))) ?oldest"
    using older_main_oldest [OF oldest_in_single, of "next_xid s" b s "pgprocnos s"] by (simp add: main_ids_def)
  have r: "r = \<lparr>xcnt = length (main_ids s), subxcnt = (if uncached_subxids s then 0 else length (cached_subxids s)),
      subxid_status = (if uncached_subxids s then SUBXIDS_IN_SUBTRANS else SUBXIDS_IN_ARRAY),
      running_nextXid = next_xid s, oldestRunningXid = ?oldest, running_latestCompletedXid = last_completed s,
      running_xids = main_ids s @ (if uncached_subxids s then [] else cached_subxids s)\<rparr>"
    unfolding r_def GetRunningTransactionData_def Let_def next_xid_def [symmetric] running_loop [OF assms(1)] prod.case subxids_loop [OF assms(1)]
    by (simp add: last_completed_def)
  show "running_xids r = main_ids s @ (if uncached_subxids s then [] else cached_subxids s)"
    "xcnt r = length (main_ids s)" "xcnt r + subxcnt r = length (running_xids r)"
    "subxid_status r = (if uncached_subxids s then SUBXIDS_IN_SUBTRANS else SUBXIDS_IN_ARRAY)"
    "running_nextXid r = next_xid s" "running_latestCompletedXid r = last_completed s"
    "next_xid s \<in> xid_window b \<Longrightarrow> set (main_ids s) \<subseteq> xid_window b \<Longrightarrow>
      oldest_in b (insert (next_xid s) (set (main_ids s))) (oldestRunningXid r)"
    using o by (simp_all add: r)
qed

text \<open>In terms of the ids in progress.\<close>

lemma running_record_live:
  assumes "run_inv b live s"
  defines "r \<equiv> GetRunningTransactionData s"
  shows "set (main_ids s) \<subseteq> set (running_xids r)" and "set (running_xids r) \<subseteq> running_ids live s"
    and "\<not> uncached_subxids s \<Longrightarrow> set (running_xids r) = running_ids live s"
    and "oldest_in b (insert (next_xid s) (running_ids live s)) (oldestRunningXid r)"
proof -
  have inv: "pa_inv s" "next_xid s \<in> xid_window b" "\<And>q. q \<in> set (pgprocnos s) \<Longrightarrow> shows_live b (live q) (allProcs s q)"
    and asg: "running_ids live s \<subseteq> assigned_ids b s"
    using assms(1) by (simp_all add: run_inv_def)
  note rec = running_record [OF inv(1), folded r_def]
  have mains: "set (main_ids s) \<subseteq> running_ids live s"
    using run_inv_shown [OF assms(1)] by (auto simp: main_ids_def running_ids_def)
  have cached: "set (cached_subxids s) \<subseteq> running_ids live s"
    using inv(3) by (fastforce simp: cached_subxids_def running_ids_def shows_live_def)
  have main: "p_xid (allProcs s q) \<in> set (main_ids s) \<and> unat (p_xid (allProcs s q) - b) \<le> unat (x - b)
      \<and> (x = p_xid (allProcs s q) \<or> x \<in> set (subxids (allProcs s q)) \<or> uncached_subxids s)"
    if "q \<in> set (pgprocnos s)" "x \<in> live q" for q x
    using inv(3) [OF that(1)] that by (auto simp: shows_live_def main_ids_def uncached_subxids_def split: if_splits)
  show "set (main_ids s) \<subseteq> set (running_xids r)" by (simp add: rec(1))
  show sub: "set (running_xids r) \<subseteq> running_ids live s" using mains cached by (auto simp: rec(1))
  have "running_ids live s \<subseteq> set (running_xids r)" if "\<not> uncached_subxids s"
    using main that by (fastforce simp: running_ids_def rec(1) cached_subxids_def)
  with sub show "\<not> uncached_subxids s \<Longrightarrow> set (running_xids r) = running_ids live s" by blast
  have w: "running_ids live s \<subseteq> xid_window b" using asg by (auto simp: assigned_ids_def)
  have o: "oldest_in b (insert (next_xid s) (set (main_ids s))) (oldestRunningXid r)"
    using rec(7) [OF inv(2)] mains w by blast
  have "unat (oldestRunningXid r - b) \<le> unat (x - b)" if x: "x \<in> running_ids live s" for x
  proof -
    obtain q where q: "q \<in> set (pgprocnos s)" "x \<in> live q" using x by (auto simp: running_ids_def)
    then show ?thesis using main [OF q] oldest_inD [OF o, of "p_xid (allProcs s q)"] by (auto intro: order_trans)
  qed
  then show "oldest_in b (insert (next_xid s) (running_ids live s)) (oldestRunningXid r)"
    using o w mains unfolding oldest_in_def by auto
qed

lemma running_record_length:
  assumes "pa_inv s" and "\<forall>q \<in> set (pgprocnos s). length (subxids (allProcs s q)) \<le> PGPROC_MAX_CACHED_SUBXIDS"
  shows "length (running_xids (GetRunningTransactionData s)) \<le> TOTAL_MAX_CACHED_SUBXIDS (maxProcs s)"
proof -
  have "length (concat (map f qs)) \<le> c * length qs" if "\<forall>q \<in> set qs. length (f q) \<le> c"
    for f :: "nat \<Rightarrow> TransactionId list" and qs c
    using that by (induction qs) auto
  then have "length (cached_subxids s) \<le> PGPROC_MAX_CACHED_SUBXIDS * length (pgprocnos s)"
    using assms(2) by (simp add: cached_subxids_def)
  moreover have "length (main_ids s) \<le> length (pgprocnos s)"
    unfolding main_ids_def by (rule order_trans [OF length_filter_le]) simp
  ultimately have "length (running_xids (GetRunningTransactionData s)) \<le> (PGPROC_MAX_CACHED_SUBXIDS + 1) * length (pgprocnos s)"
    by (simp add: running_record(1) [OF assms(1)])
  also have "\<dots> \<le> (PGPROC_MAX_CACHED_SUBXIDS + 1) * maxProcs s"
    using assms(1) by (intro mult_le_mono2) (simp add: pa_inv_def)
  finally show ?thesis by (simp add: TOTAL_MAX_CACHED_SUBXIDS_def)
qed

lemma oldest_xid_loop:
  assumes "run_inv b live s"
  shows "fold (oldest_xid_proc s) [0 ..< length (pgprocnos s)] m = fold (older_main s) (pgprocnos s) m"
proof (rule fold_offsets)
  fix i acc assume i: "i < length (pgprocnos s)"
  let ?x = "p_xid (allProcs s (pgprocnos s ! i))"
  have "g_xids s ! i = ?x" using assms i by (simp add: run_inv_def pa_inv_def)
  moreover have "TransactionIdIsNormal ?x" if "TransactionIdIsValid ?x"
  proof -
    have "?x \<in> running_ids live s" using run_inv_shown [OF assms nth_mem [OF i] that] i by (auto simp: running_ids_def)
    then show ?thesis using assms window_normal by (auto simp: run_inv_def assigned_ids_def)
  qed
  moreover have "\<not> TransactionIdIsNormal ?x" if "\<not> TransactionIdIsValid ?x" using that normal_valid by blast
  ultimately show "oldest_xid_proc s i acc = older_main s (pgprocnos s ! i) acc"
    by (auto simp: oldest_xid_proc_def older_main_def Let_def)
qed

lemma running_main_oldest:
  assumes "run_inv b live s" and "oldest_in b S m" and "S \<noteq> {}"
  shows "oldest_in b (S \<union> running_ids live s) (fold (older_main s) (pgprocnos s) m)"
proof -
  let ?m = "fold (older_main s) (pgprocnos s) m"
  have w: "set (main_ids s) \<subseteq> running_ids live s" "running_ids live s \<subseteq> xid_window b"
    using run_inv_shown [OF assms(1)] assms(1) by (auto simp: main_ids_def running_ids_def run_inv_def assigned_ids_def)
  then have "oldest_in b (S \<union> set (main_ids s)) ?m"
    using older_main_oldest [OF assms(2,3)] by (auto simp: main_ids_def)
  then have o: "S \<subseteq> xid_window b" "?m \<in> S \<union> set (main_ids s)" "\<And>y. y \<in> S \<union> set (main_ids s) \<Longrightarrow> unat (?m - b) \<le> unat (y - b)"
    using assms(3) by (auto simp: oldest_in_def)
  have "unat (?m - b) \<le> unat (x - b)" if x: "x \<in> running_ids live s" for x
  proof -
    obtain q where q: "q \<in> set (pgprocnos s)" "x \<in> live q" using x by (auto simp: running_ids_def)
    have "shows_live b (live q) (allProcs s q)" using assms(1) q(1) by (simp add: run_inv_def)
    then have y: "TransactionIdIsValid (p_xid (allProcs s q))" "unat (p_xid (allProcs s q) - b) \<le> unat (x - b)"
      using q(2) by (auto simp: shows_live_def split: if_splits)
    then have "p_xid (allProcs s q) \<in> set (main_ids s)" using q(1) by (simp add: main_ids_def)
    then show ?thesis using o(3) y(2) by (meson UnI2 order_trans)
  qed
  then show ?thesis using o w assms(3) by (auto simp: oldest_in_def)
qed

text \<open>
  C23: in every reachable state, the oldest active id that checkpoints record is the oldest of all ids
  in progress - of subtransactions too, although only main ids are looked at - or the next id if there
  is none; the record for standbys has the same one. The oldest id that is safe for decoding is the oldest of
  these and of the horizons of the replication slots (that for catalogs, if only catalogs are
  decoded).
\<close>

theorem GetOldestActiveTransactionId_oldest:
  assumes "run_start b st0" and "(run_step b)\<^sup>*\<^sup>* st0 (live, s)"
    and "valid_id (replication_slot_xmin s) \<union> valid_id (replication_slot_catalog_xmin s) \<subseteq> xid_window b"
  shows "oldest_in b (insert (next_xid s) (running_ids live s)) (GetOldestActiveTransactionId s)
    \<and> oldestRunningXid (GetRunningTransactionData s) = GetOldestActiveTransactionId s
    \<and> oldest_in b (insert (next_xid s) (running_ids live s) \<union> valid_id (replication_slot_xmin s)
          \<union> (if catalogOnly then valid_id (replication_slot_catalog_xmin s) else {}))
        (GetOldestSafeDecodingTransactionId False catalogOnly s)"
proof -
  have inv: "run_inv b live s" using run_reachable_inv [OF assms(1,2)] .
  then have pa: "pa_inv s" and n: "oldest_in b {next_xid s} (next_xid s)" by (simp_all add: run_inv_def oldest_in_single)
  have add: "oldest_in b (S \<union> valid_id x) (if TransactionIdIsValid x \<and> TransactionIdPrecedes x m then x else m)"
    if "oldest_in b S m" "S \<noteq> {}" "valid_id x \<subseteq> xid_window b" for S m x
    using that oldest_in_step [OF that(1,2), of x] by (auto simp: valid_id_def)
  define m1 where "m1 = (if TransactionIdIsValid (replication_slot_xmin s) \<and> TransactionIdPrecedes (replication_slot_xmin s) (next_xid s)
      then replication_slot_xmin s else next_xid s)"
  define m2 where "m2 = (if catalogOnly \<and> TransactionIdIsValid (replication_slot_catalog_xmin s)
        \<and> TransactionIdPrecedes (replication_slot_catalog_xmin s) m1 then replication_slot_catalog_xmin s else m1)"
  have m1: "oldest_in b ({next_xid s} \<union> valid_id (replication_slot_xmin s)) m1"
    unfolding m1_def using add [OF n] assms(3) by simp
  have m2: "oldest_in b ({next_xid s} \<union> valid_id (replication_slot_xmin s)
      \<union> (if catalogOnly then valid_id (replication_slot_catalog_xmin s) else {})) m2"
    unfolding m2_def using add [OF m1, of "replication_slot_catalog_xmin s"] m1 assms(3) by (cases catalogOnly) simp_all
  have d: "GetOldestSafeDecodingTransactionId False catalogOnly s = fold (older_main s) (pgprocnos s) m2"
    unfolding GetOldestSafeDecodingTransactionId_def Let_def next_xid_def [symmetric] m1_def [symmetric] m2_def [symmetric]
      oldest_xid_loop [OF inv] by simp
  have a: "GetOldestActiveTransactionId s = fold (older_main s) (pgprocnos s) (next_xid s)"
    unfolding GetOldestActiveTransactionId_def oldest_xid_loop [OF inv] by (simp add: next_xid_def)
  have r: "oldestRunningXid (GetRunningTransactionData s) = fold (older_main s) (pgprocnos s) (next_xid s)"
    by (simp add: GetRunningTransactionData_def Let_def next_xid_def [symmetric] running_loop [OF pa])
  have "oldest_in b (insert (next_xid s) (running_ids live s)) (GetOldestActiveTransactionId s)"
    using running_main_oldest [OF inv n] by (simp add: a)
  moreover have "insert (next_xid s) (running_ids live s) \<union> V \<union> C = ({next_xid s} \<union> V \<union> C) \<union> running_ids live s" for V C by blast
  ultimately show ?thesis using running_main_oldest [OF inv m2] by (simp only: a r d) simp
qed

subsection \<open>Starting a standby\<close>

text \<open>
  A standby that waits for its first record: initialised, with an empty array that has room for the
  ids of the primary, and with nothing observed beyond the record. \<open>completed\<close> are the
  transactions whose end it has replayed already.
\<close>

definition standby_waits :: "TransactionId \<Rightarrow> ProcArrayStruct \<Rightarrow> StandbyProcArray \<Rightarrow> bool" where
  "standby_waits b s st \<longleftrightarrow> standbyState st = STANDBY_INITIALIZED \<and> ka_inv b (known st) \<and> ka_list (known st) = []
     \<and> TOTAL_MAX_CACHED_SUBXIDS (maxProcs s) \<le> maxKnownAssignedXids (known st) \<and> subtrans_ok (subtrans st)
     \<and> latestObservedXid st \<in> assigned_ids b s"

definition completed :: "XactSlru \<Rightarrow> StandbyProcArray \<Rightarrow> TransactionId \<Rightarrow> TransactionId set" where
  "completed clog st xmin = {x. did_commit clog (subtrans st) xmin x \<or> did_abort clog (subtrans st) xmin x}"

lemma observed_assigned:
  assumes "next_xid s \<in> xid_window b" and "latestObservedXid st' = TransactionIdRetreat (next_xid s)" and "y \<in> assigned_ids b s"
  shows "observed b st' = assigned_ids b s" and "latestObservedXid st' \<in> xid_window b"
proof -
  have y: "y \<in> xid_window b" "unat (y - b) < unat (next_xid s - b)" using assms(3) by (simp_all add: assigned_ids_def)
  note r = window_retreat [OF assms(1)]
  show "latestObservedXid st' \<in> xid_window b" using r [OF y] assms(2) by simp
  have "unat (x - b) \<le> unat (TransactionIdRetreat (next_xid s) - b) \<longleftrightarrow> unat (x - b) < unat (next_xid s - b)"
    if "x \<in> xid_window b" for x
    using r [OF y] r [OF that] by linarith
  then show "observed b st' = assigned_ids b s" by (auto simp: observed_def assigned_ids_def assms(2))
qed

text \<open>What the standby reads is the record of the primary, but that missing subtransactions are not to be found in the log.\<close>

lemma logged_record:
  assumes "run_inv b live s"
  shows "running_from_record (LogCurrentRunningXacts (GetRunningTransactionData s)) =
    (GetRunningTransactionData s)\<lparr>subxid_status := (if uncached_subxids s then SUBXIDS_MISSING else SUBXIDS_IN_ARRAY)\<rparr>"
proof -
  let ?r = "GetRunningTransactionData s"
  have pa: "pa_inv s" using assms by (simp add: run_inv_def)
  note rec = running_record [OF pa]
  have "running_xids ?r = []" if "xcnt ?r = 0"
  proof -
    have none: "main_ids s = []" using that rec(2) by simp
    have "live q = {}" if q: "q \<in> set (pgprocnos s)" for q
    proof -
      have "\<not> TransactionIdIsValid (p_xid (allProcs s q))" using none q by (auto simp: main_ids_def filter_empty_conv)
      moreover have "shows_live b (live q) (allProcs s q)" using assms q by (simp add: run_inv_def)
      ultimately show ?thesis by (auto simp: shows_live_def split: if_splits)
    qed
    then show ?thesis using running_record_live(2) [OF assms] by (auto simp: running_ids_def)
  qed
  then show ?thesis using rec(3,4) by (auto simp: running_from_record_def LogCurrentRunningXacts_def)
qed

lemma standby_from_record:
  assumes inv: "run_inv b live s" and st: "standby_waits b s st" and "TransactionIdIsNormal xmin" and "cache_ok clog c"
    and sm: "\<forall>q \<in> set (pgprocnos s). length (subxids (allProcs s q)) \<le> PGPROC_MAX_CACHED_SUBXIDS"
  defines "r \<equiv> GetRunningTransactionData s"
  shows "\<exists>st' c'. redo_running_xacts clog xmin is_prepared clock (LogCurrentRunningXacts r) st c
      = ([StandbyReleaseOldLocks (oldestRunningXid r)], Some (Inr (st', c')))
    \<and> standby_inv b st' \<and> observed b st' = assigned_ids b s
    \<and> running st' = set (running_xids r) - completed clog st xmin
    \<and> (if uncached_subxids s
       then standbyState st' = STANDBY_SNAPSHOT_PENDING \<and> standbySnapshotPendingXmin st' = latestObservedXid st'
         \<and> lastOverflowedXid st' = latestObservedXid st'
       else standbyState st' = STANDBY_SNAPSHOT_READY \<and> lastOverflowedXid st' = InvalidTransactionId)
    \<and> (\<forall>x. SubTransGetParent (subtrans st') x \<in> {SubTransGetParent (subtrans st) x, InvalidTransactionId})"
proof -
  have pa: "pa_inv s" and n: "next_xid s \<in> xid_window b" and run: "running_ids live s \<subseteq> assigned_ids b s"
    using inv by (simp_all add: run_inv_def)
  have w: "standbyState st = STANDBY_INITIALIZED" "ka_inv b (known st)" "ka_list (known st) = []" "subtrans_ok (subtrans st)"
    "TOTAL_MAX_CACHED_SUBXIDS (maxProcs s) \<le> maxKnownAssignedXids (known st)" and o: "latestObservedXid st \<in> assigned_ids b s"
    using st by (simp_all add: standby_waits_def)
  note rec = running_record [OF pa, folded r_def] and lv = running_record_live [OF inv, folded r_def]
  define d where "d = running_from_record (LogCurrentRunningXacts r)"
  have d: "xcnt d + subxcnt d = length (running_xids r)" "running_xids d = running_xids r" "running_nextXid d = next_xid s"
    "oldestRunningXid d = oldestRunningXid r" "subxid_status d = (if uncached_subxids s then SUBXIDS_MISSING else SUBXIDS_IN_ARRAY)"
    using rec(3,5) logged_record [OF inv] by (simp_all add: d_def r_def)
  have ids: "set (running_xids r) \<subseteq> assigned_ids b s" using lv(2) run by blast
  have all: "take (xcnt d + subxcnt d) (running_xids d) = running_xids r" by (simp add: d(1,2))
  have still: "still_running clog xmin d st = set (running_xids r) - completed clog st xmin"
    by (auto simp: still_running_def all completed_def)
  have "card (still_running clog xmin d st) \<le> card (set (running_xids r))" unfolding still by (rule card_mono) auto
  also have "\<dots> \<le> maxKnownAssignedXids (known st)"
    using card_length [of "running_xids r"] running_record_length [OF pa sm, folded r_def] w(5) by linarith
  finally have card: "card (still_running clog xmin d st) \<le> maxKnownAssignedXids (known st)" .
  have old: "oldestRunningXid d \<in> xid_window b" using lv(4) n by (auto simp: d(4) oldest_in_def)
  have lt: "set (running_xids r) \<subseteq> xid_window b" "\<forall>x \<in> still_running clog xmin d st. unat (x - b) < unat (running_nextXid d - b)"
    "latestObservedXid st \<in> xid_window b" "unat (latestObservedXid st - b) < unat (running_nextXid d - b)"
    using ids o by (auto simp: still assigned_ids_def d(3))
  obtain st' c' where a: "ProcArrayApplyRecoveryInfo clog xmin is_prepared clock d st c
      = ([StandbyReleaseOldLocks (oldestRunningXid d)], Some (Inr (st', c')))"
    "standby_inv b st'" "running st' = still_running clog xmin d st"
    "latestObservedXid st' = TransactionIdRetreat (running_nextXid d)"
    "standbyState st' = (if subxid_status d = SUBXIDS_MISSING then STANDBY_SNAPSHOT_PENDING else STANDBY_SNAPSHOT_READY)"
    "lastOverflowedXid st' = (if subxid_status d = SUBXIDS_IN_ARRAY then InvalidTransactionId else latestObservedXid st')"
    "standbySnapshotPendingXmin st' = (if subxid_status d = SUBXIDS_MISSING then latestObservedXid st' else InvalidTransactionId)"
    "\<forall>x. SubTransGetParent (subtrans st') x \<in> {SubTransGetParent (subtrans st) x, InvalidTransactionId}"
    using recovery_info_builds [OF w(1-3) assms(3) w(4) assms(4), of d] lt(1) old n lt(2-4) card unfolding all d(3) by blast
  have "redo_running_xacts clog xmin is_prepared clock (LogCurrentRunningXacts r) st c
      = ([StandbyReleaseOldLocks (oldestRunningXid r)], Some (Inr (st', c')))"
    using a(1) w(1) d(4) by (simp add: redo_running_xacts_def d_def)
  moreover have "observed b st' = assigned_ids b s" using observed_assigned(1) [OF n a(4) [unfolded d(3)] o] .
  ultimately show ?thesis using a(2,3,5-8) still d(5) by auto
qed

text \<open>A later record of running transactions is the operation \<open>PruneBefore\<close> on a standby that is ready.\<close>

lemma redo_ready_prunes:
  assumes "standbyState st = STANDBY_SNAPSHOT_READY"
  shows "\<exists>st'. standby_apply is_prepared clock (PruneBefore (xl_oldestRunningXid xlrec)) st = Inr st'
    \<and> standbyState st' = STANDBY_SNAPSHOT_READY
    \<and> redo_running_xacts clog xmin is_prepared clock xlrec st c
      = ([StandbyReleaseOldLocks (xl_oldestRunningXid xlrec)], Some (Inr (st', c)))"
  using assms by (simp add: redo_running_xacts_def running_from_record_def ProcArrayApplyRecoveryInfo_def
      ExpireOldKnownAssignedTransactionIds_def Let_def)


text \<open>
  C1: whatever runs on the primary is in progress for the standby. Take any transaction in progress on
  the primary, in any state it can reach in which the array holds all subtransactions, and
  whose end the standby has not replayed. The standby starts from the record that the primary then logs, and
  replays any records after it that leave the transaction running: new ids, ends of other
  transactions, assignments of subtransactions (which it drops from its array), and
  further records that prune the array. Every snapshot one of its backends then takes, with the
  standby's own log of subtransactions, shows each id of that transaction as in
  progress. The log the standby begins with may link the subtransactions to their main id already, but to no
  other transaction.
\<close>

theorem primary_running_in_standby_snapshot:
  assumes "run_start b st0" and "(run_step b)\<^sup>*\<^sup>* st0 (live, s)" and "standby_waits b s st"
    and "TransactionIdIsNormal xmin" and "cache_ok clog c"
    and "\<forall>q \<in> set (pgprocnos s). length (subxids (allProcs s q)) \<le> PGPROC_MAX_CACHED_SUBXIDS" and "\<not> uncached_subxids s"
    and "snd (redo_running_xacts clog xmin is_prepared clock (LogCurrentRunningXacts (GetRunningTransactionData s)) st c)
      = Some (Inr (st1, c'))"
    and "q \<in> set (pgprocnos s)" and "x \<in> live q" and "live q \<inter> completed clog st xmin = {}" and "m = p_xid (allProcs s q)"
    and "SubTransGetParent (subtrans st) m = InvalidTransactionId"
    and "SubTransGetParent (subtrans st) x \<in> {InvalidTransactionId, m}"
    and "\<forall>p \<in> set ops. op_ids p \<subseteq> xid_window b \<and> keeps_running b m x p"
    and "run_ops (standby_apply is_prepared clock') ops st1 = Inr st'"
    and "standby_view st' t" and "pa_inv t" and "MyProcNo be \<in> set (pgprocnos t)" and "next_completed t \<in> xid_window b"
    and "GetSnapshotDataReuse cid old sn0 t be = None" and "GetSnapshotData True cid old sn0 t be = (sn, t', be', ev)"
    and "txmin \<in> xid_window b" and "TransactionIdPrecedesOrEquals txmin m"
  shows "standbyState st1 = STANDBY_SNAPSHOT_READY \<and> XidInMVCCSnapshot (subtrans st') txmin x sn = Some (Inr True)"
proof -
  have inv: "run_inv b live s" using run_reachable_inv [OF assms(1,2)] .
  let ?r = "GetRunningTransactionData s"
  have st1: "standby_inv b st1" "observed b st1 = assigned_ids b s" "running st1 = running_ids live s - completed clog st xmin"
    "standbyState st1 = STANDBY_SNAPSHOT_READY" "lastOverflowedXid st1 = InvalidTransactionId"
    "\<And>y. SubTransGetParent (subtrans st1) y \<in> {SubTransGetParent (subtrans st) y, InvalidTransactionId}"
    using standby_from_record [OF inv assms(3-6), of is_prepared clock] running_record_live(3) [OF inv assms(7)] assms(7,8) by auto
  have sh: "shows_live b (live q) (allProcs s q)" and xa: "x \<in> assigned_ids b s"
    using inv assms(9,10) by (auto simp: run_inv_def running_ids_def)
  have m: "m \<in> live q" "unat (m - b) \<le> unat (x - b)" using sh assms(10,12) by (auto simp: shows_live_def split: if_splits)
  have "m \<in> running st1" "x \<in> running st1" using m(1) assms(9-11) by (auto simp: st1(3) running_ids_def)
  then have "tracked b st1 m x" using m(2) xa st1(2) st1(6) [of m] st1(6) [of x] assms(13,14) by (auto simp: tracked_def)
  moreover have "overflow_ok b st1" by (simp add: overflow_ok_def st1(5))
  ultimately show ?thesis using tracked_in_snapshot [OF st1(1) _ _ assms(15-24)] st1(4) by blast
qed

subsection \<open>Witnesses\<close>

lemma run_slots: "replication_slot_xmin run_assigned = InvalidTransactionId" "replication_slot_catalog_xmin run_assigned = InvalidTransactionId"
  by (simp_all add: run_assigned_def run_defs InvalidTransactionId_def)

lemma run_next: "next_xid run_assigned = 11"
  by (simp add: next_xid_def run_assigned_def run_defs XidFromFullTransactionId_def)

theorem GetOldestActiveTransactionId_oldest_witness:
  "oldest_in 9 {11, 10} (GetOldestActiveTransactionId run_assigned)
    \<and> oldest_in 9 {11, 10} (GetOldestSafeDecodingTransactionId False True run_assigned)"
  using GetOldestActiveTransactionId_oldest [OF run_start_sample run_reaches, of True]
  by (simp add: run_slots run_next run_id_sets)

definition waiting_standby :: StandbyProcArray where
  "waiting_standby = sample_standby\<lparr>known := (KnownAssignedXidsReset sample_kax)\<lparr>maxKnownAssignedXids := 130\<rparr>,
     latestObservedXid := 9, standbyState := STANDBY_INITIALIZED\<rparr>"

lemma waiting_standby_waits: "standby_waits 9 run_assigned waiting_standby"
proof -
  have "ka_inv 9 ((KnownAssignedXidsReset sample_kax)\<lparr>maxKnownAssignedXids := 130\<rparr>)"
    by (simp add: ka_inv_defs ka_entries_def ka_list_def KnownAssignedXidsReset_def)
  moreover have "maxProcs run_assigned = 2" by (simp add: run_assigned_def run_defs)
  moreover have "9 \<in> assigned_ids 9 run_assigned" using run_window by (simp add: run_id_sets)
  ultimately show ?thesis
    by (simp add: standby_waits_def waiting_standby_def sample_standby_def ka_list_def KnownAssignedXidsReset_def
        TOTAL_MAX_CACHED_SUBXIDS_def PGPROC_MAX_CACHED_SUBXIDS_def subtrans_ok_def TransactionIdIsValid_def)
qed

lemma run_caches: "\<forall>q \<in> set (pgprocnos run_assigned). length (subxids (allProcs run_assigned q)) \<le> PGPROC_MAX_CACHED_SUBXIDS"
  by (simp add: run_procs) (simp add: run_assigned_def run_defs PGPROC_MAX_CACHED_SUBXIDS_def)

lemma nine_normal: "TransactionIdIsNormal 9"
  by (simp add: TransactionIdIsNormal_def FirstNormalTransactionId_def)

lemma run_cached: "\<not> uncached_subxids run_assigned"
  by (simp add: uncached_subxids_def run_procs) (simp add: run_assigned_def run_defs)


lemma run_not_completed: "run_live 5 \<inter> completed zero_clog waiting_standby 9 = {}"
proof -
  have "\<not> did_commit zero_clog zero_subtrans 9 10"
    using run_window(2)
    by (simp add: did_commit_iff [of _ _ _ 10] true_status_window TransactionIdGetStatus_def zero_clog_def status_defs Let_def)
  then show ?thesis
    using zero_not_aborted [OF run_window(2)]
    by (simp add: run_live_def completed_def waiting_standby_def sample_standby_def)
qed

theorem primary_running_in_standby_snapshot_witness:
  "\<exists>st1 c' st'. snd (redo_running_xacts zero_clog 9 (\<lambda>_. False) (0, 0)
       (LogCurrentRunningXacts (GetRunningTransactionData run_assigned)) waiting_standby empty_cache) = Some (Inr (st1, c'))
    \<and> run_ops (standby_apply (\<lambda>_. False) (0, 0)) [EndTree 9 [] 9, PruneBefore 10, Idle] st1 = Inr st'
    \<and> XidInMVCCSnapshot (subtrans st') 9 10
        (fst (GetSnapshotData True 0 None sample_snapshot (shared_array (pa_shared run_assigned) st') sample_vis)) = Some (Inr True)"
proof -
  let ?ops = "[EndTree 9 [] 9, PruneBefore 10, Idle]"
  have inv: "run_inv 9 run_live run_assigned" using run_reachable_inv [OF run_start_sample run_reaches] .
  obtain st1 c' where a: "snd (redo_running_xacts zero_clog 9 (\<lambda>_. False) (0, 0)
      (LogCurrentRunningXacts (GetRunningTransactionData run_assigned)) waiting_standby empty_cache) = Some (Inr (st1, c'))"
    using standby_from_record [OF inv waiting_standby_waits nine_normal cache_ok_empty run_caches, of zero_clog "\<lambda>_. False" "(0, 0)"]
    by auto
  obtain st' where st': "run_ops (standby_apply (\<lambda>_. False) (0, 0)) ?ops st1 = Inr st'" by simp
  let ?t = "shared_array (pa_shared run_assigned) st'"
  have "next_completed ?t = next_completed run_assigned" by (simp add: next_completed_def shared_array_def)
  then have n: "next_completed ?t \<in> xid_window 9" using next_completed_window(1) [OF inv] by simp
  obtain sn s' be' ev where g: "GetSnapshotData True 0 None sample_snapshot ?t sample_vis = (sn, s', be', ev)"
    by (metis prod.exhaust)
  have x: "5 \<in> set (pgprocnos run_assigned)" "10 \<in> run_live 5" by (simp_all add: run_procs run_live_def)
  have m: "10 = p_xid (allProcs run_assigned 5)" by (simp add: run_assigned_def run_defs)
  have p: "SubTransGetParent (subtrans waiting_standby) y = InvalidTransactionId" for y
    by (simp add: waiting_standby_def sample_standby_def)
  have ops: "\<forall>p \<in> set ?ops. op_ids p \<subseteq> xid_window 9 \<and> keeps_running 9 10 10 p" using run_window by simp
  have tx: "TransactionIdPrecedesOrEquals 9 10" using precedes_or_equals_window [OF run_window(1,2)] by simp
  have "XidInMVCCSnapshot (subtrans st') 9 10 sn = Some (Inr True)"
    using primary_running_in_standby_snapshot [OF run_start_sample run_reaches waiting_standby_waits nine_normal
          cache_ok_empty run_caches run_cached a x run_not_completed m p _ ops st' shared_array_ok n sample_fresh g run_window(1) tx]
    by (simp add: p)
  then show ?thesis using a st' g by auto
qed

end
