(* ===== verification/MultiXact.thy ===== *)
theory MultiXact
  imports VarSup
begin

section \<open>Multixacts\<close>

text \<open>
  \<open>src/backend/access/transam/multixact.c\<close>: a multixact id stands for a set of transactions that
  lock or update the same row. The start of each multixact in the members log is kept in the
  offsets log; a multixact ends where the next one starts. Members are stored in groups of four:
  a word with one byte of flags per member, then the four ids. A page of the members log is a
  function from byte offsets of aligned words to their values. As for the other logs, slots are
  identified with page numbers. The shared state is one record; each backend has a cache of
  the multixacts it has seen. What other backends do while \<open>MultiXactGenLock\<close> is released is the
  function \<open>others\<close>.
\<close>

subsection \<open>Ids, members and pages\<close>

type_synonym MultiXactId = uint32
type_synonym MultiXactOffset = uint32
type_synonym MultiXactStatus = uint32

definition InvalidMultiXactId :: MultiXactId where
  "InvalidMultiXactId = 0"

definition FirstMultiXactId :: MultiXactId where
  "FirstMultiXactId = 1"

definition MaxMultiXactId :: MultiXactId where
  "MaxMultiXactId = 0xFFFFFFFF"

definition MaxMultiXactOffset :: MultiXactOffset where
  "MaxMultiXactOffset = 0xFFFFFFFF"

definition MultiXactIdIsValid :: "MultiXactId \<Rightarrow> bool" where
  "MultiXactIdIsValid multi \<longleftrightarrow> multi \<noteq> InvalidMultiXactId"

definition MultiXactStatusForKeyShare :: MultiXactStatus where
  "MultiXactStatusForKeyShare = 0x00"

definition MultiXactStatusForShare :: MultiXactStatus where
  "MultiXactStatusForShare = 0x01"

definition MultiXactStatusForNoKeyUpdate :: MultiXactStatus where
  "MultiXactStatusForNoKeyUpdate = 0x02"

definition MultiXactStatusForUpdate :: MultiXactStatus where
  "MultiXactStatusForUpdate = 0x03"

definition MultiXactStatusNoKeyUpdate :: MultiXactStatus where
  "MultiXactStatusNoKeyUpdate = 0x04"

definition MultiXactStatusUpdate :: MultiXactStatus where
  "MultiXactStatusUpdate = 0x05"

definition ISUPDATE_from_mxstatus :: "MultiXactStatus \<Rightarrow> bool" where
  "ISUPDATE_from_mxstatus status \<longleftrightarrow> status > MultiXactStatusForUpdate"

record MultiXactMember =
  mem_xid :: TransactionId
  mem_status :: MultiXactStatus

definition MULTIXACT_OFFSETS_PER_PAGE :: nat where
  "MULTIXACT_OFFSETS_PER_PAGE = BLCKSZ div 4"

definition MultiXactIdToOffsetPage :: "MultiXactId \<Rightarrow> nat" where
  "MultiXactIdToOffsetPage xid = unat xid div MULTIXACT_OFFSETS_PER_PAGE"

definition MultiXactIdToOffsetEntry :: "MultiXactId \<Rightarrow> nat" where
  "MultiXactIdToOffsetEntry xid = unat xid mod MULTIXACT_OFFSETS_PER_PAGE"

definition MXACT_MEMBER_BITS_PER_XACT :: nat where
  "MXACT_MEMBER_BITS_PER_XACT = 8"

definition MXACT_MEMBER_XACT_BITMASK :: uint32 where
  "MXACT_MEMBER_XACT_BITMASK = push_bit MXACT_MEMBER_BITS_PER_XACT 1 - 1"

definition MULTIXACT_FLAGBYTES_PER_GROUP :: nat where
  "MULTIXACT_FLAGBYTES_PER_GROUP = 4"

definition MULTIXACT_MEMBERS_PER_MEMBERGROUP :: nat where
  "MULTIXACT_MEMBERS_PER_MEMBERGROUP = MULTIXACT_FLAGBYTES_PER_GROUP * 1"

definition MULTIXACT_MEMBERGROUP_SIZE :: nat where
  "MULTIXACT_MEMBERGROUP_SIZE = 4 * MULTIXACT_MEMBERS_PER_MEMBERGROUP + MULTIXACT_FLAGBYTES_PER_GROUP"

definition MULTIXACT_MEMBERGROUPS_PER_PAGE :: nat where
  "MULTIXACT_MEMBERGROUPS_PER_PAGE = BLCKSZ div MULTIXACT_MEMBERGROUP_SIZE"

definition MULTIXACT_MEMBERS_PER_PAGE :: nat where
  "MULTIXACT_MEMBERS_PER_PAGE = MULTIXACT_MEMBERGROUPS_PER_PAGE * MULTIXACT_MEMBERS_PER_MEMBERGROUP"

definition MAX_MEMBERS_IN_LAST_MEMBERS_PAGE :: uint32 where
  "MAX_MEMBERS_IN_LAST_MEMBERS_PAGE = 0xFFFFFFFF mod of_nat MULTIXACT_MEMBERS_PER_PAGE + 1"

definition MXOffsetToMemberPage :: "MultiXactOffset \<Rightarrow> nat" where
  "MXOffsetToMemberPage off = unat off div MULTIXACT_MEMBERS_PER_PAGE"

definition MXOffsetToFlagsOffset :: "MultiXactOffset \<Rightarrow> nat" where
  "MXOffsetToFlagsOffset off =
     unat off div MULTIXACT_MEMBERS_PER_MEMBERGROUP mod MULTIXACT_MEMBERGROUPS_PER_PAGE * MULTIXACT_MEMBERGROUP_SIZE"

definition MXOffsetToFlagsBitShift :: "MultiXactOffset \<Rightarrow> nat" where
  "MXOffsetToFlagsBitShift off = unat off mod MULTIXACT_MEMBERS_PER_MEMBERGROUP * MXACT_MEMBER_BITS_PER_XACT"

definition MXOffsetToMemberOffset :: "MultiXactOffset \<Rightarrow> nat" where
  "MXOffsetToMemberOffset off =
     MXOffsetToFlagsOffset off + MULTIXACT_FLAGBYTES_PER_GROUP + unat off mod MULTIXACT_MEMBERS_PER_MEMBERGROUP * 4"

definition MULTIXACT_MEMBER_SAFE_THRESHOLD :: MultiXactOffset where
  "MULTIXACT_MEMBER_SAFE_THRESHOLD = MaxMultiXactOffset div 2"

definition SLRU_PAGES_PER_SEGMENT :: nat where
  "SLRU_PAGES_PER_SEGMENT = 32"

subsection \<open>State\<close>

record MultiXactSlru =
  mxo_buffer :: "nat \<Rightarrow> nat \<Rightarrow> MultiXactOffset"
  mxo_dirty :: "nat \<Rightarrow> bool"
  mxo_latest_page :: nat
  mxm_buffer :: "nat \<Rightarrow> nat \<Rightarrow> uint32"
  mxm_dirty :: "nat \<Rightarrow> bool"
  mxm_latest_page :: nat

record MultiXactStateData =
  nextMXact :: MultiXactId
  nextOffset :: MultiXactOffset
  finishedStartup :: bool
  oldestMultiXactId :: MultiXactId
  oldestMultiXactDB :: Oid
  oldestOffset :: MultiXactOffset
  oldestOffsetKnown :: bool
  multiVacLimit :: MultiXactId
  multiWarnLimit :: MultiXactId
  multiStopLimit :: MultiXactId
  multiWrapLimit :: MultiXactId
  offsetStopLimit :: MultiXactOffset
  OldestMemberMXactId :: "nat \<Rightarrow> MultiXactId"
  OldestVisibleMXactId :: "nat \<Rightarrow> MultiXactId"
  MaxOldestSlot :: nat
  mx_slru :: MultiXactSlru

text \<open>The cache of a backend, the most recently used entry first, with the members of each entry sorted.\<close>

type_synonym MXactCache = "(MultiXactId \<times> MultiXactMember list) list"

definition MAX_CACHE_ENTRIES :: nat where
  "MAX_CACHE_ENTRIES = 256"

datatype multixact_error = MultiXactsInRecovery | MultiXactStop Oid | MembersLimitExceeded Oid | TwoUpdatingMembers
  | MultiXactTooOld MultiXactId | MultiXactTooNew MultiXactId | InvalidAllocRequest int

datatype multixact_record = XLOG_MULTIXACT_ZERO_OFF_PAGE nat | XLOG_MULTIXACT_ZERO_MEM_PAGE nat
  | XLOG_MULTIXACT_CREATE_ID MultiXactId MultiXactOffset "MultiXactMember list"
  | XLOG_MULTIXACT_TRUNCATE_ID Oid MultiXactId MultiXactId MultiXactOffset MultiXactOffset

datatype multixact_event = MxStartAutovacLauncher | MultiXactWarning Oid uint32 | MembersWarning Oid uint32
  | MxInsert multixact_record

subsection \<open>Comparing\<close>

definition MultiXactIdPrecedes :: "MultiXactId \<Rightarrow> MultiXactId \<Rightarrow> bool" where
  "MultiXactIdPrecedes multi1 multi2 \<longleftrightarrow> sint (multi1 - multi2) < 0"

definition MultiXactIdPrecedesOrEquals :: "MultiXactId \<Rightarrow> MultiXactId \<Rightarrow> bool" where
  "MultiXactIdPrecedesOrEquals multi1 multi2 \<longleftrightarrow> sint (multi1 - multi2) \<le> 0"

definition MultiXactOffsetPrecedes :: "MultiXactOffset \<Rightarrow> MultiXactOffset \<Rightarrow> bool" where
  "MultiXactOffsetPrecedes offset1 offset2 \<longleftrightarrow> sint (offset1 - offset2) < 0"

definition MultiXactOffsetPagePrecedes :: "nat \<Rightarrow> nat \<Rightarrow> bool" where
  "MultiXactOffsetPagePrecedes page1 page2 =
     (let multi1 = of_nat page1 * of_nat MULTIXACT_OFFSETS_PER_PAGE + (FirstMultiXactId + 1);
          multi2 = of_nat page2 * of_nat MULTIXACT_OFFSETS_PER_PAGE + (FirstMultiXactId + 1)
      in MultiXactIdPrecedes multi1 multi2
         \<and> MultiXactIdPrecedes multi1 (multi2 + of_nat MULTIXACT_OFFSETS_PER_PAGE - 1))"

definition MultiXactMemberPagePrecedes :: "nat \<Rightarrow> nat \<Rightarrow> bool" where
  "MultiXactMemberPagePrecedes page1 page2 =
     (let offset1 = of_nat page1 * of_nat MULTIXACT_MEMBERS_PER_PAGE;
          offset2 = of_nat page2 * of_nat MULTIXACT_MEMBERS_PER_PAGE
      in MultiXactOffsetPrecedes offset1 offset2
         \<and> MultiXactOffsetPrecedes offset1 (offset2 + of_nat MULTIXACT_MEMBERS_PER_PAGE - 1))"

definition MultiXactOffsetWouldWrap :: "MultiXactOffset \<Rightarrow> MultiXactOffset \<Rightarrow> uint32 \<Rightarrow> bool" where
  "MultiXactOffsetWouldWrap boundary start distance =
     (let finish = start + distance;
          finish = (if finish < start then finish + 1 else finish)
      in if start < boundary then finish \<ge> boundary \<or> finish < start
         else finish \<ge> boundary \<and> finish < start)"

subsection \<open>Pages and members\<close>

definition ZeroMultiXactOffsetPage :: "nat \<Rightarrow> MultiXactSlru \<Rightarrow> MultiXactSlru" where
  "ZeroMultiXactOffsetPage pageno s =
     s\<lparr>mxo_buffer := (mxo_buffer s)(pageno := (\<lambda>_. 0)), mxo_dirty := (mxo_dirty s)(pageno := True),
       mxo_latest_page := pageno\<rparr>"

definition ZeroMultiXactMemberPage :: "nat \<Rightarrow> MultiXactSlru \<Rightarrow> MultiXactSlru" where
  "ZeroMultiXactMemberPage pageno s =
     s\<lparr>mxm_buffer := (mxm_buffer s)(pageno := (\<lambda>_. 0)), mxm_dirty := (mxm_dirty s)(pageno := True),
       mxm_latest_page := pageno\<rparr>"

definition ExtendMultiXactOffset :: "MultiXactId \<Rightarrow> MultiXactSlru \<Rightarrow> multixact_record list \<times> MultiXactSlru" where
  "ExtendMultiXactOffset multi s =
     (if MultiXactIdToOffsetEntry multi \<noteq> 0 \<and> multi \<noteq> FirstMultiXactId then ([], s)
      else ([XLOG_MULTIXACT_ZERO_OFF_PAGE (MultiXactIdToOffsetPage multi)],
            ZeroMultiXactOffsetPage (MultiXactIdToOffsetPage multi) s))"

text \<open>
  The number of items from an offset to the end of its page. Near the end of the offset space the last
  page is shorter, which the code detects by the overflow of a sum.
\<close>

definition mx_page_rest :: "MultiXactOffset \<Rightarrow> uint32" where
  "mx_page_rest off =
     (if off + MAX_MEMBERS_IN_LAST_MEMBERS_PAGE < off then MaxMultiXactOffset - off + 1
      else of_nat MULTIXACT_MEMBERS_PER_PAGE - off mod of_nat MULTIXACT_MEMBERS_PER_PAGE)"

lemma mx_members_per_page: "MULTIXACT_MEMBERS_PER_PAGE = 1636"
  by (simp add: MULTIXACT_MEMBERS_PER_PAGE_def MULTIXACT_MEMBERGROUPS_PER_PAGE_def MULTIXACT_MEMBERGROUP_SIZE_def
      MULTIXACT_MEMBERS_PER_MEMBERGROUP_def MULTIXACT_FLAGBYTES_PER_GROUP_def BLCKSZ_def)

lemma mx_last_members: "MAX_MEMBERS_IN_LAST_MEMBERS_PAGE = 1036"
  unfolding MAX_MEMBERS_IN_LAST_MEMBERS_PAGE_def mx_members_per_page by code_simp

lemma mx_page_rest_unat:
  "unat (mx_page_rest off) = (if 2 ^ 32 - 1036 \<le> unat off then 2 ^ 32 - unat off else 1636 - unat off mod 1636)"
proof -
  have o: "unat off < 2 ^ 32" using unsigned_less [of off] by simp
  show ?thesis
  proof (cases "2 ^ 32 - 1036 \<le> unat off")
    case True
    have "(unat off + 1036) mod 2 ^ 32 = unat off + 1036 - 2 ^ 32" using True o by (simp add: mod_if)
    then have "off + 1036 < off" using True o by (simp add: word_less_nat_alt unat_word_ariths(1))
    moreover have "unat (MaxMultiXactOffset - off + 1) = 2 ^ 32 - unat off"
    proof -
      have "MaxMultiXactOffset - off + 1 = 0 - off" by (simp add: MaxMultiXactOffset_def)
      then show ?thesis using True o unat_sub_if_size [of 0 off] by (simp only: word_size) simp
    qed
    ultimately show ?thesis using True by (simp add: mx_page_rest_def mx_last_members)
  next
    case False
    have "\<not> off + 1036 < off" using False o by (simp add: word_less_nat_alt unat_word_ariths(1))
    moreover have "unat (of_nat 1636 - off mod of_nat 1636 :: uint32) = 1636 - unat off mod 1636"
    proof -
      have m: "unat (off mod of_nat 1636) = unat off mod 1636" by (simp add: unat_mod_distrib)
      have "off mod of_nat 1636 \<le> (of_nat 1636 :: uint32)" using m by (simp add: word_le_nat_alt)
      then show ?thesis using m by (simp add: unat_sub)
    qed
    ultimately show ?thesis using False by (simp add: mx_page_rest_def mx_last_members mx_members_per_page)
  qed
qed

lemma mx_page_rest_positive: "0 < unat (mx_page_rest off)"
  using unsigned_less [of off] by (auto simp: mx_page_rest_unat)

function ExtendMultiXactMember ::
  "MultiXactOffset \<Rightarrow> nat \<Rightarrow> MultiXactSlru \<Rightarrow> multixact_record list \<times> MultiXactSlru" where
  "ExtendMultiXactMember off nmembers s =
     (if nmembers > 0 then
        (let (w, s) = (if MXOffsetToFlagsOffset off = 0 \<and> MXOffsetToFlagsBitShift off = 0
                       then ([XLOG_MULTIXACT_ZERO_MEM_PAGE (MXOffsetToMemberPage off)],
                             ZeroMultiXactMemberPage (MXOffsetToMemberPage off) s)
                       else ([], s));
             difference = mx_page_rest off;
             (ws, s) = ExtendMultiXactMember (off + difference) (nmembers - unat difference) s
         in (w @ ws, s))
      else ([], s))"
  by pat_completeness auto
termination
  by (relation "measure (\<lambda>(_, n, _). n)") (use mx_page_rest_positive in auto)

text \<open>The loop of \<open>RecordNewMultiXact\<close> over the members, and the one of \<open>GetMultiXactIdMembers\<close>.\<close>

fun record_members :: "MultiXactOffset \<Rightarrow> MultiXactMember list \<Rightarrow> MultiXactSlru \<Rightarrow> MultiXactSlru" where
  "record_members off [] s = s" |
  "record_members off (m # ms) s =
     (let pageno = MXOffsetToMemberPage off;
          memberoff = MXOffsetToMemberOffset off;
          flagsoff = MXOffsetToFlagsOffset off;
          bshift = MXOffsetToFlagsBitShift off;
          page = (mxm_buffer s pageno)(memberoff := mem_xid m);
          flagsval = page flagsoff;
          flagsval = flagsval AND NOT (push_bit bshift (push_bit MXACT_MEMBER_BITS_PER_XACT 1 - 1));
          flagsval = flagsval OR push_bit bshift (mem_status m);
          page = page(flagsoff := flagsval)
      in record_members (off + 1) ms
           (s\<lparr>mxm_buffer := (mxm_buffer s)(pageno := page), mxm_dirty := (mxm_dirty s)(pageno := True)\<rparr>))"

definition RecordNewMultiXact ::
  "MultiXactId \<Rightarrow> MultiXactOffset \<Rightarrow> MultiXactMember list \<Rightarrow> MultiXactSlru \<Rightarrow> MultiXactSlru" where
  "RecordNewMultiXact multi off members s =
     (let pageno = MultiXactIdToOffsetPage multi;
          entryno = MultiXactIdToOffsetEntry multi;
          s = s\<lparr>mxo_buffer := (mxo_buffer s)(pageno := (mxo_buffer s pageno)(entryno := off)),
                mxo_dirty := (mxo_dirty s)(pageno := True)\<rparr>
      in record_members off members s)"

fun read_members :: "MultiXactSlru \<Rightarrow> MultiXactOffset \<Rightarrow> nat \<Rightarrow> MultiXactMember list" where
  "read_members s off 0 = []" |
  "read_members s off (Suc n) =
     (let page = mxm_buffer s (MXOffsetToMemberPage off);
          xid = page (MXOffsetToMemberOffset off);
          rest = read_members s (off + 1) n
      in if \<not> TransactionIdIsValid xid then rest
         else \<lparr>mem_xid = xid, mem_status = drop_bit (MXOffsetToFlagsBitShift off) (page (MXOffsetToFlagsOffset off))
                                           AND MXACT_MEMBER_XACT_BITMASK\<rparr> # rest)"

subsection \<open>The cache of a backend\<close>

definition mxactMemberComparator :: "MultiXactMember \<Rightarrow> MultiXactMember \<Rightarrow> int" where
  "mxactMemberComparator member1 member2 =
     (if mem_xid member1 > mem_xid member2 then 1
      else if mem_xid member1 < mem_xid member2 then -1
      else if mem_status member1 > mem_status member2 then 1
      else if mem_status member1 < mem_status member2 then -1
      else 0)"

text \<open>
  The call of \<open>qsort\<close> with that comparison, by insertion: members that compare equal are equal, so
  there is one sorted order.
\<close>

fun insert_member :: "MultiXactMember \<Rightarrow> MultiXactMember list \<Rightarrow> MultiXactMember list" where
  "insert_member m [] = [m]" |
  "insert_member m (n # ms) = (if mxactMemberComparator m n \<le> 0 then m # n # ms else n # insert_member m ms)"

definition qsort_members :: "MultiXactMember list \<Rightarrow> MultiXactMember list" where
  "qsort_members ms = foldr insert_member ms []"

text \<open>The search through the list, and \<open>dclist_move_head\<close> of the entry it finds.\<close>

fun mxact_cache_search ::
  "(MultiXactId \<times> MultiXactMember list \<Rightarrow> bool) \<Rightarrow> MXactCache \<Rightarrow> ((MultiXactId \<times> MultiXactMember list) \<times> MXactCache) option" where
  "mxact_cache_search found [] = None" |
  "mxact_cache_search found (e # es) =
     (if found e then Some (e, es)
      else case mxact_cache_search found es of None \<Rightarrow> None | Some (e', es') \<Rightarrow> Some (e', e # es'))"

definition mXactCacheGetBySet :: "MultiXactMember list \<Rightarrow> MXactCache \<Rightarrow> MultiXactId \<times> MultiXactMember list \<times> MXactCache" where
  "mXactCacheGetBySet members c =
     (let members = qsort_members members
      in case mxact_cache_search (\<lambda>(_, ms). length ms = length members \<and> ms = members) c of
           Some (e, es) \<Rightarrow> (fst e, members, e # es)
         | None \<Rightarrow> (InvalidMultiXactId, members, c))"

definition mXactCacheGetById :: "MultiXactId \<Rightarrow> MXactCache \<Rightarrow> MultiXactMember list option \<times> MXactCache" where
  "mXactCacheGetById multi c =
     (case mxact_cache_search (\<lambda>(m, _). m = multi) c of
        Some (e, es) \<Rightarrow> (Some (snd e), e # es)
      | None \<Rightarrow> (None, c))"

definition mXactCachePut :: "MultiXactId \<Rightarrow> MultiXactMember list \<Rightarrow> MXactCache \<Rightarrow> MXactCache" where
  "mXactCachePut multi members c =
     (let c = (multi, qsort_members members) # c
      in if length c > MAX_CACHE_ENTRIES then butlast c else c)"

subsection \<open>The oldest multixacts of interest\<close>

definition valid_next :: "MultiXactId \<Rightarrow> MultiXactId" where
  "valid_next multi = (if multi < FirstMultiXactId then FirstMultiXactId else multi)"

definition ReadNextMultiXactId :: "MultiXactStateData \<Rightarrow> MultiXactId" where
  "ReadNextMultiXactId st = valid_next (nextMXact st)"

definition ReadMultiXactIdRange :: "MultiXactStateData \<Rightarrow> MultiXactId \<times> MultiXactId" where
  "ReadMultiXactIdRange st = (valid_next (oldestMultiXactId st), valid_next (nextMXact st))"

definition older_multi :: "MultiXactId \<Rightarrow> MultiXactId \<Rightarrow> MultiXactId" where
  "older_multi thisoldest oldestMXact =
     (if MultiXactIdIsValid thisoldest \<and> MultiXactIdPrecedes thisoldest oldestMXact then thisoldest else oldestMXact)"

definition MultiXactIdSetOldestMember :: "nat \<Rightarrow> MultiXactStateData \<Rightarrow> MultiXactStateData" where
  "MultiXactIdSetOldestMember me st =
     (if \<not> MultiXactIdIsValid (OldestMemberMXactId st me)
      then st\<lparr>OldestMemberMXactId := (OldestMemberMXactId st)(me := valid_next (nextMXact st))\<rparr> else st)"

definition MultiXactIdSetOldestVisible :: "nat \<Rightarrow> MultiXactStateData \<Rightarrow> MultiXactStateData" where
  "MultiXactIdSetOldestVisible me st =
     (if \<not> MultiXactIdIsValid (OldestVisibleMXactId st me) then
        (let oldestMXact = fold (\<lambda>i. older_multi (OldestMemberMXactId st i)) [1 ..< MaxOldestSlot st + 1]
                             (valid_next (nextMXact st))
         in st\<lparr>OldestVisibleMXactId := (OldestVisibleMXactId st)(me := oldestMXact)\<rparr>)
      else st)"

definition GetOldestMultiXactId :: "MultiXactStateData \<Rightarrow> MultiXactId" where
  "GetOldestMultiXactId st =
     fold (\<lambda>i oldestMXact. older_multi (OldestVisibleMXactId st i) (older_multi (OldestMemberMXactId st i) oldestMXact))
       [1 ..< MaxOldestSlot st + 1] (valid_next (nextMXact st))"

definition AtEOXact_MultiXact :: "nat \<Rightarrow> MultiXactStateData \<Rightarrow> MultiXactStateData \<times> MXactCache" where
  "AtEOXact_MultiXact me st =
     (st\<lparr>OldestMemberMXactId := (OldestMemberMXactId st)(me := InvalidMultiXactId),
         OldestVisibleMXactId := (OldestVisibleMXactId st)(me := InvalidMultiXactId)\<rparr>, [])"

text \<open>The value saved in the state file of a prepared transaction, if any; \<open>dummy\<close> is its dummy backend id.\<close>

definition AtPrepare_MultiXact :: "nat \<Rightarrow> MultiXactStateData \<Rightarrow> MultiXactId option" where
  "AtPrepare_MultiXact me st =
     (if MultiXactIdIsValid (OldestMemberMXactId st me) then Some (OldestMemberMXactId st me) else None)"

definition PostPrepare_MultiXact :: "nat \<Rightarrow> nat \<Rightarrow> MultiXactStateData \<Rightarrow> MultiXactStateData \<times> MXactCache" where
  "PostPrepare_MultiXact dummy me st =
     (let myOldestMember = OldestMemberMXactId st me;
          st = (if MultiXactIdIsValid myOldestMember
                then st\<lparr>OldestMemberMXactId := (OldestMemberMXactId st)(dummy := myOldestMember, me := InvalidMultiXactId)\<rparr>
                else st)
      in (st\<lparr>OldestVisibleMXactId := (OldestVisibleMXactId st)(me := InvalidMultiXactId)\<rparr>, []))"

definition multixact_twophase_recover :: "nat \<Rightarrow> MultiXactId \<Rightarrow> MultiXactStateData \<Rightarrow> MultiXactStateData" where
  "multixact_twophase_recover dummy oldestMember st =
     st\<lparr>OldestMemberMXactId := (OldestMemberMXactId st)(dummy := oldestMember)\<rparr>"

definition multixact_twophase_postcommit :: "nat \<Rightarrow> MultiXactStateData \<Rightarrow> MultiXactStateData" where
  "multixact_twophase_postcommit dummy st =
     st\<lparr>OldestMemberMXactId := (OldestMemberMXactId st)(dummy := InvalidMultiXactId)\<rparr>"

definition multixact_twophase_postabort :: "nat \<Rightarrow> MultiXactStateData \<Rightarrow> MultiXactStateData" where
  "multixact_twophase_postabort dummy st = multixact_twophase_postcommit dummy st"

subsection \<open>Creating a multixact\<close>

definition OFFSET_WARN_SEGMENTS :: nat where
  "OFFSET_WARN_SEGMENTS = 20"

text \<open>The part of \<open>GetNewMultiXactId\<close> that runs under the lock once the limits of the ids are checked.\<close>

definition reserve_multixact ::
  "nat \<Rightarrow> MultiXactId \<Rightarrow> MultiXactStateData \<Rightarrow>
   multixact_event list \<times> (multixact_error + MultiXactId \<times> MultiXactOffset) \<times> MultiXactStateData" where
  "reserve_multixact nmembers result st =
     (let (w1, slru) = ExtendMultiXactOffset result (mx_slru st);
          st = st\<lparr>mx_slru := slru\<rparr>;
          next_off = nextOffset st;
          (off, nmembers) = (if next_off = 0 then (1, nmembers + 1) else (next_off, nmembers));
          known = oldestOffsetKnown st
      in if known \<and> MultiXactOffsetWouldWrap (offsetStopLimit st) next_off (of_nat nmembers)
         then (map MxInsert w1 @ [MxStartAutovacLauncher], Inl (MembersLimitExceeded (oldestMultiXactDB st)), st)
         else
           (let sig = (if (\<not> known \<or> next_off - oldestOffset st > MULTIXACT_MEMBER_SAFE_THRESHOLD)
                          \<and> MXOffsetToMemberPage next_off div SLRU_PAGES_PER_SEGMENT
                            \<noteq> MXOffsetToMemberPage (next_off + of_nat nmembers) div SLRU_PAGES_PER_SEGMENT
                       then [MxStartAutovacLauncher] else []);
                warn = (if known \<and> MultiXactOffsetWouldWrap (offsetStopLimit st) next_off
                             (of_nat (nmembers + MULTIXACT_MEMBERS_PER_PAGE * SLRU_PAGES_PER_SEGMENT * OFFSET_WARN_SEGMENTS))
                        then [MembersWarning (oldestMultiXactDB st) (offsetStopLimit st - next_off + of_nat nmembers)] else []);
                (w2, slru) = ExtendMultiXactMember next_off nmembers (mx_slru st);
                st = st\<lparr>mx_slru := slru, nextMXact := nextMXact st + 1, nextOffset := next_off + of_nat nmembers\<rparr>
            in (map MxInsert w1 @ sig @ warn @ map MxInsert w2, Inr (result, off), st)))"

definition GetNewMultiXactId ::
  "process_mode \<Rightarrow> (MultiXactStateData \<Rightarrow> MultiXactStateData) \<Rightarrow> nat \<Rightarrow> MultiXactStateData \<Rightarrow>
   multixact_event list \<times> (multixact_error + MultiXactId \<times> MultiXactOffset) \<times> MultiXactStateData" where
  "GetNewMultiXactId mode others nmembers st =
     (if RecoveryInProgress mode then ([], Inl MultiXactsInRecovery, st)
      else
        (let st = st\<lparr>nextMXact := valid_next (nextMXact st)\<rparr>;
             result = nextMXact st
         in if \<not> MultiXactIdPrecedes result (multiVacLimit st) then
              (if IsUnderPostmaster mode \<and> \<not> MultiXactIdPrecedes result (multiStopLimit st)
               then ([MxStartAutovacLauncher], Inl (MultiXactStop (oldestMultiXactDB st)), st)
               else
                 (let sig = (if IsUnderPostmaster mode \<and> result mod 65536 = 0 then [MxStartAutovacLauncher] else []);
                      warn = (if \<not> MultiXactIdPrecedes result (multiWarnLimit st)
                              then [MultiXactWarning (oldestMultiXactDB st) (multiWrapLimit st - result)] else []);
                      st = others st;
                      (ev, r) = reserve_multixact nmembers (valid_next (nextMXact st)) st
                  in (sig @ warn @ ev, r)))
            else reserve_multixact nmembers result st))"

text \<open>The check that at most one member updates the row.\<close>

fun single_updater :: "bool \<Rightarrow> MultiXactMember list \<Rightarrow> bool" where
  "single_updater has_update [] = True" |
  "single_updater has_update (m # ms) =
     (if ISUPDATE_from_mxstatus (mem_status m) then (if has_update then False else single_updater True ms)
      else single_updater has_update ms)"

definition MultiXactIdCreateFromMembers ::
  "process_mode \<Rightarrow> (MultiXactStateData \<Rightarrow> MultiXactStateData) \<Rightarrow> MultiXactMember list \<Rightarrow> MultiXactStateData \<times> MXactCache \<Rightarrow>
   multixact_event list \<times> (multixact_error + MultiXactId) \<times> MultiXactStateData \<times> MXactCache" where
  "MultiXactIdCreateFromMembers mode others members = (\<lambda>(st, c).
     (let (multi, members, c) = mXactCacheGetBySet members c
      in if MultiXactIdIsValid multi then ([], Inr multi, st, c)
         else if \<not> single_updater False members then ([], Inl TwoUpdatingMembers, st, c)
         else case GetNewMultiXactId mode others (length members) st of
                (ev, Inl e, st) \<Rightarrow> (ev, Inl e, st, c)
              | (ev, Inr (multi, off), st) \<Rightarrow>
                  (ev @ [MxInsert (XLOG_MULTIXACT_CREATE_ID multi off members)], Inr multi,
                   st\<lparr>mx_slru := RecordNewMultiXact multi off members (mx_slru st)\<rparr>, mXactCachePut multi members c)))"

definition MultiXactIdCreate ::
  "process_mode \<Rightarrow> (MultiXactStateData \<Rightarrow> MultiXactStateData) \<Rightarrow> TransactionId \<Rightarrow> MultiXactStatus \<Rightarrow>
   TransactionId \<Rightarrow> MultiXactStatus \<Rightarrow> MultiXactStateData \<times> MXactCache \<Rightarrow>
   multixact_event list \<times> (multixact_error + MultiXactId) \<times> MultiXactStateData \<times> MXactCache" where
  "MultiXactIdCreate mode others xid1 status1 xid2 status2 sc =
     MultiXactIdCreateFromMembers mode others
       [\<lparr>mem_xid = xid1, mem_status = status1\<rparr>, \<lparr>mem_xid = xid2, mem_status = status2\<rparr>] sc"

subsection \<open>Looking up the members\<close>

text \<open>
  The start and length of a multixact: \<open>obs k\<close> is the contents of the logs at the \<open>k\<close>-th attempt. An
  attempt that finds the next multixact not yet filled in is repeated.
\<close>

definition offset_entry :: "MultiXactSlru \<Rightarrow> MultiXactId \<Rightarrow> MultiXactOffset" where
  "offset_entry s multi = mxo_buffer s (MultiXactIdToOffsetPage multi) (MultiXactIdToOffsetEntry multi)"

partial_function (option) multixact_extent ::
  "(nat \<Rightarrow> MultiXactSlru) \<Rightarrow> MultiXactId \<Rightarrow> MultiXactOffset \<Rightarrow> MultiXactId \<Rightarrow> nat \<Rightarrow> (MultiXactOffset \<times> int \<times> nat) option" where
  "multixact_extent obs next_multi next_off multi k =
     (let off = offset_entry (obs k) multi
      in if next_multi = multi + 1 then Some (off, sint (next_off - off), k)
         else if offset_entry (obs k) (valid_next (multi + 1)) = 0
         then multixact_extent obs next_multi next_off multi (k + 1)
         else Some (off, sint (offset_entry (obs k) (valid_next (multi + 1)) - off), k))"

text \<open>
  The array for the members is allocated by \<open>palloc (length * sizeof (MultiXactMember))\<close>, which fails for a
  negative length, a huge unsigned size, and for more than \<open>MaxAllocSize\<close> bytes.
\<close>

definition MaxAllocSize :: int where
  "MaxAllocSize = 0x3fffffff"

definition members_alloc_ok :: "int \<Rightarrow> bool" where
  "members_alloc_ok len \<longleftrightarrow> 0 \<le> len \<and> len * 8 \<le> MaxAllocSize"

definition GetMultiXactIdMembers ::
  "nat \<Rightarrow> (nat \<Rightarrow> MultiXactSlru) \<Rightarrow> MultiXactId \<Rightarrow> bool \<Rightarrow> bool \<Rightarrow> MultiXactStateData \<times> MXactCache \<Rightarrow>
   ((multixact_error + MultiXactMember list option) \<times> MultiXactStateData \<times> MXactCache) option" where
  "GetMultiXactIdMembers me obs multi from_pgupgrade isLockOnly = (\<lambda>(st, c).
     (if \<not> MultiXactIdIsValid multi \<or> from_pgupgrade then Some (Inr None, st, c)
      else case mXactCacheGetById multi c of
        (Some ms, c) \<Rightarrow> Some (Inr (Some ms), st, c)
      | (None, c) \<Rightarrow>
          (let st = MultiXactIdSetOldestVisible me st
           in if isLockOnly \<and> MultiXactIdPrecedes multi (OldestVisibleMXactId st me) then Some (Inr None, st, c)
              else if MultiXactIdPrecedes multi (oldestMultiXactId st) then Some (Inl (MultiXactTooOld multi), st, c)
              else if \<not> MultiXactIdPrecedes multi (nextMXact st) then Some (Inl (MultiXactTooNew multi), st, c)
              else case multixact_extent obs (nextMXact st) (nextOffset st) multi 0 of
                     None \<Rightarrow> None
                   | Some (off, len, k) \<Rightarrow>
                       if \<not> members_alloc_ok len then Some (Inl (InvalidAllocRequest len), st, c)
                       else (let ms = read_members (obs k) off (nat len)
                             in Some (Inr (Some ms), st, mXactCachePut multi ms c)))))"

subsection \<open>Limits\<close>

definition MaybeExtendOffsetSlru :: "(nat \<Rightarrow> bool) \<Rightarrow> MultiXactStateData \<Rightarrow> MultiXactStateData" where
  "MaybeExtendOffsetSlru page_exists st =
     (let pageno = MultiXactIdToOffsetPage (nextMXact st)
      in if \<not> page_exists pageno
         then (let slru = ZeroMultiXactOffsetPage pageno (mx_slru st)
               in st\<lparr>mx_slru := slru\<lparr>mxo_dirty := (mxo_dirty slru)(pageno := False)\<rparr>\<rparr>)
         else st)"

definition MultiXactSetNextMXact ::
  "bool \<Rightarrow> (nat \<Rightarrow> bool) \<Rightarrow> MultiXactId \<Rightarrow> MultiXactOffset \<Rightarrow> MultiXactStateData \<Rightarrow> MultiXactStateData" where
  "MultiXactSetNextMXact IsBinaryUpgrade page_exists nextMulti nextMultiOffset st =
     (let st = st\<lparr>nextMXact := nextMulti, nextOffset := nextMultiOffset\<rparr>
      in if IsBinaryUpgrade then MaybeExtendOffsetSlru page_exists st else st)"

definition MultiXactAdvanceNextMXact :: "MultiXactId \<Rightarrow> MultiXactOffset \<Rightarrow> MultiXactStateData \<Rightarrow> MultiXactStateData" where
  "MultiXactAdvanceNextMXact minMulti minMultiOffset st =
     (let st = (if MultiXactIdPrecedes (nextMXact st) minMulti then st\<lparr>nextMXact := minMulti\<rparr> else st)
      in if MultiXactOffsetPrecedes (nextOffset st) minMultiOffset then st\<lparr>nextOffset := minMultiOffset\<rparr> else st)"

text \<open>
  \<open>write_all_pages\<close> are the calls of \<open>SimpleLruWriteAll\<close> for the two logs, after which no page is dirty;
  \<open>page_exists\<close> is the answer of \<open>SimpleLruDoesPhysicalPageExist\<close> after them.
\<close>

definition write_all_pages :: "MultiXactSlru \<Rightarrow> MultiXactSlru" where
  "write_all_pages s = s\<lparr>mxo_dirty := (\<lambda>_. False), mxm_dirty := (\<lambda>_. False)\<rparr>"

definition find_multixact_start ::
  "(nat \<Rightarrow> bool) \<Rightarrow> MultiXactId \<Rightarrow> MultiXactSlru \<Rightarrow> MultiXactOffset option \<times> MultiXactSlru" where
  "find_multixact_start page_exists multi s =
     (let s = write_all_pages s
      in if \<not> page_exists (MultiXactIdToOffsetPage multi) then (None, s) else (Some (offset_entry s multi), s))"

definition members_per_segment :: uint32 where
  "members_per_segment = of_nat (MULTIXACT_MEMBERS_PER_PAGE * SLRU_PAGES_PER_SEGMENT)"

definition SetOffsetVacuumLimit :: "(nat \<Rightarrow> bool) \<Rightarrow> MultiXactStateData \<Rightarrow> bool \<times> MultiXactStateData" where
  "SetOffsetVacuumLimit page_exists st =
     (let (found, slru) = (if oldestMultiXactId st = nextMXact st then (Some (nextOffset st), mx_slru st)
                           else find_multixact_start page_exists (oldestMultiXactId st) (mx_slru st));
          (oldest, known, stop) =
            (case found of
               Some off \<Rightarrow> (off, True, off - off mod members_per_segment - members_per_segment)
             | None \<Rightarrow> if oldestOffsetKnown st then (oldestOffset st, True, offsetStopLimit st) else (0, False, 0));
          next_off = nextOffset st
      in (\<not> known \<or> next_off - oldest > MULTIXACT_MEMBER_SAFE_THRESHOLD,
          st\<lparr>mx_slru := slru, oldestOffset := oldest, oldestOffsetKnown := known, offsetStopLimit := stop\<rparr>))"

definition compute_multiWrapLimit :: "MultiXactId \<Rightarrow> MultiXactId" where
  "compute_multiWrapLimit oldest =
     (let l = oldest + drop_bit 1 MaxMultiXactId in if l < FirstMultiXactId then l + FirstMultiXactId else l)"

definition below_multiWrapLimit :: "MultiXactId \<Rightarrow> uint32 \<Rightarrow> MultiXactId" where
  "below_multiWrapLimit wrap margin =
     (let l = wrap - margin in if l < FirstMultiXactId then l - FirstMultiXactId else l)"

definition SetMultiXactIdLimit ::
  "process_mode \<Rightarrow> (nat \<Rightarrow> bool) \<Rightarrow> uint32 \<Rightarrow> MultiXactId \<Rightarrow> Oid \<Rightarrow> MultiXactStateData \<Rightarrow>
   multixact_event list \<times> MultiXactStateData" where
  "SetMultiXactIdLimit mode page_exists autovacuum_multixact_freeze_max_age oldest_datminmxid oldest_datoid st =
     (let wrap = compute_multiWrapLimit oldest_datminmxid;
          stop = below_multiWrapLimit wrap 3000000;
          warn = below_multiWrapLimit wrap 40000000;
          vac = oldest_datminmxid + autovacuum_multixact_freeze_max_age;
          vac = (if vac < FirstMultiXactId then vac + FirstMultiXactId else vac);
          st = st\<lparr>oldestMultiXactId := oldest_datminmxid, oldestMultiXactDB := oldest_datoid, multiVacLimit := vac,
                  multiWarnLimit := warn, multiStopLimit := stop, multiWrapLimit := wrap\<rparr>;
          curMulti = nextMXact st
      in if \<not> finishedStartup st then ([], st)
         else
           (let (needs_offset_vacuum, st) = SetOffsetVacuumLimit page_exists st;
                sig = (if (MultiXactIdPrecedes vac curMulti \<or> needs_offset_vacuum) \<and> IsUnderPostmaster mode
                       then [MxStartAutovacLauncher] else []);
                msg = (if MultiXactIdPrecedes warn curMulti then [MultiXactWarning oldest_datoid (wrap - curMulti)] else [])
            in (sig @ msg, st)))"

definition MultiXactAdvanceOldest ::
  "process_mode \<Rightarrow> (nat \<Rightarrow> bool) \<Rightarrow> uint32 \<Rightarrow> MultiXactId \<Rightarrow> Oid \<Rightarrow> MultiXactStateData \<Rightarrow>
   multixact_event list \<times> MultiXactStateData" where
  "MultiXactAdvanceOldest mode page_exists freeze_max_age oldestMulti oldestMultiDB st =
     (if MultiXactIdPrecedes (oldestMultiXactId st) oldestMulti
      then SetMultiXactIdLimit mode page_exists freeze_max_age oldestMulti oldestMultiDB st else ([], st))"

definition ReadMultiXactCounts :: "MultiXactStateData \<Rightarrow> (uint32 \<times> MultiXactOffset) option" where
  "ReadMultiXactCounts st =
     (if \<not> oldestOffsetKnown st then None
      else Some (nextMXact st - oldestMultiXactId st, nextOffset st - oldestOffset st))"

subsection \<open>Startup and checkpoints\<close>

definition BootStrapMultiXact :: "MultiXactSlru \<Rightarrow> MultiXactSlru" where
  "BootStrapMultiXact s =
     (let s = ZeroMultiXactOffsetPage 0 s;
          s = s\<lparr>mxo_dirty := (mxo_dirty s)(0 := False)\<rparr>;
          s = ZeroMultiXactMemberPage 0 s
      in s\<lparr>mxm_dirty := (mxm_dirty s)(0 := False)\<rparr>)"

definition StartupMultiXact :: "MultiXactStateData \<Rightarrow> MultiXactStateData" where
  "StartupMultiXact st =
     st\<lparr>mx_slru := (mx_slru st)\<lparr>mxo_latest_page := MultiXactIdToOffsetPage (nextMXact st),
                                 mxm_latest_page := MXOffsetToMemberPage (nextOffset st)\<rparr>\<rparr>"

text \<open>Zeroing what follows the next multixact and the next offset on their pages.\<close>

definition trim_logs :: "MultiXactId \<Rightarrow> MultiXactOffset \<Rightarrow> MultiXactSlru \<Rightarrow> MultiXactSlru" where
  "trim_logs next_multi off s =
     (let pageno = MultiXactIdToOffsetPage next_multi;
          s = s\<lparr>mxo_latest_page := pageno\<rparr>;
          entryno = MultiXactIdToOffsetEntry next_multi;
          s = (if entryno \<noteq> 0
               then s\<lparr>mxo_buffer := (mxo_buffer s)(pageno := (\<lambda>i. if entryno \<le> i \<and> i < MULTIXACT_OFFSETS_PER_PAGE then 0
                                                             else mxo_buffer s pageno i)),
                      mxo_dirty := (mxo_dirty s)(pageno := True)\<rparr>
               else s);
          pageno = MXOffsetToMemberPage off;
          s = s\<lparr>mxm_latest_page := pageno\<rparr>;
          memberoff = MXOffsetToMemberOffset off
      in if MXOffsetToFlagsOffset off \<noteq> 0
         then s\<lparr>mxm_buffer := (mxm_buffer s)(pageno := (\<lambda>i. if memberoff \<le> i \<and> i < BLCKSZ then 0
                                                       else mxm_buffer s pageno i)),
                mxm_dirty := (mxm_dirty s)(pageno := True)\<rparr>
         else s)"

definition TrimMultiXact ::
  "process_mode \<Rightarrow> (nat \<Rightarrow> bool) \<Rightarrow> uint32 \<Rightarrow> MultiXactStateData \<Rightarrow> multixact_event list \<times> MultiXactStateData" where
  "TrimMultiXact mode page_exists freeze_max_age st =
     (let oldestMXact = oldestMultiXactId st;
          oldestMXactDB = oldestMultiXactDB st;
          st = st\<lparr>mx_slru := trim_logs (nextMXact st) (nextOffset st) (mx_slru st)\<rparr>;
          st = st\<lparr>finishedStartup := True\<rparr>
      in SetMultiXactIdLimit mode page_exists freeze_max_age oldestMXact oldestMXactDB st)"

definition MultiXactGetCheckptMulti ::
  "MultiXactStateData \<Rightarrow> MultiXactId \<times> MultiXactOffset \<times> MultiXactId \<times> Oid" where
  "MultiXactGetCheckptMulti st = (nextMXact st, nextOffset st, oldestMultiXactId st, oldestMultiXactDB st)"

definition CheckPointMultiXact :: "MultiXactSlru \<Rightarrow> MultiXactSlru" where
  "CheckPointMultiXact s = write_all_pages s"

subsection \<open>Truncation\<close>

text \<open>
  The segments of the members log that a truncation removes, in the order of the calls of
  \<open>SlruDeleteSegment\<close>; the result \<open>None\<close> would be a loop without end.
\<close>

definition MXOffsetToMemberSegment :: "MultiXactOffset \<Rightarrow> nat" where
  "MXOffsetToMemberSegment off = MXOffsetToMemberPage off div SLRU_PAGES_PER_SEGMENT"

partial_function (option) delete_segments :: "nat \<Rightarrow> nat \<Rightarrow> nat \<Rightarrow> nat list option" where
  "delete_segments maxsegment segment endsegment =
     (if segment \<noteq> endsegment then
        Option.bind (delete_segments maxsegment (if segment = maxsegment then 0 else segment + 1) endsegment)
          (\<lambda>segs. Some (segment # segs))
      else Some [])"

definition PerformMembersTruncation :: "MultiXactOffset \<Rightarrow> MultiXactOffset \<Rightarrow> nat list option" where
  "PerformMembersTruncation oldest_off newOldestOffset =
     delete_segments (MXOffsetToMemberSegment MaxMultiXactOffset) (MXOffsetToMemberSegment oldest_off)
       (MXOffsetToMemberSegment newOldestOffset)"

definition PreviousMultiXactId :: "MultiXactId \<Rightarrow> MultiXactId" where
  "PreviousMultiXactId multi = (if multi = FirstMultiXactId then MaxMultiXactId else multi - 1)"

text \<open>The cutoff page passed to \<open>SimpleLruTruncate\<close>.\<close>

definition PerformOffsetsTruncation :: "MultiXactId \<Rightarrow> nat" where
  "PerformOffsetsTruncation newOldestMulti = MultiXactIdToOffsetPage (PreviousMultiXactId newOldestMulti)"

text \<open>The first page of each segment file of the offsets log, in directory order, \<open>None\<close> standing for \<open>-1\<close>.\<close>

definition SlruScanDirCbFindEarliest :: "nat \<Rightarrow> nat option \<Rightarrow> nat option" where
  "SlruScanDirCbFindEarliest segpage earliestExistingPage =
     (case earliestExistingPage of
        None \<Rightarrow> Some segpage
      | Some p \<Rightarrow> if MultiXactOffsetPagePrecedes segpage p then Some segpage else Some p)"

definition earliest_multi :: "nat list \<Rightarrow> MultiXactId" where
  "earliest_multi dir =
     valid_next (case fold SlruScanDirCbFindEarliest dir None of
                   None \<Rightarrow> - of_nat MULTIXACT_OFFSETS_PER_PAGE
                 | Some p \<Rightarrow> of_nat (p * MULTIXACT_OFFSETS_PER_PAGE))"

text \<open>
  The WAL record of the truncation, the removed segments of the members log and the cutoff page of the
  offsets log; nothing when the truncation is skipped.
\<close>

definition TruncateMultiXact ::
  "(nat \<Rightarrow> bool) \<Rightarrow> nat list \<Rightarrow> MultiXactId \<Rightarrow> Oid \<Rightarrow> MultiXactStateData \<Rightarrow>
   ((multixact_record \<times> nat list \<times> nat) option \<times> MultiXactStateData) option" where
  "TruncateMultiXact page_exists dir newOldestMulti newOldestMultiDB st =
     (let nextMulti = nextMXact st;
          oldestMulti = oldestMultiXactId st;
          start_of = (\<lambda>multi s. if multi = nextMulti then (Some (nextOffset st), s)
                               else find_multixact_start page_exists multi s)
      in if MultiXactIdPrecedesOrEquals newOldestMulti oldestMulti then Some (None, st)
         else if MultiXactIdPrecedes oldestMulti (earliest_multi dir) then Some (None, st)
         else case start_of oldestMulti (mx_slru st) of
                (None, s) \<Rightarrow> Some (None, st\<lparr>mx_slru := s\<rparr>)
              | (Some oldest_off, s) \<Rightarrow>
                  (case start_of newOldestMulti s of
                     (None, s) \<Rightarrow> Some (None, st\<lparr>mx_slru := s\<rparr>)
                   | (Some newOldestOffset, s) \<Rightarrow>
                       (case PerformMembersTruncation oldest_off newOldestOffset of
                          None \<Rightarrow> None
                        | Some segs \<Rightarrow>
                            Some (Some (XLOG_MULTIXACT_TRUNCATE_ID newOldestMultiDB oldestMulti newOldestMulti
                                          oldest_off newOldestOffset,
                                        segs, PerformOffsetsTruncation newOldestMulti),
                                  st\<lparr>mx_slru := s, oldestMultiXactId := newOldestMulti,
                                     oldestMultiXactDB := newOldestMultiDB\<rparr>))))"

subsection \<open>Replay\<close>

definition max_member_xid :: "TransactionId \<Rightarrow> MultiXactMember list \<Rightarrow> TransactionId" where
  "max_member_xid record_xid members =
     fold (\<lambda>m max_xid. if TransactionIdPrecedes max_xid (mem_xid m) then mem_xid m else max_xid) members record_xid"

definition multixact_redo ::
  "process_mode \<Rightarrow> (nat \<Rightarrow> bool) \<Rightarrow> uint32 \<Rightarrow> TransactionId \<Rightarrow> multixact_record \<Rightarrow> MultiXactStateData \<times> VariableCache \<Rightarrow>
   ((nat list \<times> nat) option \<times> MultiXactStateData \<times> VariableCache) option" where
  "multixact_redo mode page_exists freeze_max_age record_xid record = (\<lambda>(st, vc).
     (case record of
        XLOG_MULTIXACT_ZERO_OFF_PAGE pageno \<Rightarrow>
          (let s = ZeroMultiXactOffsetPage pageno (mx_slru st)
           in Some (None, st\<lparr>mx_slru := s\<lparr>mxo_dirty := (mxo_dirty s)(pageno := False)\<rparr>\<rparr>, vc))
      | XLOG_MULTIXACT_ZERO_MEM_PAGE pageno \<Rightarrow>
          (let s = ZeroMultiXactMemberPage pageno (mx_slru st)
           in Some (None, st\<lparr>mx_slru := s\<lparr>mxm_dirty := (mxm_dirty s)(pageno := False)\<rparr>\<rparr>, vc))
      | XLOG_MULTIXACT_CREATE_ID mid moff members \<Rightarrow>
          (let st = st\<lparr>mx_slru := RecordNewMultiXact mid moff members (mx_slru st)\<rparr>;
               st = MultiXactAdvanceNextMXact (mid + 1) (moff + of_nat (length members)) st
           in Some (None, st, AdvanceNextFullTransactionIdPastXid (max_member_xid record_xid members) vc))
      | XLOG_MULTIXACT_TRUNCATE_ID db startTruncOff endTruncOff startTruncMemb endTruncMemb \<Rightarrow>
          (let (ev, st) = SetMultiXactIdLimit mode page_exists freeze_max_age endTruncOff db st
           in case PerformMembersTruncation startTruncMemb endTruncMemb of
                None \<Rightarrow> None
              | Some segs \<Rightarrow>
                  Some (Some (segs, PerformOffsetsTruncation endTruncOff),
                        st\<lparr>mx_slru := (mx_slru st)\<lparr>mxo_latest_page := MultiXactIdToOffsetPage endTruncOff\<rparr>\<rparr>, vc))))"

end
