(* ===== verification/MultiXactLog.thy ===== *)
theory MultiXactLog
  imports MultiXact
begin

section \<open>The logs of multixacts\<close>

text \<open>
  Facts about the layout of the two logs of \<open>multixact.c\<close>: every offset has a member slot of its own, a
  write to one slot leaves the others alone, and what is written is read back. The properties below
  rest on a relation of steps, in which backends reserve multixacts, write them and move the
  oldest one forward in any order.
\<close>

subsection \<open>The member slots\<close>

definition slot_xid :: "MultiXactSlru \<Rightarrow> MultiXactOffset \<Rightarrow> TransactionId" where
  "slot_xid s off = mxm_buffer s (MXOffsetToMemberPage off) (MXOffsetToMemberOffset off)"

definition slot_status :: "MultiXactSlru \<Rightarrow> MultiXactOffset \<Rightarrow> MultiXactStatus" where
  "slot_status s off = drop_bit (MXOffsetToFlagsBitShift off) (mxm_buffer s (MXOffsetToMemberPage off) (MXOffsetToFlagsOffset off))
     AND MXACT_MEMBER_XACT_BITMASK"

lemmas mx_layout = MULTIXACT_FLAGBYTES_PER_GROUP_def MULTIXACT_MEMBERS_PER_MEMBERGROUP_def
  MULTIXACT_MEMBERGROUP_SIZE_def MULTIXACT_MEMBERGROUPS_PER_PAGE_def BLCKSZ_def

lemma div_mod_1636: "n div 4 mod 409 = n mod 1636 div (4 :: nat)"
  using mod_mult2_eq [of n 4 409] by simp

lemma mx_addresses:
  "MXOffsetToMemberPage off = unat off div 1636"
  "MXOffsetToFlagsOffset off = unat off mod 1636 div 4 * 20"
  "MXOffsetToFlagsBitShift off = unat off mod 1636 mod 4 * 8"
  "MXOffsetToMemberOffset off = unat off mod 1636 div 4 * 20 + 4 + unat off mod 1636 mod 4 * 4"
proof -
  have m: "unat off mod 1636 mod 4 = unat off mod 4" by (simp add: mod_mod_cancel)
  show "MXOffsetToMemberPage off = unat off div 1636"
    by (simp add: MXOffsetToMemberPage_def mx_members_per_page)
  show f: "MXOffsetToFlagsOffset off = unat off mod 1636 div 4 * 20"
    by (simp add: MXOffsetToFlagsOffset_def mx_layout div_mod_1636)
  show "MXOffsetToFlagsBitShift off = unat off mod 1636 mod 4 * 8"
    by (simp add: MXOffsetToFlagsBitShift_def mx_layout MXACT_MEMBER_BITS_PER_XACT_def m)
  show "MXOffsetToMemberOffset off = unat off mod 1636 div 4 * 20 + 4 + unat off mod 1636 mod 4 * 4"
    unfolding MXOffsetToMemberOffset_def f by (simp add: mx_layout m)
qed

lemma unat_eq_by_page:
  assumes "unat (a :: uint32) div 1636 = unat b div 1636" and "unat a mod 1636 = unat b mod 1636"
  shows "a = b"
  using assms by (metis div_mult_mod_eq word_unat_eq_iff)

lemma group_slots:
  fixes q q' m m' :: nat
  assumes "m < 4" and "m' < 4"
  shows "q * 20 + 4 + m * 4 = q' * 20 + 4 + m' * 4 \<longleftrightarrow> q = q' \<and> m = m'" and "q * 20 + 4 + m * 4 \<noteq> q' * 20"
proof -
  have d: "a = a' \<and> b = b'" if "5 * a + b = 5 * a' + b'" "b < 5" "b' < 5" for a a' b b' :: nat
  proof -
    have "a = a'" using arg_cong [OF that(1), of "\<lambda>x. x div 5"] that(2,3) by simp
    with that(1) show ?thesis by simp
  qed
  have "q * 20 + 4 + m * 4 = q' * 20 + 4 + m' * 4 \<longleftrightarrow> 5 * q + m = 5 * q' + m'" by linarith
  also have "\<dots> \<longleftrightarrow> q = q' \<and> m = m'" using d [of q m q' m'] assms by auto
  finally show "q * 20 + 4 + m * 4 = q' * 20 + 4 + m' * 4 \<longleftrightarrow> q = q' \<and> m = m'" .
  have "q * 20 + 4 + m * 4 = q' * 20 \<longleftrightarrow> 5 * q + (m + 1) = 5 * q' + 0" by linarith
  then show "q * 20 + 4 + m * 4 \<noteq> q' * 20" using d [of q "m + 1" q' 0] assms by auto
qed

lemma member_slot_inj:
  assumes "MXOffsetToMemberPage a = MXOffsetToMemberPage b" and "MXOffsetToMemberOffset a = MXOffsetToMemberOffset b"
  shows "a = b"
proof (rule unat_eq_by_page)
  show "unat a div 1636 = unat b div 1636" using assms(1) by (simp add: mx_addresses)
  have "unat a mod 1636 div 4 = unat b mod 1636 div 4 \<and> unat a mod 1636 mod 4 = unat b mod 1636 mod 4"
    using assms(2) unfolding mx_addresses by (subst (asm) group_slots) simp_all
  then show "unat a mod 1636 = unat b mod 1636" by (metis div_mult_mod_eq)
qed

lemma flags_slot_inj:
  assumes "MXOffsetToMemberPage a = MXOffsetToMemberPage b" and "MXOffsetToFlagsOffset a = MXOffsetToFlagsOffset b"
    and "MXOffsetToFlagsBitShift a = MXOffsetToFlagsBitShift b"
  shows "a = b"
proof (rule unat_eq_by_page)
  show "unat a div 1636 = unat b div 1636" using assms(1) by (simp add: mx_addresses)
  have "unat a mod 1636 div 4 = unat b mod 1636 div 4 \<and> unat a mod 1636 mod 4 = unat b mod 1636 mod 4"
    using assms(2,3) unfolding mx_addresses mult_cancel2 by simp
  then show "unat a mod 1636 = unat b mod 1636" by (metis div_mult_mod_eq)
qed

lemma member_not_flags: "MXOffsetToMemberOffset a \<noteq> MXOffsetToFlagsOffset b"
  unfolding mx_addresses by (rule group_slots(2) [where m' = 0]) simp_all

lemma mxact_bitmask: "MXACT_MEMBER_XACT_BITMASK = mask 8" "push_bit MXACT_MEMBER_BITS_PER_XACT 1 - 1 = (mask 8 :: uint32)"
  by (simp_all add: MXACT_MEMBER_XACT_BITMASK_def MXACT_MEMBER_BITS_PER_XACT_def mask_eq_exp_minus_1)

text \<open>Setting the byte of one member in the flags word.\<close>

lemma byte_bits:
  assumes "(status :: uint32) \<le> 255" and "8 \<le> k"
  shows "\<not> bit status k"
proof -
  have "status = take_bit 8 status"
    using assms(1) by (simp add: word_le_nat_alt word_unat_eq_iff unsigned_take_bit_eq take_bit_nat_eq_self)
  with assms(2) show ?thesis by (metis bit_take_bit_iff linorder_not_less)
qed

lemma flags_byte_same:
  fixes f status :: uint32
  assumes "status \<le> 255" and "b + 8 \<le> 32"
  shows "drop_bit b (f AND NOT (push_bit b (mask 8)) OR push_bit b status) AND mask 8 = status"
proof (rule bit_eqI)
  fix n assume "possible_bit TYPE(32 word) n"
  then show "bit (drop_bit b (f AND NOT (push_bit b (mask 8)) OR push_bit b status) AND mask 8) n = bit status n"
    using assms(2) byte_bits [OF assms(1), of n] by (cases "n < 8") (auto simp: bit_simps)
qed

lemma flags_byte_other:
  fixes f status :: uint32
  assumes "status \<le> 255" and "c + 8 \<le> 32" and "b + 8 \<le> c \<or> c + 8 \<le> b"
  shows "drop_bit c (f AND NOT (push_bit b (mask 8)) OR push_bit b status) AND mask 8 = drop_bit c f AND mask 8"
proof (rule bit_eqI)
  fix n assume "possible_bit TYPE(32 word) n"
  have far: "c + n < b \<or> 8 \<le> c + n - b" if "n < 8" using that assms(3) by arith
  then have "\<not> (b \<le> c + n \<and> bit status (c + n - b))" if "n < 8"
    using that byte_bits [OF assms(1), of "c + n - b"] by auto
  with far show "bit (drop_bit c (f AND NOT (push_bit b (mask 8)) OR push_bit b status) AND mask 8) n
      = bit (drop_bit c f AND mask 8) n"
    using assms(2) by (cases "n < 8") (auto simp: bit_simps)
qed

definition write_member :: "MultiXactOffset \<Rightarrow> MultiXactMember \<Rightarrow> MultiXactSlru \<Rightarrow> MultiXactSlru" where
  "write_member off m s = record_members off [m] s"

lemma record_members_Cons: "record_members off (m # ms) s = record_members (off + 1) ms (write_member off m s)"
  by (simp add: write_member_def Let_def)

lemma write_member_offsets: "mxo_buffer (write_member off m s) = mxo_buffer s"
  by (simp add: write_member_def Let_def)

lemma write_member_xid: "slot_xid (write_member off m s) a = (if a = off then mem_xid m else slot_xid s a)"
  using member_slot_inj [of a off] member_not_flags [of a off]
  by (auto simp: write_member_def slot_xid_def Let_def)

lemma write_member_flags:
  "mxm_buffer (write_member off m s) (MXOffsetToMemberPage off) (MXOffsetToFlagsOffset off)
    = mxm_buffer s (MXOffsetToMemberPage off) (MXOffsetToFlagsOffset off)
        AND NOT (push_bit (MXOffsetToFlagsBitShift off) (mask 8)) OR push_bit (MXOffsetToFlagsBitShift off) (mem_status m)"
  unfolding write_member_def record_members.simps Let_def mxact_bitmask(2)
  using member_not_flags [of off off] by simp

lemma write_member_status:
  assumes "mem_status m \<le> 255"
  shows "slot_status (write_member off m s) a = (if a = off then mem_status m else slot_status s a)"
proof (cases "MXOffsetToMemberPage a = MXOffsetToMemberPage off \<and> MXOffsetToFlagsOffset a = MXOffsetToFlagsOffset off")
  case True
  have sh: "MXOffsetToFlagsBitShift x + 8 \<le> 32" for x
    unfolding mx_addresses using mod_less_divisor [of 4 "unat x mod 1636"] by linarith
  show ?thesis
  proof (cases "a = off")
    case True
    then show ?thesis
      unfolding slot_status_def mxact_bitmask(1) by (simp only: write_member_flags flags_byte_same [OF assms sh] if_True simp_thms)
  next
    case False
    have "m' = n \<or> m' * 8 + 8 \<le> n * 8 \<or> n * 8 + 8 \<le> m' * (8 :: nat)" for m' n by arith
    from this [of "unat off mod 1636 mod 4" "unat a mod 1636 mod 4"]
    have "MXOffsetToFlagsBitShift off = MXOffsetToFlagsBitShift a \<or> MXOffsetToFlagsBitShift off + 8 \<le> MXOffsetToFlagsBitShift a
        \<or> MXOffsetToFlagsBitShift a + 8 \<le> MXOffsetToFlagsBitShift off"
      unfolding mx_addresses by auto
    with flags_slot_inj [of a off] False True
    have "MXOffsetToFlagsBitShift off + 8 \<le> MXOffsetToFlagsBitShift a \<or> MXOffsetToFlagsBitShift a + 8 \<le> MXOffsetToFlagsBitShift off"
      by auto
    from flags_byte_other [OF assms sh this] False True show ?thesis
      unfolding slot_status_def mxact_bitmask(1) by (simp only: write_member_flags if_False)
  qed
next
  case False
  then show ?thesis
    using member_not_flags [of off a] by (auto simp: write_member_def slot_status_def Let_def)
qed

subsection \<open>Writing and reading a range of slots\<close>

lemma unat_pred:
  fixes x :: uint32
  assumes "x \<noteq> 0"
  shows "unat (x - 1) = unat x - 1"
  using assms unat_minus_one by blast

lemma unat_diff_Suc:
  fixes a off :: uint32
  shows "unat (a - (off + 1)) = (if a = off then 2 ^ 32 - 1 else unat (a - off) - 1)"
proof (cases "a = off")
  case True
  then have "a - (off + 1) = - 1" by simp
  with True show ?thesis by (simp add: unsigned_minus_1_eq_mask mask_eq_exp_minus_1)
next
  case False
  then have "unat (a - off - 1) = unat (a - off) - 1" by (intro unat_pred) simp
  then show ?thesis using False by (simp add: diff_diff_eq)
qed

lemma record_members_slots:
  assumes "length ms \<le> 2 ^ 32"
  shows "slot_xid (record_members off ms s) a
      = (if unat (a - off) < length ms then mem_xid (ms ! unat (a - off)) else slot_xid s a)" (is ?xid)
    and "\<forall>m \<in> set ms. mem_status m \<le> 255 \<Longrightarrow> slot_status (record_members off ms s) a
      = (if unat (a - off) < length ms then mem_status (ms ! unat (a - off)) else slot_status s a)" (is "_ \<Longrightarrow> ?status")
proof -
  have "?xid \<and> ((\<forall>m \<in> set ms. mem_status m \<le> 255) \<longrightarrow> ?status)"
    using assms
  proof (induction ms arbitrary: off s)
    case Nil
    then show ?case by simp
  next
    case (Cons m ms)
    note IH = Cons.IH [of "off + 1" "write_member off m s"]
    show ?case
    proof (cases "a = off")
      case True
      then show ?thesis
        using IH Cons.prems unfolding record_members_Cons unat_diff_Suc
        by (auto simp: write_member_xid write_member_status)
    next
      case False
      then have "unat (a - off) \<noteq> 0" by (simp add: unat_eq_0)
      then obtain k where k: "unat (a - off) = Suc k" by (cases "unat (a - off)") auto
      show ?thesis
        using IH Cons.prems False unfolding record_members_Cons unat_diff_Suc k
        by (auto simp: write_member_xid write_member_status)
    qed
  qed
  then show ?xid and "\<forall>m \<in> set ms. mem_status m \<le> 255 \<Longrightarrow> ?status" by auto
qed

lemma record_members_offsets: "mxo_buffer (record_members off ms s) = mxo_buffer s"
proof (induction ms arbitrary: off s)
  case (Cons m ms)
  then show ?case by (simp only: record_members_Cons write_member_offsets)
qed simp

text \<open>The members a list describes are in the slots from an offset on.\<close>

definition members_at :: "MultiXactSlru \<Rightarrow> MultiXactOffset \<Rightarrow> MultiXactMember list \<Rightarrow> bool" where
  "members_at s off ms \<longleftrightarrow> (\<forall>i < length ms. slot_xid s (off + of_nat i) = mem_xid (ms ! i)
     \<and> slot_status s (off + of_nat i) = mem_status (ms ! i))"

definition member_ok :: "MultiXactMember \<Rightarrow> bool" where
  "member_ok m \<longleftrightarrow> TransactionIdIsValid (mem_xid m) \<and> mem_status m \<le> MultiXactStatusUpdate"

lemma member_ok_status: "member_ok m \<Longrightarrow> mem_status m \<le> 255"
  by (simp add: member_ok_def MultiXactStatusUpdate_def word_le_nat_alt)

lemma record_members_at:
  assumes "length ms \<le> 2 ^ 32" and "\<forall>m \<in> set ms. member_ok m"
  shows "members_at (record_members off ms s) off ms"
  unfolding members_at_def
proof (intro allI impI)
  fix i assume i: "i < length ms"
  with assms(1) have "unat (of_nat i :: uint32) = i" by (simp add: unsigned_of_nat take_bit_nat_eq_self)
  then show "slot_xid (record_members off ms s) (off + of_nat i) = mem_xid (ms ! i)
      \<and> slot_status (record_members off ms s) (off + of_nat i) = mem_status (ms ! i)"
    using i assms member_ok_status by (simp add: record_members_slots)
qed

lemma RecordNewMultiXact_slots:
  assumes "length ms \<le> 2 ^ 32" and "\<forall>m \<in> set ms. member_ok m"
  shows "slot_xid (RecordNewMultiXact multi off ms s) a
      = (if unat (a - off) < length ms then mem_xid (ms ! unat (a - off)) else slot_xid s a)"
    and "slot_status (RecordNewMultiXact multi off ms s) a
      = (if unat (a - off) < length ms then mem_status (ms ! unat (a - off)) else slot_status s a)"
    and "members_at (RecordNewMultiXact multi off ms s) off ms"
proof -
  let ?s = "s\<lparr>mxo_buffer := (mxo_buffer s)(MultiXactIdToOffsetPage multi := (mxo_buffer s (MultiXactIdToOffsetPage multi))
                (MultiXactIdToOffsetEntry multi := off)), mxo_dirty := (mxo_dirty s)(MultiXactIdToOffsetPage multi := True)\<rparr>"
  have r: "RecordNewMultiXact multi off ms s = record_members off ms ?s" by (simp add: RecordNewMultiXact_def Let_def)
  have sl: "slot_xid ?s a = slot_xid s a" "slot_status ?s a = slot_status s a" by (simp_all add: slot_xid_def slot_status_def)
  have ok: "\<forall>m \<in> set ms. mem_status m \<le> 255" using assms(2) member_ok_status by blast
  show "slot_xid (RecordNewMultiXact multi off ms s) a
      = (if unat (a - off) < length ms then mem_xid (ms ! unat (a - off)) else slot_xid s a)"
    unfolding r record_members_slots(1) [OF assms(1)] sl ..
  show "slot_status (RecordNewMultiXact multi off ms s) a
      = (if unat (a - off) < length ms then mem_status (ms ! unat (a - off)) else slot_status s a)"
    unfolding r record_members_slots(2) [OF assms(1) ok] sl ..
  show "members_at (RecordNewMultiXact multi off ms s) off ms"
    unfolding r by (rule record_members_at [OF assms])
qed

lemma read_members_add:
  "read_members s off (m + n) = read_members s off m @ read_members s (off + of_nat m) n"
  by (induction m arbitrary: off) (simp_all add: Let_def add.assoc)

lemma read_members_Suc:
  "read_members s off (Suc n) =
     (if TransactionIdIsValid (slot_xid s off) then [\<lparr>mem_xid = slot_xid s off, mem_status = slot_status s off\<rparr>] else [])
     @ read_members s (off + 1) n"
  by (simp add: Let_def slot_xid_def slot_status_def)

lemma read_members_at:
  assumes "members_at s off ms" and "\<forall>m \<in> set ms. member_ok m"
  shows "read_members s off (length ms) = ms"
  using assms
proof (induction ms arbitrary: off)
  case (Cons m ms)
  have "members_at s (off + 1) ms"
    unfolding members_at_def
  proof (intro allI impI)
    fix i assume "i < length ms"
    then show "slot_xid s (off + 1 + of_nat i) = mem_xid (ms ! i) \<and> slot_status s (off + 1 + of_nat i) = mem_status (ms ! i)"
      using Cons.prems(1) [unfolded members_at_def, rule_format, of "Suc i"] by (simp add: add_ac)
  qed
  moreover have "slot_xid s off = mem_xid m" "slot_status s off = mem_status m"
    using Cons.prems(1) [unfolded members_at_def, rule_format, of 0] by simp_all
  ultimately show ?case
    using Cons unfolding list.size(4) add_Suc_right add_0_right
    by (simp only: read_members_Suc) (simp add: member_ok_def)
qed simp

text \<open>An unused slot after the members is passed over.\<close>

lemma read_members_gap:
  assumes "members_at s off ms" and "\<forall>m \<in> set ms. member_ok m" and "\<not> TransactionIdIsValid (slot_xid s (off + of_nat (length ms)))"
  shows "read_members s off (Suc (length ms)) = ms"
proof -
  have "read_members s off (length ms + Suc 0) = ms @ read_members s (off + of_nat (length ms)) (Suc 0)"
    unfolding read_members_add read_members_at [OF assms(1,2)] ..
  also have "read_members s (off + of_nat (length ms)) (Suc 0) = []" using assms(3) by (simp only: read_members_Suc) simp
  finally show ?thesis by simp
qed

subsection \<open>Extending the logs\<close>

lemma first_of_page: "MXOffsetToFlagsOffset off = 0 \<and> MXOffsetToFlagsBitShift off = 0 \<longleftrightarrow> unat off mod 1636 = 0"
proof -
  have "unat off mod 1636 = 0 \<longleftrightarrow> unat off mod 1636 div 4 = 0 \<and> unat off mod 1636 mod 4 = 0"
    by (metis div_0 div_mult_mod_eq mod_0 mult_0 add_0)
  then show ?thesis by (simp only: mx_addresses mult_eq_0_iff) simp
qed

lemma mx_page_rest_bounds: "unat off + unat (mx_page_rest off) \<le> 2 ^ 32 \<and> unat off mod 1636 + unat (mx_page_rest off) \<le> 1636"
proof (cases "2 ^ 32 - 1036 \<le> unat off")
  case True
  have lt: "unat off < 2 ^ 32" using unsigned_less [of off] by simp
  define k where "k = unat off - (2 ^ 32 - 1036)"
  have k: "unat off = 2625285 * 1636 + k" "k < 1036" using True lt by (auto simp: k_def)
  from k(2) have "k mod 1636 = k" by simp
  then have "unat off mod 1636 = k" unfolding k(1) by (simp only: mod_mult_self3)
  then show ?thesis using True lt k by (simp add: mx_page_rest_unat)
next
  case False
  define q where "q = unat off div 1636"
  define r where "r = unat off mod 1636"
  have qr: "unat off = q * 1636 + r" unfolding q_def r_def by (simp only: div_mult_mod_eq)
  have r: "r < 1636" by (simp add: r_def)
  have "q * 1636 < 2625285 * 1636" using False qr by simp
  then have "q \<le> 2625284" by simp
  then show ?thesis using False r qr unfolding mx_page_rest_unat r_def [symmetric] by simp
qed

text \<open>Within the rest of a page there is no further first slot.\<close>

lemma no_first_in_page:
  assumes "0 < i" and "i < unat (mx_page_rest off)"
  shows "unat (off + of_nat i) mod 1636 \<noteq> 0"
proof -
  note rest = mx_page_rest_bounds [of off]
  have b: "unat off + i < 2 ^ 32" "unat off mod 1636 + i < 1636"
    by (rule less_le_trans [OF add_strict_left_mono [OF assms(2)] rest [THEN conjunct1]])
      (rule less_le_trans [OF add_strict_left_mono [OF assms(2)] rest [THEN conjunct2]])
  from b(1) have "i < 2 ^ 32" by (rule le_less_trans [OF le_add2])
  then have "unat (of_nat i :: uint32) = i" by (simp add: unsigned_of_nat take_bit_nat_eq_self)
  then have u: "unat (off + of_nat i) = unat off + i" using b(1) by (simp add: unat_word_ariths(1))
  have "(unat off + i) mod 1636 = (unat off mod 1636 + i) mod 1636" by (rule mod_add_left_eq [symmetric])
  also have "\<dots> = unat off mod 1636 + i" by (rule mod_less [OF b(2)])
  finally show ?thesis using assms(1) unfolding u by simp
qed

definition zeroed_pages :: "MultiXactOffset \<Rightarrow> nat \<Rightarrow> nat set" where
  "zeroed_pages off n = {MXOffsetToMemberPage (off + of_nat i) |i. i < n \<and> unat (off + of_nat i) mod 1636 = 0}"

lemma zeroed_pagesI:
  "i < n \<Longrightarrow> a = off + of_nat i \<Longrightarrow> unat a mod 1636 = 0 \<Longrightarrow> MXOffsetToMemberPage a \<in> zeroed_pages off n"
  unfolding zeroed_pages_def by (intro CollectI exI [of _ i] conjI) simp_all

lemma zeroed_pagesE:
  assumes "p \<in> zeroed_pages off n"
  obtains i a where "i < n" "a = off + of_nat i" "unat a mod 1636 = 0" "p = MXOffsetToMemberPage a"
  using assms that unfolding zeroed_pages_def by (elim CollectE exE conjE) simp

lemma zeroed_pages_later:
  assumes "p \<in> zeroed_pages (off + mx_page_rest off) (n - unat (mx_page_rest off))"
  shows "p \<in> zeroed_pages off n"
proof -
  obtain j a where j: "j < n - unat (mx_page_rest off)" "a = off + mx_page_rest off + of_nat j"
    "unat a mod 1636 = 0" "p = MXOffsetToMemberPage a" using assms by (rule zeroed_pagesE)
  have e: "a = off + of_nat (unat (mx_page_rest off) + j)" unfolding j(2) by simp
  have "unat (mx_page_rest off) + j < n" using j(1) by (simp add: less_diff_conv add.commute)
  from zeroed_pagesI [OF this e j(3)] show ?thesis unfolding j(4) .
qed

lemma zeroed_pages_first:
  assumes "p \<in> zeroed_pages off n"
  shows "unat off mod 1636 = 0 \<and> p = MXOffsetToMemberPage off
    \<or> p \<in> zeroed_pages (off + mx_page_rest off) (n - unat (mx_page_rest off))"
proof -
  obtain i a where i: "i < n" "a = off + of_nat i" "unat a mod 1636 = 0" and p: "p = MXOffsetToMemberPage a"
    using assms by (rule zeroed_pagesE)
  show ?thesis
  proof (cases "i < unat (mx_page_rest off)")
    case True
    with no_first_in_page [of i off] i(2,3) have "i = 0" by (cases "0 < i") simp_all
    then have "a = off" using i(2) by simp
    then show ?thesis using i(3) p by blast
  next
    case False
    define j where "j = i - unat (mx_page_rest off)"
    have ij: "i = unat (mx_page_rest off) + j" using False by (simp add: j_def)
    have e: "a = off + mx_page_rest off + of_nat j" unfolding i(2) ij by simp
    have "j < n - unat (mx_page_rest off)" using i(1) unfolding ij by (simp add: less_diff_conv add.commute)
    from zeroed_pagesI [OF this e i(3)] show ?thesis unfolding p ..
  qed
qed

lemma zeroed_pages_step:
  assumes "0 < n"
  shows "p \<in> zeroed_pages off n \<longleftrightarrow> unat off mod 1636 = 0 \<and> p = MXOffsetToMemberPage off
    \<or> p \<in> zeroed_pages (off + mx_page_rest off) (n - unat (mx_page_rest off))"
proof
  assume "p \<in> zeroed_pages off n"
  then show "unat off mod 1636 = 0 \<and> p = MXOffsetToMemberPage off
    \<or> p \<in> zeroed_pages (off + mx_page_rest off) (n - unat (mx_page_rest off))" by (rule zeroed_pages_first)
next
  assume "unat off mod 1636 = 0 \<and> p = MXOffsetToMemberPage off
    \<or> p \<in> zeroed_pages (off + mx_page_rest off) (n - unat (mx_page_rest off))"
  then show "p \<in> zeroed_pages off n"
  proof
    assume "unat off mod 1636 = 0 \<and> p = MXOffsetToMemberPage off"
    with zeroed_pagesI [OF assms, of off off] show ?thesis by simp
  qed (rule zeroed_pages_later)
qed

declare ExtendMultiXactMember.simps [simp del]

lemma ExtendMultiXactMember_step:
  "0 < n \<Longrightarrow> snd (ExtendMultiXactMember off n s)
     = snd (ExtendMultiXactMember (off + mx_page_rest off) (n - unat (mx_page_rest off))
         (if unat off mod 1636 = 0 then ZeroMultiXactMemberPage (MXOffsetToMemberPage off) s else s))"
  by (subst ExtendMultiXactMember.simps) (simp add: first_of_page case_prod_beta Let_def)

lemma ExtendMultiXactMember_frame:
  "mxm_buffer (snd (ExtendMultiXactMember off n s)) p = (if p \<in> zeroed_pages off n then (\<lambda>_. 0) else mxm_buffer s p)
   \<and> mxo_buffer (snd (ExtendMultiXactMember off n s)) = mxo_buffer s"
proof (induction n arbitrary: off s rule: less_induct)
  case (less n)
  show ?case
  proof (cases "0 < n")
    case False
    then show ?thesis by (simp add: zeroed_pages_def ExtendMultiXactMember.simps)
  next
    case True
    then have lt: "n - unat (mx_page_rest off) < n" using mx_page_rest_positive [of off] by simp
    show ?thesis unfolding ExtendMultiXactMember_step [OF True] zeroed_pages_step [OF True, of p off]
      using less.IH [OF lt, of "off + mx_page_rest off"
          "if unat off mod 1636 = 0 then ZeroMultiXactMemberPage (MXOffsetToMemberPage off) s else s"]
      by (simp add: ZeroMultiXactMemberPage_def)
  qed
qed

end
