(* ===== verification/MultiXactRuns.thy ===== *)
theory MultiXactRuns
  imports MultiXactLog "HOL-Library.Multiset"
begin

section \<open>Runs of multixact operations\<close>

text \<open>
  Backends reserve multixacts, write them and move the oldest one forward in any order. The ids and
  offsets of a run are counted in natural numbers that never wrap, of which the code keeps the last
  32 bits; zero is skipped by both counters. The invariant of a run describes both logs in terms of the list
  of multixacts that exist, and gives that every multixact is read back as it was written.
\<close>

subsection \<open>Counters that skip zero\<close>

definition skip0 :: "nat \<Rightarrow> nat" where
  "skip0 n = (if n mod 2 ^ 32 = 0 then n + 1 else n)"

lemma skip0_bounds: "n \<le> skip0 n" "skip0 n \<le> n + 1"
  by (simp_all add: skip0_def)

lemma of_nat_uint32_eq: "(of_nat a :: uint32) = of_nat b \<longleftrightarrow> a mod 2 ^ 32 = b mod 2 ^ 32"
  by (simp add: word_of_nat_eq_iff take_bit_eq_mod)

lemma unat_of_nat_uint32: "unat (of_nat a :: uint32) = a mod 2 ^ 32"
  by (simp add: unsigned_of_nat take_bit_eq_mod)

lemma of_nat_diff_uint32:
  assumes "a \<le> b"
  shows "of_nat b - of_nat a = (of_nat (b - a) :: uint32)"
  using assms by (simp add: of_nat_diff)

lemma unat_distance:
  assumes "a \<le> b" and "b < a + 2 ^ 32"
  shows "unat (of_nat b - of_nat a :: uint32) = b - a"
proof -
  have "b - a < 2 ^ 32" using assms by linarith
  then show ?thesis unfolding of_nat_diff_uint32 [OF assms(1)] unat_of_nat_uint32 by (rule mod_less)
qed

lemma of_nat_window_inj:
  assumes "(of_nat a :: uint32) = of_nat b" and "a \<le> b" and "b < a + 2 ^ 32"
  shows "a = b"
  using unat_distance [OF assms(2,3)] assms(1,2) by simp

lemma of_nat_window_inj':
  assumes "(of_nat a :: uint32) = of_nat b" and "a \<in> {l ..< u}" and "b \<in> {l ..< u}" and "u \<le> l + 2 ^ 32"
  shows "a = b"
proof (cases "a \<le> b")
  case True
  with assms of_nat_window_inj [of a b] show ?thesis by auto
next
  case False
  with assms of_nat_window_inj [of b a] show ?thesis by auto
qed

lemma skip0_nonzero: "(of_nat (skip0 n) :: uint32) \<noteq> 0"
proof (cases "n mod 2 ^ 32 = 0")
  case True
  have "unat (of_nat (n + 1) :: uint32) = (n mod 2 ^ 32 + 1) mod 2 ^ 32"
    unfolding unat_of_nat_uint32 by (rule mod_add_left_eq [symmetric])
  also have "\<dots> = 1" unfolding True by simp
  finally have "unat (of_nat (n + 1) :: uint32) \<noteq> 0" by simp
  then show ?thesis unfolding skip0_def if_P [OF True] by (metis unsigned_0)
next
  case False
  then have "unat (of_nat n :: uint32) \<noteq> 0" unfolding unat_of_nat_uint32 .
  then show ?thesis unfolding skip0_def if_not_P [OF False] by (metis unsigned_0)
qed

lemma of_nat_zero_iff: "(of_nat n :: uint32) = 0 \<longleftrightarrow> n mod 2 ^ 32 = 0"
  using of_nat_uint32_eq [of n 0] by simp

lemma skip0_word: "(of_nat (skip0 n) :: uint32) = (if of_nat n = (0 :: uint32) then 1 else of_nat n)"
  unfolding of_nat_zero_iff skip0_def using of_nat_zero_iff [of n] by auto

lemma valid_next_word: "valid_next (of_nat n) = of_nat (skip0 n)"
proof -
  have "(of_nat n :: uint32) < 1 \<longleftrightarrow> of_nat n = (0 :: uint32)" by (metis word_less_1)
  then show ?thesis unfolding skip0_word valid_next_def FirstMultiXactId_def by simp
qed

lemma skip0_changed: "n \<noteq> skip0 n \<Longrightarrow> (of_nat n :: uint32) = 0"
  unfolding of_nat_zero_iff skip0_def by (simp only: split: if_splits)

lemma skip0_idem: "skip0 (skip0 n) = skip0 n"
  using skip0_nonzero [of n] unfolding of_nat_zero_iff by (simp only: skip0_def [of "skip0 n"] if_False)

lemma skip0_mono: "a \<le> b \<Longrightarrow> skip0 a \<le> skip0 b"
  using skip0_bounds [of a] skip0_bounds [of b] by (cases "a = b") auto

subsection \<open>Running out of member space\<close>

lemma MultiXactOffsetWouldWrap_iff:
  assumes "start \<noteq> boundary" and "unat distance < 2 ^ 32 - 1"
  shows "MultiXactOffsetWouldWrap boundary start distance \<longleftrightarrow>
    unat (boundary - start) \<le> unat distance + (if unat start + unat distance < 2 ^ 32 then 0 else 1)"
proof -
  have lt: "unat start < 2 ^ 32" "unat boundary < 2 ^ 32" using unsigned_less [of start] unsigned_less [of boundary] by simp_all
  have ne: "unat start \<noteq> unat boundary" using assms(1) by (simp add: word_unat_eq_iff)
  have gap: "unat (boundary - start)
      = (if unat start < unat boundary then unat boundary - unat start else 2 ^ 32 + unat boundary - unat start)"
    using ne unat_sub_if_size [of boundary start] by (auto simp: word_size)
  show ?thesis
  proof (cases "unat start + unat distance < 2 ^ 32")
    case True
    then have "unat (start + distance) = unat start + unat distance" by (simp add: unat_word_ariths(1))
    then show ?thesis
      unfolding MultiXactOffsetWouldWrap_def Let_def gap word_less_nat_alt word_le_nat_alt using True lt ne by auto
  next
    case False
    then have m: "(unat start + unat distance) mod 2 ^ 32 = unat start + unat distance - 2 ^ 32"
      using lt assms(2) by (simp add: mod_if)
    then have u: "unat (start + distance) = unat start + unat distance - 2 ^ 32" by (simp add: unat_word_ariths(1))
    have "unat (start + distance + 1) = unat start + unat distance - 2 ^ 32 + 1"
      using u False lt assms(2) by (simp add: unat_word_ariths(1) [of "start + distance"])
    then show ?thesis
      unfolding MultiXactOffsetWouldWrap_def Let_def gap word_less_nat_alt word_le_nat_alt using u False lt ne assms(2) by auto
  qed
qed

text \<open>
  C36: the exact answer of \<open>MultiXactOffsetWouldWrap\<close>. A range that passes the end of the circle of offsets
  takes one slot more, for the offset zero. The answer is yes if the slots taken reach the boundary, with two
  exceptions where it is always no: a range that starts at the boundary, and one whose slots fill
  the whole circle.
\<close>

theorem MultiXactOffsetWouldWrap_exact:
  "MultiXactOffsetWouldWrap boundary start distance \<longleftrightarrow>
    (let slots = unat distance + (if unat start + unat distance < 2 ^ 32 then 0 else 1)
     in start \<noteq> boundary \<and> slots < 2 ^ 32 \<and> unat (boundary - start) \<le> slots)"
proof (cases "start = boundary")
  case True
  then show ?thesis by (auto simp: MultiXactOffsetWouldWrap_def Let_def)
next
  case False
  have lt: "unat start < 2 ^ 32" "unat distance < 2 ^ 32" using unsigned_less [of start] unsigned_less [of distance] by simp_all
  show ?thesis
  proof (cases "unat distance = 2 ^ 32 - 1 \<and> unat start \<noteq> 0")
    case True
    have "distance = - 1" using True by (simp add: word_unat_eq_iff unsigned_minus_1_eq_mask mask_eq_exp_minus_1)
    then have "start + distance = start - 1" by simp
    moreover have "start - 1 < start" using True by unat_arith
    ultimately show ?thesis using True lt by (auto simp: MultiXactOffsetWouldWrap_def Let_def)
  next
    case small: False
    show ?thesis
    proof (cases "unat distance = 2 ^ 32 - 1")
      case True
      then have s: "start = 0" using small by (simp add: unat_eq_0)
      have "0 < boundary" using False s by (simp add: word_neq_0_conv)
      moreover have "distance = - 1" using True by (simp add: word_unat_eq_iff unsigned_minus_1_eq_mask mask_eq_exp_minus_1)
      moreover have "boundary \<le> - 1" by simp
      moreover have "unat boundary < 2 ^ 32" using unsigned_less [of boundary] by simp
      then have "unat boundary \<le> 2 ^ 32 - 1" by linarith
      ultimately show ?thesis using False True by (simp add: MultiXactOffsetWouldWrap_def Let_def s)
    next
      case False
      with lt have d: "unat distance < 2 ^ 32 - 1" by simp
      then show ?thesis unfolding MultiXactOffsetWouldWrap_iff [OF \<open>start \<noteq> boundary\<close> d] Let_def
        using \<open>start \<noteq> boundary\<close> by auto
    qed
  qed
qed

subsection \<open>The multixacts of a run\<close>

text \<open>
  A multixact is given by the values of the two counters when it was reserved, and its members. Its id and
  its offset are those values with zero skipped.
\<close>

type_synonym mx_entry = "nat \<times> nat \<times> MultiXactMember list"

definition mx_multi :: "mx_entry \<Rightarrow> MultiXactId" where
  "mx_multi e = of_nat (skip0 (fst e))"

definition mx_offset :: "mx_entry \<Rightarrow> MultiXactOffset" where
  "mx_offset e = of_nat (skip0 (fst (snd e)))"

abbreviation mx_members :: "mx_entry \<Rightarrow> MultiXactMember list" where
  "mx_members e \<equiv> snd (snd e)"

fun linked :: "nat \<Rightarrow> nat \<Rightarrow> mx_entry list \<Rightarrow> bool" where
  "linked v p [] = True" |
  "linked v p (e # es) = (fst e = v \<and> fst (snd e) = p \<and> mx_members e \<noteq> [] \<and> length (mx_members e) < 2 ^ 31 - 1
     \<and> (\<forall>m \<in> set (mx_members e). member_ok m) \<and> linked (skip0 v + 1) (skip0 p + length (mx_members e)) es)"

fun mx_end :: "nat \<Rightarrow> nat \<Rightarrow> mx_entry list \<Rightarrow> nat \<times> nat" where
  "mx_end v p [] = (v, p)" |
  "mx_end v p (e # es) = mx_end (skip0 v + 1) (skip0 p + length (mx_members e)) es"

lemma linked_append:
  "linked v p (xs @ ys) \<longleftrightarrow> linked v p xs \<and> linked (fst (mx_end v p xs)) (snd (mx_end v p xs)) ys"
  by (induction xs arbitrary: v p) auto

lemma mx_end_append: "mx_end v p (xs @ ys) = mx_end (fst (mx_end v p xs)) (snd (mx_end v p xs)) ys"
  by (induction xs arbitrary: v p) auto

lemma mx_end_mono: "v \<le> fst (mx_end v p xs) \<and> p \<le> snd (mx_end v p xs)"
proof (induction xs arbitrary: v p)
  case (Cons e xs)
  have "v \<le> skip0 v + 1" "p \<le> skip0 p + length (mx_members e)" using skip0_bounds(1) [of v] skip0_bounds(1) [of p] by simp_all
  with Cons [of "skip0 v + 1" "skip0 p + length (mx_members e)"] show ?case by (auto intro: le_trans)
qed simp

text \<open>The range of counter values that an entry takes up lies between the ends of the list.\<close>

lemma linked_range:
  assumes "linked v p es" and "e \<in> set es"
  shows "v \<le> fst e \<and> skip0 (fst e) < fst (mx_end v p es) \<and> p \<le> fst (snd e)
    \<and> skip0 (fst (snd e)) + length (mx_members e) \<le> snd (mx_end v p es)"
    and "mx_members e \<noteq> []" and "length (mx_members e) < 2 ^ 31 - 1" and "\<forall>m \<in> set (mx_members e). member_ok m"
proof -
  obtain xs ys where es: "es = xs @ e # ys" using assms(2) by (meson split_list)
  define w q where wq: "w = fst (mx_end v p xs)" "q = snd (mx_end v p xs)"
  have l: "linked w q (e # ys)" using assms(1) unfolding es linked_append wq by blast
  then have e: "fst e = w" "fst (snd e) = q" by simp_all
  have b: "v \<le> w" "p \<le> q" using mx_end_mono [of v p xs] unfolding wq by simp_all
  have "skip0 w + 1 \<le> fst (mx_end v p es) \<and> skip0 q + length (mx_members e) \<le> snd (mx_end v p es)"
    unfolding es mx_end_append wq [symmetric] mx_end.simps by (rule mx_end_mono)
  then show "v \<le> fst e \<and> skip0 (fst e) < fst (mx_end v p es) \<and> p \<le> fst (snd e)
    \<and> skip0 (fst (snd e)) + length (mx_members e) \<le> snd (mx_end v p es)"
    unfolding e using b by simp
  show "mx_members e \<noteq> []" "length (mx_members e) < 2 ^ 31 - 1" "\<forall>m \<in> set (mx_members e). member_ok m"
    using l by simp_all
qed

text \<open>Two different entries take up different ranges.\<close>

definition mx_before :: "mx_entry \<Rightarrow> mx_entry \<Rightarrow> bool" where
  "mx_before d e \<longleftrightarrow> skip0 (fst d) < fst e \<and> skip0 (fst (snd d)) + length (mx_members d) \<le> fst (snd e)"

lemma linked_order:
  assumes "linked v p es" and "d \<in> set es" and "e \<in> set es"
  shows "d = e \<or> mx_before d e \<or> mx_before e d"
  using assms
proof (induction es arbitrary: v p)
  case (Cons x xs)
  have later: "mx_before x y" if "y \<in> set xs" for y
    using linked_range(1) [of "skip0 v + 1" "skip0 p + length (mx_members x)" xs y] that Cons.prems(1)
    by (auto simp: mx_before_def)
  have tail: "linked (skip0 v + 1) (skip0 p + length (mx_members x)) xs" using Cons.prems(1) by simp
  show ?case
    using Cons.prems(2,3) Cons.IH [OF tail] later by (metis set_ConsD)
qed simp

subsection \<open>What the logs hold\<close>

text \<open>
  The offsets log has the offset of every multixact that has been written and zero for one that is only
  reserved; the members of a written multixact are in their slots, and a skipped slot zero is empty.
\<close>

definition stored :: "MultiXactSlru \<Rightarrow> mx_entry set \<Rightarrow> mx_entry \<Rightarrow> bool" where
  "stored s pend e \<longleftrightarrow>
     (fst (snd e) \<noteq> skip0 (fst (snd e)) \<longrightarrow> slot_xid s (of_nat (fst (snd e))) = 0)
     \<and> (if e \<in> pend then offset_entry s (mx_multi e) = 0
        else offset_entry s (mx_multi e) = mx_offset e \<and> members_at s (mx_offset e) (mx_members e))"

text \<open>The offsets after the next multixact on its page are zero, unless the page is yet to be started.\<close>

definition fresh_offsets :: "nat \<Rightarrow> MultiXactSlru \<Rightarrow> bool" where
  "fresh_offsets V s \<longleftrightarrow> V mod 2048 = 0 \<or> (of_nat V :: uint32) = 1
     \<or> (\<forall>u \<ge> V. u div 2048 = V div 2048 \<longrightarrow> offset_entry s (of_nat u) = 0)"

definition segment_start :: "nat \<Rightarrow> nat" where
  "segment_start p = p - p mod 2 ^ 32 mod 52352"

text \<open>The first value of the offset counter that is refused when the oldest multixact starts at \<open>p\<close>.\<close>

definition stop_at :: "nat \<Rightarrow> nat" where
  "stop_at p = segment_start p + 2 ^ 32 - 52352"

definition id_limits :: "nat \<Rightarrow> MultiXactStateData \<Rightarrow> bool" where
  "id_limits v0 st \<longleftrightarrow> unat (multiVacLimit st - of_nat (skip0 v0)) \<le> 2000000001
     \<and> unat (multiStopLimit st - of_nat (skip0 v0)) \<le> 2144483648"

definition mx_inv :: "nat \<Rightarrow> nat \<Rightarrow> mx_entry list \<Rightarrow> mx_entry set \<Rightarrow> nat \<Rightarrow> MultiXactStateData \<Rightarrow> bool" where
  "mx_inv v0 p0 es pend V st \<longleftrightarrow>
     linked v0 p0 es \<and> pend \<subseteq> set es
     \<and> V \<in> {fst (mx_end v0 p0 es), skip0 (fst (mx_end v0 p0 es))} \<and> skip0 v0 \<le> V \<and> skip0 V < skip0 v0 + 2 ^ 31 - 1
     \<and> snd (mx_end v0 p0 es) < stop_at p0
     \<and> nextMXact st = of_nat V \<and> nextOffset st = of_nat (snd (mx_end v0 p0 es))
     \<and> oldestMultiXactId st = of_nat (skip0 v0)
     \<and> oldestOffsetKnown st \<and> offsetStopLimit st = of_nat (stop_at p0) \<and> id_limits v0 st \<and> finishedStartup st
     \<and> (\<forall>e \<in> set es. stored (mx_slru st) pend e) \<and> fresh_offsets V (mx_slru st)"

lemma stop_at_bounds: "p + 2 ^ 32 - 2 * 52352 < stop_at p" "stop_at p + 52352 \<le> p + 2 ^ 32"
proof -
  have "p mod 2 ^ 32 mod 52352 < 52352" by simp
  moreover have "p mod 2 ^ 32 mod 52352 \<le> p" by (meson le_trans mod_less_eq_dividend)
  ultimately show "p + 2 ^ 32 - 2 * 52352 < stop_at p" "stop_at p + 52352 \<le> p + 2 ^ 32"
    unfolding stop_at_def segment_start_def by simp_all
qed

subsection \<open>The offsets log\<close>

lemma mx_offset_page:
  "MultiXactIdToOffsetPage (of_nat n) = n mod 2 ^ 32 div 2048" "MultiXactIdToOffsetEntry (of_nat n) = n mod 2048"
proof -
  have "n mod 2 ^ 32 mod 2048 = n mod 2048" by (simp add: mod_mod_cancel)
  then show "MultiXactIdToOffsetPage (of_nat n) = n mod 2 ^ 32 div 2048" "MultiXactIdToOffsetEntry (of_nat n) = n mod 2048"
    by (simp_all add: MultiXactIdToOffsetPage_def MultiXactIdToOffsetEntry_def MULTIXACT_OFFSETS_PER_PAGE_def BLCKSZ_def
        unat_of_nat_uint32 unsigned_of_nat take_bit_eq_mod)
qed

lemma offset_slot_inj:
  assumes "MultiXactIdToOffsetPage a = MultiXactIdToOffsetPage b" and "MultiXactIdToOffsetEntry a = MultiXactIdToOffsetEntry b"
  shows "a = b"
  using assms unfolding MultiXactIdToOffsetPage_def MultiXactIdToOffsetEntry_def
  by (metis div_mult_mod_eq word_unat_eq_iff)

lemma offset_entry_record:
  "offset_entry (RecordNewMultiXact multi off ms s) a = (if a = multi then off else offset_entry s a)"
  using offset_slot_inj [of a multi]
  by (auto simp: RecordNewMultiXact_def Let_def offset_entry_def record_members_offsets)

lemma div_mod_page: "n mod 2 ^ 32 div 2048 = n div 2048 mod (2 ^ 21 :: nat)"
  using mod_mult2_eq [of n 2048 "2 ^ 21"] by simp

lemma same_div_near:
  fixes u v :: nat
  assumes "u div 2048 = v div 2048"
  shows "u < v + 2048"
proof -
  note d = div_mult_mod_eq [of u 2048, symmetric, unfolded assms] div_mult_mod_eq [of v 2048, symmetric]
  have "u mod 2048 < 2048" by simp
  with d show ?thesis by linarith
qed

text \<open>Two values less than \<open>2 ^ 32 - 2048\<close> apart are on the same page of the log only if they have the same page.\<close>

lemma same_offset_page:
  assumes "MultiXactIdToOffsetPage (of_nat a) = MultiXactIdToOffsetPage (of_nat b)" and "a \<le> b" and "b < a + 2 ^ 32 - 2048"
  shows "a div 2048 = b div 2048"
proof -
  have m: "a div 2048 mod 2 ^ 21 = b div 2048 mod 2 ^ 21" using assms(1) unfolding mx_offset_page div_mod_page .
  have le: "a div 2048 \<le> b div 2048" using assms(2) by (rule div_le_mono)
  have "a + 2 ^ 32 - 2048 \<le> a + (2 ^ 21 - 1) * 2048" by simp
  then have "b div 2048 \<le> (a + (2 ^ 21 - 1) * 2048) div 2048" using assms(3) by (intro div_le_mono) simp
  also have "\<dots> = 2 ^ 21 - 1 + a div 2048" by (rule div_mult_self1) simp
  finally have lt: "b div 2048 - a div 2048 < 2 ^ 21" by simp
  from m le have "(b div 2048 - a div 2048) mod 2 ^ 21 = 0" using mod_eq_dvd_iff_nat [of "a div 2048" "b div 2048" "2 ^ 21"] by auto
  with lt have "b div 2048 - a div 2048 = 0" by (simp only: mod_less)
  with le show ?thesis by simp
qed

text \<open>A page is only started by its first id, so that no earlier id is on it.\<close>

lemma started_page:
  assumes "V mod 2048 = 0 \<or> (of_nat V :: uint32) = 1" and "w < V" and "w mod 2 ^ 32 \<noteq> 0"
  shows "w div 2048 \<noteq> V div 2048"
proof
  assume eq: "w div 2048 = V div 2048"
  note V = div_mult_mod_eq [of V 2048, symmetric] div_mult_mod_eq [of w 2048, symmetric, unfolded eq]
  with assms(2) have lt: "w mod 2048 < V mod 2048" by linarith
  with assms(1) have "(of_nat V :: uint32) = of_nat 1" by auto
  then have one: "V mod 2 ^ 32 = 1" unfolding of_nat_uint32_eq by simp
  have "V mod 2048 = V mod 2 ^ 32 mod 2048" by (simp add: mod_mod_cancel)
  then have "V mod 2048 = 1" unfolding one by simp
  with lt V have "V = w + 1" by linarith
  with one have "(w + 1) mod 2 ^ 32 = 1" by simp
  moreover have "(w mod 2 ^ 32 + 1) mod 2 ^ 32 = (w + 1) mod 2 ^ 32" by (rule mod_add_left_eq)
  ultimately have "(w mod 2 ^ 32 + 1) mod 2 ^ 32 = 1" by simp
  moreover have "w mod 2 ^ 32 < 2 ^ 32" by simp
  ultimately show False using assms(3) by (cases "w mod 2 ^ 32 + 1 = 2 ^ 32") simp_all
qed

lemma ExtendMultiXactOffset_entries:
  assumes "fresh_offsets V s" and "s' = snd (ExtendMultiXactOffset (of_nat V) s)"
  shows "mxm_buffer s' = mxm_buffer s"
    and "w < V \<Longrightarrow> V < w + 2 ^ 32 - 2048 \<Longrightarrow> w mod 2 ^ 32 \<noteq> 0 \<Longrightarrow> offset_entry s' (of_nat w) = offset_entry s (of_nat w)"
    and "V \<le> u \<Longrightarrow> u div 2048 = V div 2048 \<Longrightarrow> offset_entry s' (of_nat u) = 0"
proof -
  show "mxm_buffer s' = mxm_buffer s"
    unfolding assms(2) by (simp add: ExtendMultiXactOffset_def ZeroMultiXactOffsetPage_def)
  define start where "start \<longleftrightarrow> V mod 2048 = 0 \<or> (of_nat V :: uint32) = 1"
  have s': "s' = (if start then ZeroMultiXactOffsetPage (MultiXactIdToOffsetPage (of_nat V)) s else s)"
    unfolding assms(2) ExtendMultiXactOffset_def mx_offset_page(2) FirstMultiXactId_def start_def by simp
  show "offset_entry s' (of_nat w) = offset_entry s (of_nat w)" if "w < V" "V < w + 2 ^ 32 - 2048" "w mod 2 ^ 32 \<noteq> 0"
  proof (cases start)
    case True
    have "MultiXactIdToOffsetPage (of_nat w) \<noteq> MultiXactIdToOffsetPage (of_nat V)"
      using same_offset_page [of w V] started_page [of V w] True that unfolding start_def by linarith
    then show ?thesis unfolding s' by (simp add: offset_entry_def ZeroMultiXactOffsetPage_def)
  qed (simp add: s')
  show "offset_entry s' (of_nat u) = 0" if "V \<le> u" "u div 2048 = V div 2048"
  proof (cases start)
    case True
    have "MultiXactIdToOffsetPage (of_nat u) = MultiXactIdToOffsetPage (of_nat V)"
      unfolding mx_offset_page div_mod_page that(2) ..
    with True show ?thesis unfolding s' by (simp add: offset_entry_def ZeroMultiXactOffsetPage_def)
  next
    case False
    then show ?thesis using assms(1) that unfolding s' fresh_offsets_def start_def by simp
  qed
qed

subsection \<open>The members log\<close>

lemma page_of_first:
  assumes "MXOffsetToMemberPage a = MXOffsetToMemberPage f" and "unat f mod 1636 = 0"
  obtains k where "k < 1636" and "a = f + of_nat k"
proof -
  have "unat a = unat f + unat a mod 1636"
    using div_mult_mod_eq [of "unat a" 1636] div_mult_mod_eq [of "unat f" 1636] assms unfolding mx_addresses(1) by simp
  then have "of_nat (unat a) = (of_nat (unat f + unat a mod 1636) :: uint32)" by simp
  then have "a = f + of_nat (unat a mod 1636)" by simp
  then show ?thesis by (intro that [of "unat a mod 1636"]) simp_all
qed

text \<open>Starting the pages of a new range does not touch the slots in use, which are before it.\<close>

lemma live_slot_kept:
  assumes "x < p" and "p + n + 1636 \<le> x + 2 ^ 32"
  shows "MXOffsetToMemberPage (of_nat x) \<notin> zeroed_pages (of_nat p) n"
proof
  assume "MXOffsetToMemberPage (of_nat x) \<in> zeroed_pages (of_nat p) n"
  then obtain i a where i: "i < n" "a = of_nat p + of_nat i" "unat a mod 1636 = 0"
    "MXOffsetToMemberPage (of_nat x) = MXOffsetToMemberPage a" by (rule zeroed_pagesE)
  obtain k where k: "k < 1636" "of_nat x = a + of_nat k" using page_of_first [OF i(4,3)] .
  then have "(of_nat x :: uint32) = of_nat (p + i + k)" unfolding i(2) by simp
  moreover have "x \<le> p + i + k" "p + i + k < x + 2 ^ 32" using assms i(1) k(1) by linarith+
  ultimately have "x = p + i + k" by (rule of_nat_window_inj)
  with assms(1) show False by simp
qed

lemma ExtendMultiXactMember_slots:
  assumes "MXOffsetToMemberPage a \<notin> zeroed_pages off n"
  shows "slot_xid (snd (ExtendMultiXactMember off n s)) a = slot_xid s a"
    and "slot_status (snd (ExtendMultiXactMember off n s)) a = slot_status s a"
  using assms ExtendMultiXactMember_frame [of off n s] by (simp_all add: slot_xid_def slot_status_def)

lemma ExtendMultiXactMember_zero:
  assumes "0 < n"
  shows "slot_xid (snd (ExtendMultiXactMember 0 n s)) 0 = 0"
  using zeroed_pagesI [OF assms, of 0 0] ExtendMultiXactMember_frame [of 0 n s] by (simp add: slot_xid_def)

lemma ExtendMultiXactMember_offsets: "offset_entry (snd (ExtendMultiXactMember off n s)) m = offset_entry s m"
  using ExtendMultiXactMember_frame [of off n s] by (simp add: offset_entry_def)

text \<open>An entry stays stored when the slots of its range and its offset stay the same.\<close>

definition mx_range :: "mx_entry \<Rightarrow> nat set" where
  "mx_range e = {fst (snd e) ..< skip0 (fst (snd e)) + length (mx_members e)}"

lemma stored_frame:
  assumes "stored s pend e" and "offset_entry s' (mx_multi e) = offset_entry s (mx_multi e)"
    and "\<And>x. x \<in> mx_range e \<Longrightarrow> slot_xid s' (of_nat x) = slot_xid s (of_nat x) \<and> slot_status s' (of_nat x) = slot_status s (of_nat x)"
    and "e \<in> pend' \<longleftrightarrow> e \<in> pend" and "mx_members e \<noteq> []"
  shows "stored s' pend' e"
proof -
  have m: "members_at s' (mx_offset e) (mx_members e)" if "members_at s (mx_offset e) (mx_members e)"
    unfolding members_at_def
  proof (intro allI impI)
    fix i assume i: "i < length (mx_members e)"
    have "skip0 (fst (snd e)) + i \<in> mx_range e" using i skip0_bounds(1) [of "fst (snd e)"] by (simp add: mx_range_def)
    from assms(3) [OF this] that [unfolded members_at_def, rule_format, OF i]
    show "slot_xid s' (mx_offset e + of_nat i) = mem_xid (mx_members e ! i)
        \<and> slot_status s' (mx_offset e + of_nat i) = mem_status (mx_members e ! i)"
      unfolding mx_offset_def by simp
  qed
  have "fst (snd e) \<in> mx_range e"
    using assms(5) skip0_bounds(1) [of "fst (snd e)"] by (cases "mx_members e") (simp_all add: mx_range_def)
  from assms(3) [OF this] show ?thesis
    using assms(1,2,4) m unfolding stored_def by auto
qed

subsection \<open>Reserving a multixact\<close>

definition reserved_slots :: "MultiXactOffset \<Rightarrow> nat \<Rightarrow> nat" where
  "reserved_slots next_off n = (if next_off = 0 then n + 1 else n)"

lemma reserve_multixact_Inr:
  assumes "reserve_multixact n result st = (ev, Inr (multi, off), st')"
  shows "multi = result" and "off = (if nextOffset st = 0 then 1 else nextOffset st)"
    and "oldestOffsetKnown st \<Longrightarrow> \<not> MultiXactOffsetWouldWrap (offsetStopLimit st) (nextOffset st) (of_nat (reserved_slots (nextOffset st) n))"
    and "st' = st\<lparr>mx_slru := snd (ExtendMultiXactMember (nextOffset st) (reserved_slots (nextOffset st) n)
                                 (snd (ExtendMultiXactOffset result (mx_slru st)))),
                  nextMXact := nextMXact st + 1, nextOffset := nextOffset st + of_nat (reserved_slots (nextOffset st) n)\<rparr>"
  using assms unfolding reserve_multixact_def reserved_slots_def
  by (auto simp: Let_def case_prod_beta split: if_splits)

lemma reserve_multixact_result:
  "fst (snd (reserve_multixact n result st)) =
     (if oldestOffsetKnown st \<and> MultiXactOffsetWouldWrap (offsetStopLimit st) (nextOffset st) (of_nat (reserved_slots (nextOffset st) n))
      then Inl (MembersLimitExceeded (oldestMultiXactDB st))
      else Inr (result, if nextOffset st = 0 then 1 else nextOffset st))"
  unfolding reserve_multixact_def reserved_slots_def by (simp add: Let_def case_prod_beta)

lemma reserve_multixact_Inl:
  assumes "reserve_multixact n result st = (ev, Inl e, st')"
  shows "st' = st\<lparr>mx_slru := snd (ExtendMultiXactOffset result (mx_slru st))\<rparr>"
  using assms unfolding reserve_multixact_def by (auto simp: Let_def case_prod_beta split: if_splits)

lemma reserved_slots_skip: "p + reserved_slots (of_nat p) n = skip0 p + n"
  unfolding reserved_slots_def of_nat_zero_iff skip0_def by simp

text \<open>The guard on the member space, for counters that do not wrap.\<close>

lemma not_would_wrap:
  assumes "\<not> MultiXactOffsetWouldWrap (of_nat S) (of_nat p) (of_nat n)" and "p < S" and "S < p + 2 ^ 32" and "n < 2 ^ 32 - 1"
  shows "p + n < S"
proof -
  have "(of_nat p :: uint32) \<noteq> of_nat S" using of_nat_window_inj [of p S] assms(2,3) by auto
  moreover have n: "unat (of_nat n :: uint32) = n" using assms(4) unfolding unat_of_nat_uint32 by simp
  ultimately have "\<not> unat (of_nat S - of_nat p :: uint32) \<le> n"
    using assms(1,4) MultiXactOffsetWouldWrap_iff [of "of_nat p" "of_nat S" "of_nat n"] by auto
  then show ?thesis unfolding unat_distance [OF less_imp_le [OF assms(2)] assms(3)] by simp
qed

lemma mx_inv_entries_before:
  assumes "mx_inv v0 p0 es pend V st" and "e \<in> set es"
  shows "skip0 (fst e) < V" and "V < skip0 (fst e) + 2 ^ 31" and "p0 \<le> fst (snd e)"
    and "skip0 (fst (snd e)) + length (mx_members e) \<le> snd (mx_end v0 p0 es)" and "mx_members e \<noteq> []"
    and "stored (mx_slru st) pend e"
proof -
  have l: "linked v0 p0 es" using assms(1) by (simp add: mx_inv_def)
  note r = linked_range [OF l assms(2)]
  have "fst (mx_end v0 p0 es) \<le> V" using assms(1) skip0_bounds(1) by (auto simp: mx_inv_def)
  with r show "skip0 (fst e) < V" by linarith
  have "skip0 v0 \<le> skip0 (fst e)" using r by (intro skip0_mono) simp
  moreover have "V < skip0 v0 + 2 ^ 31 - 1" using assms(1) skip0_bounds(1) [of V] by (simp add: mx_inv_def)
  ultimately show "V < skip0 (fst e) + 2 ^ 31" by simp
  show "p0 \<le> fst (snd e)" "skip0 (fst (snd e)) + length (mx_members e) \<le> snd (mx_end v0 p0 es)" "mx_members e \<noteq> []"
    using r by simp_all
  show "stored (mx_slru st) pend e" using assms by (simp add: mx_inv_def)
qed

text \<open>The logs after a reservation.\<close>

lemma reserve_stored:
  assumes inv: "mx_inv v0 p0 es pend V st"
    and s': "s' = snd (ExtendMultiXactMember (of_nat (snd (mx_end v0 p0 es))) n (snd (ExtendMultiXactOffset (of_nat V) (mx_slru st))))"
    and room: "snd (mx_end v0 p0 es) + n < stop_at p0" and e: "e \<in> set es" and pend': "e \<in> pend' \<longleftrightarrow> e \<in> pend"
  shows "stored s' pend' e"
proof -
  let ?s1 = "snd (ExtendMultiXactOffset (of_nat V) (mx_slru st))"
  note b = mx_inv_entries_before [OF inv e]
  have fr: "fresh_offsets V (mx_slru st)" using inv by (simp add: mx_inv_def)
  note off = ExtendMultiXactOffset_entries [OF fr refl]
  have nz: "skip0 (fst e) mod 2 ^ 32 \<noteq> 0" using skip0_nonzero [of "fst e"] unfolding of_nat_zero_iff .
  show ?thesis
  proof (rule stored_frame [OF b(6) _ _ pend' b(5)])
    show "offset_entry s' (mx_multi e) = offset_entry (mx_slru st) (mx_multi e)"
      unfolding s' ExtendMultiXactMember_offsets mx_multi_def using b(2) by (intro off(2) b(1) nz) simp
    fix x assume "x \<in> mx_range e"
    then have x: "p0 \<le> x" "x < snd (mx_end v0 p0 es)" using b(3,4) by (auto simp: mx_range_def)
    have "MXOffsetToMemberPage (of_nat x) \<notin> zeroed_pages (of_nat (snd (mx_end v0 p0 es))) n"
      using x room stop_at_bounds(2) [of p0] by (intro live_slot_kept) linarith+
    then show "slot_xid s' (of_nat x) = slot_xid (mx_slru st) (of_nat x) \<and> slot_status s' (of_nat x) = slot_status (mx_slru st) (of_nat x)"
      unfolding s' using off(1) by (simp add: ExtendMultiXactMember_slots) (simp add: slot_xid_def slot_status_def)
  qed
qed

lemma fresh_offsets_next:
  assumes "\<And>u. V \<le> u \<Longrightarrow> u div 2048 = V div 2048 \<Longrightarrow> offset_entry s (of_nat u) = 0"
  shows "fresh_offsets V s" and "fresh_offsets (V + 1) s"
proof -
  show "fresh_offsets V s" using assms by (simp add: fresh_offsets_def)
  show "fresh_offsets (V + 1) s"
  proof (cases "(V + 1) mod 2048 = 0")
    case False
    then have "(V + 1) div 2048 = V div 2048" by (simp add: div_Suc)
    then show ?thesis using assms by (simp add: fresh_offsets_def)
  qed (simp add: fresh_offsets_def)
qed

lemma mx_inv_valid_next:
  assumes "mx_inv v0 p0 es pend V st" and "nextMXact st \<noteq> 0"
  shows "V = skip0 (fst (mx_end v0 p0 es))" and "skip0 V = V"
proof -
  have "V mod 2 ^ 32 \<noteq> 0" using assms of_nat_zero_iff [of V] by (simp add: mx_inv_def)
  then show "skip0 V = V" by (simp only: skip0_def if_False)
  then show "V = skip0 (fst (mx_end v0 p0 es))"
    using assms(1) by (auto simp: mx_inv_def)
qed

definition members_ok :: "MultiXactMember list \<Rightarrow> bool" where
  "members_ok ms \<longleftrightarrow> ms \<noteq> [] \<and> length ms < 2 ^ 31 - 1 \<and> (\<forall>m \<in> set ms. member_ok m)"

lemma reserve_inv:
  assumes inv: "mx_inv v0 p0 es pend V st" and ms: "members_ok ms" and nz: "nextMXact st \<noteq> 0"
    and room: "V + 2 < skip0 v0 + 2 ^ 31 - 1" and r: "reserve_multixact (length ms) (nextMXact st) st = (ev, Inr (multi, off), st')"
    and e: "e = (fst (mx_end v0 p0 es), snd (mx_end v0 p0 es), ms)"
  shows "multi = mx_multi e" and "off = mx_offset e" and "mx_inv v0 p0 (es @ [e]) (insert e pend) (V + 1) st'"
proof -
  define p where "p = snd (mx_end v0 p0 es)"
  define n where "n = reserved_slots (of_nat p) (length ms)"
  note V = mx_inv_valid_next [OF inv nz]
  have st: "nextMXact st = of_nat V" "nextOffset st = of_nat p" "oldestOffsetKnown st" "offsetStopLimit st = of_nat (stop_at p0)"
    "p < stop_at p0" "linked v0 p0 es" "fresh_offsets V (mx_slru st)" "pend \<subseteq> set es"
    using inv by (simp_all add: mx_inv_def p_def)
  note r' = reserve_multixact_Inr [OF r, unfolded st(1,2), folded n_def]
  show "multi = mx_multi e" unfolding r'(1) mx_multi_def e V(1) by simp
  show "off = mx_offset e" unfolding r'(2) mx_offset_def e p_def [symmetric] by (simp add: skip0_word)
  have p0: "p0 \<le> p" using mx_end_mono [of v0 p0 es] unfolding p_def by blast
  have pn: "p + n = skip0 p + length ms" unfolding n_def by (rule reserved_slots_skip)
  have "n < 2 ^ 32 - 1" using ms unfolding n_def reserved_slots_def members_ok_def by simp
  then have fits: "p + n < stop_at p0"
    using r'(3) [OF st(3)] st(4,5) p0 stop_at_bounds(2) [of p0] by (intro not_would_wrap) simp_all
  define s' where "s' = mx_slru st'"
  have s': "s' = snd (ExtendMultiXactMember (of_nat (snd (mx_end v0 p0 es))) n (snd (ExtendMultiXactOffset (of_nat V) (mx_slru st))))"
    unfolding s'_def r'(4) p_def by simp
  note zero = ExtendMultiXactOffset_entries(3) [OF st(7) refl]
  have fresh: "offset_entry s' (of_nat u) = 0" if "V \<le> u" "u div 2048 = V div 2048" for u
    unfolding s' ExtendMultiXactMember_offsets using that by (rule zero)
  have notin: "e \<notin> set es"
  proof
    assume "e \<in> set es"
    from linked_range(1) [OF st(6) this] show False unfolding e using skip0_bounds(1) [of "fst (mx_end v0 p0 es)"] by simp
  qed
  have old: "stored s' (insert e pend) x" if "x \<in> set es" for x
    using that notin fits unfolding p_def by (intro reserve_stored [OF inv s']) auto
  have "0 < n" using ms unfolding n_def reserved_slots_def members_ok_def by auto
  then have "slot_xid s' (of_nat p) = 0" if "p \<noteq> skip0 p"
    unfolding s' p_def [symmetric] skip0_changed [OF that] by (rule ExtendMultiXactMember_zero)
  moreover have "offset_entry s' (mx_multi e) = 0" unfolding mx_multi_def e using fresh [of V] V(1) by simp
  ultimately have new: "stored s' (insert e pend) e" unfolding stored_def e p_def [symmetric] by simp
  have end': "mx_end v0 p0 (es @ [e]) = (V + 1, p + n)" unfolding mx_end_append pn using V(1) by (simp add: e p_def)
  show "mx_inv v0 p0 (es @ [e]) (insert e pend) (V + 1) st'"
    unfolding mx_inv_def end'
    using inv ms room fits old new notin fresh_offsets_next(2) [of V s', OF fresh] skip0_bounds [of "V + 1"]
    unfolding s'_def r'(4) by (auto simp: mx_inv_def linked_append e p_def members_ok_def id_limits_def)
qed

lemma mx_inv_slru:
  assumes "mx_inv v0 p0 es pend V st" and "\<And>e. e \<in> set es \<Longrightarrow> stored s' pend' e" and "pend' \<subseteq> set es"
    and "fresh_offsets V s'"
  shows "mx_inv v0 p0 es pend' V (st\<lparr>mx_slru := s'\<rparr>)"
  using assms by (simp add: mx_inv_def id_limits_def)

lemma reserve_fails_inv:
  assumes inv: "mx_inv v0 p0 es pend V st" and nz: "nextMXact st \<noteq> 0"
    and r: "reserve_multixact n (nextMXact st) st = (ev, Inl err, st')"
  shows "mx_inv v0 p0 es pend V st'"
proof -
  have st: "nextMXact st = of_nat V" "fresh_offsets V (mx_slru st)" "pend \<subseteq> set es" "snd (mx_end v0 p0 es) < stop_at p0"
    using inv by (simp_all add: mx_inv_def)
  let ?s1 = "snd (ExtendMultiXactOffset (of_nat V) (mx_slru st))"
  have "stored (snd (ExtendMultiXactMember (of_nat (snd (mx_end v0 p0 es))) 0 ?s1)) pend e" if "e \<in> set es" for e
    using that st(4) by (intro reserve_stored [OF inv refl]) simp_all
  then have "stored ?s1 pend e" if "e \<in> set es" for e using that by (simp add: ExtendMultiXactMember.simps)
  then show ?thesis
    unfolding reserve_multixact_Inl [OF r] st(1)
    by (intro mx_inv_slru [OF inv] st(3) fresh_offsets_next(1) ExtendMultiXactOffset_entries(3) [OF st(2) refl])
qed

subsection \<open>Writing a reserved multixact\<close>

lemma before_disjoint:
  assumes "mx_before d e \<or> mx_before e d" and "x \<in> mx_range d" and "y \<in> mx_range e"
  shows "x \<noteq> y"
  using assms by (auto simp: mx_before_def mx_range_def)

lemma mx_inv_range:
  assumes "mx_inv v0 p0 es pend V st" and "e \<in> set es"
  shows "mx_range e \<subseteq> {p0 ..< snd (mx_end v0 p0 es)}"
  using mx_inv_entries_before(3,4) [OF assms] by (auto simp: mx_range_def)

lemma mx_inv_multi_inj:
  assumes "mx_inv v0 p0 es pend V st" and "d \<in> set es" and "e \<in> set es" and "mx_multi d = mx_multi e"
  shows "d = e"
proof -
  have "skip0 (fst d) = skip0 (fst e)"
    using mx_inv_entries_before(1,2) [OF assms(1,2)] mx_inv_entries_before(1,2) [OF assms(1,3)] assms(4)
    unfolding mx_multi_def by (intro of_nat_window_inj' [of _ _ "V - 2 ^ 31" V]) auto
  moreover have "linked v0 p0 es" using assms(1) by (simp add: mx_inv_def)
  ultimately show ?thesis
    using linked_order [of v0 p0 es d e] assms(2,3) skip0_bounds(1) [of "fst d"] skip0_bounds(1) [of "fst e"]
    by (auto simp: mx_before_def)
qed

lemma other_slots:
  assumes "mx_inv v0 p0 es pend V st" and "d \<in> set es" and "e \<in> set es" and "d \<noteq> e" and "x \<in> mx_range d"
  shows "\<not> unat (of_nat x - mx_offset e) < length (mx_members e)"
proof
  let ?y = "skip0 (fst (snd e)) + unat (of_nat x - mx_offset e)"
  assume i: "unat (of_nat x - mx_offset e) < length (mx_members e)"
  then have y: "?y \<in> mx_range e" using skip0_bounds(1) [of "fst (snd e)"] by (simp add: mx_range_def)
  have "mx_before d e \<or> mx_before e d" using linked_order [of v0 p0 es d e] assms(1-4) by (auto simp: mx_inv_def)
  then have "x \<noteq> ?y" using assms(5) y by (rule before_disjoint)
  moreover have "(of_nat x :: uint32) = of_nat ?y" by (simp add: mx_offset_def)
  then have "x = ?y"
    using mx_inv_range [OF assms(1,2)] mx_inv_range [OF assms(1,3)] assms(1,5) y stop_at_bounds(2) [of p0]
    by (intro of_nat_window_inj' [of x ?y p0 "snd (mx_end v0 p0 es)"]) (auto simp: mx_inv_def)
  ultimately show False by contradiction
qed

lemma record_inv:
  assumes inv: "mx_inv v0 p0 es pend V st" and e: "e \<in> pend"
  shows "mx_inv v0 p0 es (pend - {e}) V
    (st\<lparr>mx_slru := RecordNewMultiXact (mx_multi e) (mx_offset e) (mx_members e) (mx_slru st)\<rparr>)"
proof (rule mx_inv_slru [OF inv])
  let ?s = "mx_slru st"
  let ?s' = "RecordNewMultiXact (mx_multi e) (mx_offset e) (mx_members e) ?s"
  have l: "linked v0 p0 es" and sub: "pend \<subseteq> set es" and fr: "fresh_offsets V ?s" using inv by (simp_all add: mx_inv_def)
  show "pend - {e} \<subseteq> set es" using sub by blast
  have es: "e \<in> set es" using e sub by blast
  note b = mx_inv_entries_before [OF inv es] and ok = linked_range(3,4) [OF l es]
  have len: "length (mx_members e) \<le> 2 ^ 32" using ok(1) by simp
  note slots = RecordNewMultiXact_slots [OF len ok(2), of "mx_multi e" "mx_offset e" ?s]
  show "stored ?s' (pend - {e}) d" if d: "d \<in> set es" for d
  proof (cases "d = e")
    case True
    have "unat (of_nat (fst (snd e)) - mx_offset e) = 2 ^ 32 - 1" if "fst (snd e) \<noteq> skip0 (fst (snd e))"
      using skip0_changed [OF that] unfolding mx_offset_def skip0_word by (simp add: unsigned_minus_1_eq_mask mask_eq_exp_minus_1)
    then have "slot_xid ?s' (of_nat (fst (snd e))) = 0" if "fst (snd e) \<noteq> skip0 (fst (snd e))"
      using that b(6) ok(1) unfolding slots(1) stored_def by simp
    then show ?thesis using slots(3) unfolding True stored_def by (simp add: offset_entry_record)
  next
    case False
    note c = mx_inv_entries_before [OF inv d]
    have ne: "mx_multi d \<noteq> mx_multi e" using mx_inv_multi_inj [OF inv d es] False by blast
    show ?thesis
    proof (rule stored_frame [OF c(6) _ _ _ c(5)])
      show "offset_entry ?s' (mx_multi d) = offset_entry ?s (mx_multi d)" using ne by (simp add: offset_entry_record)
      show "slot_xid ?s' (of_nat x) = slot_xid ?s (of_nat x) \<and> slot_status ?s' (of_nat x) = slot_status ?s (of_nat x)"
        if "x \<in> mx_range d" for x
        unfolding slots using other_slots [OF inv d es False that] by simp
    qed (use False in auto)
  qed
  have "offset_entry ?s' (of_nat u) = offset_entry ?s (of_nat u)" if u: "V \<le> u" "u div 2048 = V div 2048" for u
  proof -
    have "u < V + 2048" using same_div_near [OF u(2)] .
    then have "of_nat u \<noteq> mx_multi e"
      using of_nat_window_inj [of "skip0 (fst e)" u] b(1,2) u(1) unfolding mx_multi_def by auto
    then show ?thesis by (simp add: offset_entry_record)
  qed
  then show "fresh_offsets V ?s'" using fr unfolding fresh_offsets_def by auto
qed

subsection \<open>Limits\<close>

lemma MultiXactIdPrecedes_window:
  assumes "unat (x - b) < 2147483648" and "unat (y - b) < 2147483648"
  shows "MultiXactIdPrecedes x y \<longleftrightarrow> unat (x - b) < unat (y - b)"
  using sint_diff_word32 [OF assms] by (simp add: MultiXactIdPrecedes_def uint_less_unat)

lemma mx_inv_distance:
  assumes "mx_inv v0 p0 es pend V st"
  shows "unat (nextMXact st - oldestMultiXactId st) = V - skip0 v0" and "V - skip0 v0 < 2 ^ 31 - 1"
  using assms unat_distance [of "skip0 v0" V] skip0_bounds(1) [of V] by (auto simp: mx_inv_def)

text \<open>The limits leave room for the ids that pass them.\<close>

lemma limits_leave_room:
  assumes "mx_inv v0 p0 es pend V st"
    and "MultiXactIdPrecedes (nextMXact st) (multiVacLimit st) \<or> MultiXactIdPrecedes (nextMXact st) (multiStopLimit st)"
  shows "V + 2 < skip0 v0 + 2 ^ 31 - 1"
proof -
  have lim: "unat (multiVacLimit st - of_nat (skip0 v0)) \<le> 2000000001" "unat (multiStopLimit st - of_nat (skip0 v0)) \<le> 2144483648"
    and st: "nextMXact st = of_nat V" "oldestMultiXactId st = of_nat (skip0 v0)" "skip0 v0 \<le> V"
    using assms(1) by (simp_all add: mx_inv_def id_limits_def)
  note d = mx_inv_distance [OF assms(1), unfolded st(1,2)]
  have "V - skip0 v0 < 2144483648"
    using assms(2) lim d unfolding st(1)
    by (auto simp: MultiXactIdPrecedes_window [of _ "of_nat (skip0 v0)"])
  then show ?thesis using st(3) by simp
qed

lemma computed_limits:
  assumes "age \<le> 2000000000"
  shows "unat ((if oldest + age < FirstMultiXactId then oldest + age + FirstMultiXactId else oldest + age) - oldest) \<le> 2000000001"
    and "unat (below_multiWrapLimit (compute_multiWrapLimit oldest) 3000000 - oldest) \<le> 2144483648"
proof -
  have a: "unat age \<le> 2000000000" using assms by (simp add: word_le_nat_alt)
  then have "unat (age + 1) \<le> 2000000001" by (simp add: unat_word_ariths(1))
  moreover have "oldest + age + 1 - oldest = age + 1" "oldest + age - oldest = age" by simp_all
  ultimately show "unat ((if oldest + age < FirstMultiXactId then oldest + age + FirstMultiXactId else oldest + age) - oldest) \<le> 2000000001"
    unfolding FirstMultiXactId_def using a by (simp only: split: if_split) simp
  have half: "drop_bit 1 MaxMultiXactId = 2147483647" unfolding MaxMultiXactId_def by code_simp
  have w: "compute_multiWrapLimit oldest \<in> {oldest + 2147483647, oldest + 2147483648}"
    unfolding compute_multiWrapLimit_def half FirstMultiXactId_def Let_def add.assoc by auto
  have "below_multiWrapLimit wrap 3000000 \<in> {wrap - 3000000, wrap - 3000001}" for wrap
    unfolding below_multiWrapLimit_def FirstMultiXactId_def Let_def by auto
  from this [of "compute_multiWrapLimit oldest"] w
  show "unat (below_multiWrapLimit (compute_multiWrapLimit oldest) 3000000 - oldest) \<le> 2144483648" by auto
qed

lemma segment_start_div: "segment_start p = p div 2 ^ 32 * 2 ^ 32 + p mod 2 ^ 32 div 52352 * 52352"
proof -
  have "p = p div 2 ^ 32 * 2 ^ 32 + p mod 2 ^ 32" by (rule div_mult_mod_eq [symmetric])
  moreover have "p mod 2 ^ 32 = p mod 2 ^ 32 div 52352 * 52352 + p mod 2 ^ 32 mod 52352" by (rule div_mult_mod_eq [symmetric])
  ultimately show ?thesis unfolding segment_start_def by linarith
qed

lemma segment_start_mono:
  assumes "p \<le> q"
  shows "segment_start p \<le> segment_start q"
proof (cases "p div 2 ^ 32 = q div 2 ^ 32")
  case True
  have "p div 2 ^ 32 * 2 ^ 32 + p mod 2 ^ 32 \<le> q div 2 ^ 32 * 2 ^ 32 + q mod 2 ^ 32"
    unfolding div_mult_mod_eq by (rule assms)
  then have "p mod 2 ^ 32 \<le> q mod 2 ^ 32" unfolding True by (rule add_le_imp_le_left)
  then show ?thesis unfolding segment_start_div True by (intro add_left_mono mult_right_mono div_le_mono) simp_all
next
  case False
  have "p div 2 ^ 32 \<le> q div 2 ^ 32" using assms by (rule div_le_mono)
  with False have "p div 2 ^ 32 + 1 \<le> q div 2 ^ 32" by linarith
  then have "(p div 2 ^ 32 + 1) * 2 ^ 32 \<le> q div 2 ^ 32 * 2 ^ 32" by (rule mult_right_mono) simp
  moreover have "p < 2 ^ 32 + p div 2 ^ 32 * 2 ^ 32" by (rule dividend_less_div_times) simp
  moreover have "segment_start p \<le> p" by (simp add: segment_start_def)
  moreover have "q div 2 ^ 32 * 2 ^ 32 \<le> segment_start q" unfolding segment_start_div by simp
  ultimately show ?thesis by (simp only: distrib_right mult_1)
qed

lemma segment_start_skip: "segment_start (skip0 p) = segment_start p"
proof (cases "p mod 2 ^ 32 = 0")
  case True
  have "(p + 1) mod 2 ^ 32 = (p mod 2 ^ 32 + 1) mod 2 ^ 32" by (rule mod_add_left_eq [symmetric])
  also have "\<dots> = 1" unfolding True by simp
  finally have one: "(p + 1) mod 2 ^ 32 = 1" .
  have "skip0 p = p + 1" by (simp only: skip0_def True if_True refl)
  then show ?thesis unfolding segment_start_def by (simp only: one True) simp
next
  case False
  show ?thesis unfolding skip0_def if_not_P [OF False] ..
qed

lemma computed_stop:
  assumes "q = p \<or> q = skip0 p"
  shows "of_nat q - of_nat q mod members_per_segment - members_per_segment = (of_nat (stop_at p) :: uint32)"
proof -
  have seg: "members_per_segment = of_nat 52352"
    by (simp add: members_per_segment_def mx_members_per_page SLRU_PAGES_PER_SEGMENT_def)
  have "segment_start q = segment_start p" using assms segment_start_skip by auto
  moreover have "of_nat q mod members_per_segment = (of_nat (q mod 2 ^ 32 mod 52352) :: uint32)"
  proof (rule word_unat_eq_iff [THEN iffD2])
    have "q mod 2 ^ 32 mod 52352 < 52352" by simp
    then have "q mod 2 ^ 32 mod 52352 mod 2 ^ 32 = q mod 2 ^ 32 mod 52352" by (intro mod_less) (rule less_trans, assumption, simp)
    then show "unat (of_nat q mod members_per_segment :: uint32) = unat (of_nat (q mod 2 ^ 32 mod 52352) :: uint32)"
      unfolding seg unat_mod_distrib unat_of_nat_uint32 by simp
  qed
  moreover have "q mod 2 ^ 32 mod 52352 \<le> q" by (meson le_trans mod_less_eq_dividend)
  ultimately have "of_nat q - of_nat q mod members_per_segment = (of_nat (segment_start p) :: uint32)"
    unfolding segment_start_def by (metis of_nat_diff)
  moreover have "(of_nat (stop_at p) :: uint32) = of_nat (segment_start p) + of_nat (2 ^ 32 - 52352)"
    unfolding of_nat_add [symmetric] by (simp add: stop_at_def)
  moreover have "(of_nat (2 ^ 32 - 52352) :: uint32) = - of_nat 52352" by simp
  ultimately show ?thesis unfolding seg by simp
qed

text \<open>
  The new oldest multixact: the first of those kept, which has been written, or the next one when none
  is kept. Nothing that is still to be written is dropped.
\<close>

definition new_oldest :: "mx_entry list \<Rightarrow> mx_entry set \<Rightarrow> MultiXactId \<Rightarrow> MultiXactStateData \<Rightarrow> bool" where
  "new_oldest kept pend multi st \<longleftrightarrow> pend \<subseteq> set kept
     \<and> (case kept of [] \<Rightarrow> multi = nextMXact st \<and> MultiXactIdIsValid multi
         | e # _ \<Rightarrow> multi = mx_multi e \<and> e \<notin> pend)"

lemma new_oldest_start:
  assumes inv: "mx_inv v0 p0 (dropped @ kept) pend V st" and new: "new_oldest kept pend multi st"
    and v: "v = fst (mx_end v0 p0 dropped)" and p: "p = snd (mx_end v0 p0 dropped)" and pe: "page_exists (MultiXactIdToOffsetPage multi)"
  shows "multi = of_nat (skip0 v)" and "skip0 v \<le> V"
    and "\<exists>q. (q = p \<or> q = skip0 p) \<and> fst (if multi = nextMXact st then (Some (nextOffset st), mx_slru st)
           else find_multixact_start page_exists multi (mx_slru st)) = Some (of_nat q)"
proof -
  have st: "nextMXact st = of_nat V" "V \<in> {fst (mx_end v0 p0 (dropped @ kept)), skip0 (fst (mx_end v0 p0 (dropped @ kept)))}"
    "nextOffset st = of_nat (snd (mx_end v0 p0 (dropped @ kept)))" and l: "linked v0 p0 (dropped @ kept)"
    using inv by (simp_all only: mx_inv_def)
  have "multi = of_nat (skip0 v) \<and> skip0 v \<le> V \<and> (\<exists>q. (q = p \<or> q = skip0 p) \<and> fst (if multi = nextMXact st then (Some (nextOffset st), mx_slru st)
           else find_multixact_start page_exists multi (mx_slru st)) = Some (of_nat q))"
  proof (cases kept)
    case Nil
    then have m: "multi = nextMXact st" "nextMXact st \<noteq> 0"
      using new by (auto simp: new_oldest_def MultiXactIdIsValid_def InvalidMultiXactId_def)
    then have "V = skip0 v" using mx_inv_valid_next(1) [OF inv] Nil v by simp
    then show ?thesis using m st(1,3) Nil p by auto
  next
    case (Cons e rest)
    then have m: "multi = mx_multi e" "e \<notin> pend" and e: "e \<in> set (dropped @ kept)" "fst e = v" "fst (snd e) = p"
      using new l by (simp_all add: new_oldest_def linked_append v p)
    note b = mx_inv_entries_before [OF inv e(1)]
    have "multi \<noteq> nextMXact st"
      using of_nat_window_inj [of "skip0 (fst e)" V] b(1,2) unfolding m(1) st(1) mx_multi_def by auto
    moreover have "offset_entry (mx_slru st) multi = of_nat (skip0 p)"
      using b(6) m(2) unfolding stored_def m(1) mx_offset_def e by simp
    ultimately show ?thesis using b(1) e pe unfolding m(1) find_multixact_start_def mx_multi_def
      by (auto simp: Let_def offset_entry_def write_all_pages_def)
  qed
  then show "multi = of_nat (skip0 v)" "skip0 v \<le> V" "\<exists>q. (q = p \<or> q = skip0 p) \<and> fst (if multi = nextMXact st then (Some (nextOffset st), mx_slru st)
           else find_multixact_start page_exists multi (mx_slru st)) = Some (of_nat q)" by blast+
qed

lemma mx_inv_same:
  assumes "mx_inv v0 p0 es pend V st"
    and "nextMXact st' = nextMXact st" "nextOffset st' = nextOffset st" "oldestMultiXactId st' = oldestMultiXactId st"
      "oldestOffsetKnown st' = oldestOffsetKnown st" "offsetStopLimit st' = offsetStopLimit st"
      "multiVacLimit st' = multiVacLimit st" "multiStopLimit st' = multiStopLimit st" "finishedStartup st' = finishedStartup st"
      "mxo_buffer (mx_slru st') = mxo_buffer (mx_slru st)" "mxm_buffer (mx_slru st') = mxm_buffer (mx_slru st)"
  shows "mx_inv v0 p0 es pend V st'"
proof -
  have "offset_entry (mx_slru st') = offset_entry (mx_slru st)" "slot_xid (mx_slru st') = slot_xid (mx_slru st)"
    "slot_status (mx_slru st') = slot_status (mx_slru st)"
    using assms(10,11) by (simp_all add: fun_eq_iff offset_entry_def slot_xid_def slot_status_def)
  then have "stored (mx_slru st') pend = stored (mx_slru st) pend" "fresh_offsets V (mx_slru st') = fresh_offsets V (mx_slru st)"
    by (simp_all add: fun_eq_iff stored_def members_at_def fresh_offsets_def)
  with assms show ?thesis unfolding mx_inv_def id_limits_def by simp
qed

lemma limit_fields:
  assumes "finishedStartup st" and "q = p \<or> q = skip0 p"
    and "fst (if multi = nextMXact st then (Some (nextOffset st), mx_slru st)
          else find_multixact_start page_exists multi (mx_slru st)) = Some (of_nat q)"
    and "st' = snd (SetMultiXactIdLimit mode page_exists age multi db st)"
  shows "oldestOffsetKnown st'" "offsetStopLimit st' = of_nat (stop_at p)" "oldestMultiXactId st' = multi"
    "nextMXact st' = nextMXact st" "nextOffset st' = nextOffset st" "finishedStartup st'"
    "mxo_buffer (mx_slru st') = mxo_buffer (mx_slru st)" "mxm_buffer (mx_slru st') = mxm_buffer (mx_slru st)"
    "multiStopLimit st' = below_multiWrapLimit (compute_multiWrapLimit multi) 3000000"
    "multiVacLimit st' = (if multi + age < FirstMultiXactId then multi + age + FirstMultiXactId else multi + age)"
  unfolding assms(4) SetMultiXactIdLimit_def SetOffsetVacuumLimit_def Let_def
  using assms(1,3) computed_stop [OF assms(2)]
  by (auto simp: case_prod_beta find_multixact_start_def write_all_pages_def Let_def split: option.splits if_splits)

lemma limit_inv:
  assumes inv: "mx_inv v0 p0 (dropped @ kept) pend V st" and new: "new_oldest kept pend multi st"
    and pe: "page_exists (MultiXactIdToOffsetPage multi)" and age: "age \<le> 2000000000"
  shows "mx_inv (fst (mx_end v0 p0 dropped)) (snd (mx_end v0 p0 dropped)) kept pend V
    (snd (SetMultiXactIdLimit mode page_exists age multi db st))"
proof -
  define v where "v = fst (mx_end v0 p0 dropped)"
  define p where "p = snd (mx_end v0 p0 dropped)"
  note s = new_oldest_start [where page_exists = page_exists, OF inv new v_def p_def pe]
  obtain q where q: "q = p \<or> q = skip0 p" and found: "fst (if multi = nextMXact st then (Some (nextOffset st), mx_slru st)
           else find_multixact_start page_exists multi (mx_slru st)) = Some (of_nat q)" using s(3) by blast
  have fs: "finishedStartup st" using inv by (simp add: mx_inv_def)
  define st' where "st' = snd (SetMultiXactIdLimit mode page_exists age multi db st)"
  note st' = limit_fields [OF fs q found st'_def]
  have lim: "id_limits v st'" unfolding id_limits_def st' s(1) [symmetric] using computed_limits [OF age, of multi] by blast
  have mono: "v0 \<le> v" "p0 \<le> p" using mx_end_mono [of v0 p0 dropped] unfolding v_def p_def by simp_all
  have e: "mx_end v0 p0 (dropped @ kept) = mx_end v p kept" unfolding mx_end_append v_def p_def ..
  have "stop_at p0 \<le> stop_at p" using segment_start_mono [OF mono(2)] by (simp add: stop_at_def diff_le_mono)
  then have "mx_inv v p kept pend V (st'\<lparr>mx_slru := mx_slru st\<rparr>)"
    using inv lim new s(1,2) skip0_mono [OF mono(1)]
    by (auto simp: mx_inv_def e st' linked_append v_def [symmetric] p_def [symmetric] new_oldest_def id_limits_def)
  then have "mx_inv v p kept pend V st'" by (rule mx_inv_same) (simp_all add: st')
  then show ?thesis unfolding st'_def v_def p_def .
qed

subsection \<open>Steps\<close>

text \<open>
  The state of a run: the counters at the oldest multixact, the multixacts that exist, those that are not
  yet written, and the shared state. A backend that released the lock to send warnings checked the limits in
  an \<open>old\<close> state and continues in the current one; the rule for it asks that the ids have not come
  close to half the circle meanwhile and that the counter is not at its wrapped value.
\<close>

record mx_world =
  first_multi :: nat
  first_offset :: nat
  entries :: "mx_entry list"
  unwritten :: "mx_entry set"
  shared :: MultiXactStateData

definition next_entry :: "nat \<Rightarrow> nat \<Rightarrow> mx_entry list \<Rightarrow> MultiXactMember list \<Rightarrow> mx_entry" where
  "next_entry v0 p0 es ms = (fst (mx_end v0 p0 es), snd (mx_end v0 p0 es), ms)"

definition add_entry :: "MultiXactMember list \<Rightarrow> MultiXactStateData \<Rightarrow> mx_world \<Rightarrow> mx_world" where
  "add_entry ms st w =
     (let e = next_entry (first_multi w) (first_offset w) (entries w) ms
      in w\<lparr>entries := entries w @ [e], unwritten := insert e (unwritten w), shared := st\<rparr>)"

definition keep_entries :: "mx_entry list \<Rightarrow> mx_entry list \<Rightarrow> MultiXactStateData \<Rightarrow> mx_world \<Rightarrow> mx_world" where
  "keep_entries dropped kept st w =
     w\<lparr>first_multi := fst (mx_end (first_multi w) (first_offset w) dropped),
       first_offset := snd (mx_end (first_multi w) (first_offset w) dropped), entries := kept, shared := st\<rparr>"

definition write_entry :: "mx_entry \<Rightarrow> mx_world \<Rightarrow> mx_world" where
  "write_entry e w =
     w\<lparr>unwritten := unwritten w - {e},
       shared := (shared w)\<lparr>mx_slru := RecordNewMultiXact (mx_multi e) (mx_offset e) (mx_members e) (mx_slru (shared w))\<rparr>\<rparr>"

definition id_room :: "MultiXactStateData \<Rightarrow> bool" where
  "id_room st \<longleftrightarrow> nextMXact st \<noteq> InvalidMultiXactId \<and> nextMXact st - oldestMultiXactId st < 2147483640"

definition has_page :: "(nat \<Rightarrow> bool) \<Rightarrow> MultiXactId \<Rightarrow> bool" where
  "has_page page_exists multi \<longleftrightarrow> page_exists (MultiXactIdToOffsetPage multi)"

inductive mx_step :: "mx_world \<Rightarrow> mx_world \<Rightarrow> bool" where
  reserves: "GetNewMultiXactId mode (\<lambda>s. s) (length ms) (shared w) = (ev, Inr (multi, off), st') \<Longrightarrow>
    IsUnderPostmaster mode \<Longrightarrow> members_ok ms \<Longrightarrow> mx_step w (add_entry ms st' w)"
| reserves_late: "\<not> MultiXactIdPrecedes (valid_next (nextMXact old)) (multiVacLimit old) \<Longrightarrow> id_room (shared w) \<Longrightarrow>
    GetNewMultiXactId mode (\<lambda>_. shared w) (length ms) old = (ev, Inr (multi, off), st') \<Longrightarrow>
    members_ok ms \<Longrightarrow> mx_step w (add_entry ms st' w)"
| refused: "GetNewMultiXactId mode (\<lambda>s. s) n (shared w) = (ev, Inl err, st') \<Longrightarrow> mx_step w (w\<lparr>shared := st'\<rparr>)"
| writes: "e \<in> unwritten w \<Longrightarrow> mx_step w (write_entry e w)"
| moves_oldest: "entries w = dropped @ kept \<Longrightarrow> new_oldest kept (unwritten w) multi (shared w) \<Longrightarrow>
    has_page page_exists multi \<Longrightarrow> age \<le> 2000000000 \<Longrightarrow>
    SetMultiXactIdLimit mode page_exists age multi db (shared w) = (ev, st') \<Longrightarrow> mx_step w (keep_entries dropped kept st' w)"
| sets_member: "mx_step w (w\<lparr>shared := MultiXactIdSetOldestMember me (shared w)\<rparr>)"
| sets_visible: "mx_step w (w\<lparr>shared := MultiXactIdSetOldestVisible me (shared w)\<rparr>)"
| ends: "mx_step w (w\<lparr>shared := fst (AtEOXact_MultiXact me (shared w))\<rparr>)"
| prepares: "mx_step w (w\<lparr>shared := fst (PostPrepare_MultiXact dummy me (shared w))\<rparr>)"
| finishes_prepared: "mx_step w (w\<lparr>shared := multixact_twophase_postcommit dummy (shared w)\<rparr>)"
| checkpoints: "mx_step w (w\<lparr>shared := (shared w)\<lparr>mx_slru := CheckPointMultiXact (mx_slru (shared w))\<rparr>\<rparr>)"

text \<open>A run starts when a server without multixacts has come up.\<close>

inductive mx_run :: "mx_world \<Rightarrow> bool" where
  starts: "TrimMultiXact mode page_exists age st = (ev, st') \<Longrightarrow> age \<le> 2000000000 \<Longrightarrow> MultiXactIdIsValid (nextMXact st) \<Longrightarrow>
    oldestMultiXactId st = nextMXact st \<Longrightarrow>
    mx_run \<lparr>first_multi = unat (nextMXact st), first_offset = unat (nextOffset st), entries = [], unwritten = {}, shared = st'\<rparr>"
| steps: "mx_run w \<Longrightarrow> mx_step w w' \<Longrightarrow> mx_run w'"

definition world_inv :: "mx_world \<Rightarrow> bool" where
  "world_inv w \<longleftrightarrow> (\<exists>V. mx_inv (first_multi w) (first_offset w) (entries w) (unwritten w) V (shared w))"

subsection \<open>The invariant along a run\<close>

lemma mx_inv_fix:
  assumes "mx_inv v0 p0 es pend V st"
  shows "mx_inv v0 p0 es pend (skip0 V) (st\<lparr>nextMXact := valid_next (nextMXact st)\<rparr>)"
proof -
  have V: "nextMXact st = of_nat V" "V = fst (mx_end v0 p0 es) \<or> V = skip0 (fst (mx_end v0 p0 es))"
    "skip0 v0 \<le> V" "skip0 V < skip0 v0 + 2 ^ 31 - 1" "fresh_offsets V (mx_slru st)" using assms unfolding mx_inv_def by simp_all
  have "fresh_offsets (skip0 V) (mx_slru st)"
  proof (cases "V = skip0 V")
    case True
    with V(5) show ?thesis by simp
  next
    case False
    have "(of_nat (skip0 V) :: uint32) = 1" using skip0_changed [OF False] skip0_word [of V] by simp
    then show ?thesis unfolding fresh_offsets_def by blast
  qed
  moreover have "skip0 V = skip0 (fst (mx_end v0 p0 es))" using V(2) by (elim disjE) (simp_all only: skip0_idem)
  moreover have "skip0 v0 \<le> skip0 V" using V(3) skip0_bounds(1) by (rule le_trans)
  moreover have "valid_next (nextMXact st) = of_nat (skip0 V)" unfolding V(1) by (rule valid_next_word)
  ultimately show ?thesis using assms V(4) unfolding mx_inv_def id_limits_def by (simp add: skip0_idem)
qed

lemma valid_next_idem: "valid_next (valid_next m) = valid_next m" and valid_next_nonzero: "valid_next m \<noteq> 0"
proof -
  have "m < 1 \<longleftrightarrow> m = 0" by (metis word_less_1)
  then show "valid_next (valid_next m) = valid_next m" "valid_next m \<noteq> 0"
    by (simp_all add: valid_next_def FirstMultiXactId_def)
qed

text \<open>The outcome of an assignment, without what is reported meanwhile.\<close>

lemma GetNewMultiXactId_outcome:
  assumes "st1 = st\<lparr>nextMXact := valid_next (nextMXact st)\<rparr>"
  shows "snd (GetNewMultiXactId mode others n st) =
    (if RecoveryInProgress mode then (Inl MultiXactsInRecovery, st)
     else if MultiXactIdPrecedes (nextMXact st1) (multiVacLimit st1) then snd (reserve_multixact n (nextMXact st1) st1)
     else if IsUnderPostmaster mode \<and> \<not> MultiXactIdPrecedes (nextMXact st1) (multiStopLimit st1)
     then (Inl (MultiXactStop (oldestMultiXactDB st1)), st1)
     else snd (reserve_multixact n (valid_next (nextMXact (others st1))) (others st1)))"
  unfolding GetNewMultiXactId_def Let_def assms [symmetric] case_prod_beta by simp

lemma snd_eqD: "snd x = y \<Longrightarrow> \<exists>ev. x = (ev, y)"
  by (cases x) simp

lemma either_way: "x = (if r then a else if v then b else if s then c else b) \<Longrightarrow> \<not> r \<Longrightarrow> \<not> (\<not> v \<and> s) \<Longrightarrow> b = x"
  by (cases v; cases s) simp_all

lemma GetNewMultiXactId_cases:
  assumes "GetNewMultiXactId mode (\<lambda>s. s) n st = (ev, r, st')" and "st1 = st\<lparr>nextMXact := valid_next (nextMXact st)\<rparr>"
  obtains (recovery) err where "r = Inl err" "st' = st"
  | (stopped) err where "r = Inl err" "st' = st1"
  | (reserved) ev' where "reserve_multixact n (nextMXact st1) st1 = (ev', r, st')"
      "IsUnderPostmaster mode \<longrightarrow>
         MultiXactIdPrecedes (nextMXact st1) (multiVacLimit st1) \<or> MultiXactIdPrecedes (nextMXact st1) (multiStopLimit st1)"
proof -
  have v: "valid_next (nextMXact st1) = nextMXact st1" by (simp add: assms(2) valid_next_idem)
  have "(r, st') = snd (GetNewMultiXactId mode (\<lambda>s. s) n st)" using assms(1) by simp
  note g = this [unfolded GetNewMultiXactId_outcome [OF assms(2)] v]
  show thesis
  proof (cases "RecoveryInProgress mode")
    case True
    show thesis by (rule recovery [of MultiXactsInRecovery]) (use g True in simp_all)
  next
    case rec: False
    let ?vac = "MultiXactIdPrecedes (nextMXact st1) (multiVacLimit st1)"
    let ?stop = "IsUnderPostmaster mode \<and> \<not> MultiXactIdPrecedes (nextMXact st1) (multiStopLimit st1)"
    show thesis
    proof (cases "\<not> ?vac \<and> ?stop")
      case True
      show thesis by (rule stopped [of "MultiXactStop (oldestMultiXactDB st1)"]) (use g rec True in simp_all)
    next
      case False
      obtain ev' where "reserve_multixact n (nextMXact st1) st1 = (ev', r, st')"
        using snd_eqD [OF either_way [OF g rec False]] by (elim exE)
      then show thesis by (rule reserved) (use False in blast)
    qed
  qed
qed

lemma GetNewMultiXactId_late:
  assumes "\<not> MultiXactIdPrecedes (valid_next (nextMXact old)) (multiVacLimit old)"
    and "GetNewMultiXactId mode (\<lambda>_. st) n old = (ev, Inr (multi, off), st')" and "nextMXact st \<noteq> 0"
  obtains ev' where "reserve_multixact n (nextMXact st) st = (ev', Inr (multi, off), st')"
proof -
  have "valid_next (nextMXact st) = nextMXact st"
    using assms(3) by (simp add: valid_next_def FirstMultiXactId_def)
  moreover have "(Inr (multi, off), st') = snd (GetNewMultiXactId mode (\<lambda>_. st) n old)" using assms(2) by simp
  ultimately have "snd (reserve_multixact n (nextMXact st) st) = (Inr (multi, off), st')"
    using assms(1) unfolding GetNewMultiXactId_outcome [OF refl] by (auto split: if_splits)
  from snd_eqD [OF this] obtain ev' where "reserve_multixact n (nextMXact st) st = (ev', Inr (multi, off), st')" by (elim exE)
  then show ?thesis by (rule that)
qed

lemma GetNewMultiXactId_refused_inv:
  assumes inv: "mx_inv v0 p0 es pend V st" and g: "GetNewMultiXactId mode (\<lambda>s. s) n st = (ev, Inl err, st')"
  shows "\<exists>V. mx_inv v0 p0 es pend V st'"
  using g refl
proof (cases rule: GetNewMultiXactId_cases)
  case recovery
  with inv show ?thesis by auto
next
  case stopped
  then show ?thesis using mx_inv_fix [OF inv] by auto
next
  case (reserved ev')
  from reserve_fails_inv [OF mx_inv_fix [OF inv] _ reserved(1)] show ?thesis by (auto simp: valid_next_nonzero)
qed

lemma GetNewMultiXactId_inv:
  assumes inv: "mx_inv v0 p0 es pend V st" and g: "GetNewMultiXactId mode (\<lambda>s. s) (length ms) st = (ev, Inr (multi, off), st')"
    and pm: "IsUnderPostmaster mode" and ms: "members_ok ms" and e: "e = next_entry v0 p0 es ms"
  shows "multi = mx_multi e" and "off = mx_offset e" and "\<exists>V. mx_inv v0 p0 (es @ [e]) (insert e pend) V st'"
proof -
  note fixed = mx_inv_fix [OF inv]
  have nz: "nextMXact (st\<lparr>nextMXact := valid_next (nextMXact st)\<rparr>) \<noteq> 0" by (simp add: valid_next_nonzero)
  have "multi = mx_multi e \<and> off = mx_offset e \<and> (\<exists>V. mx_inv v0 p0 (es @ [e]) (insert e pend) V st')"
    using g refl
  proof (cases rule: GetNewMultiXactId_cases)
    case (reserved ev')
    have room: "skip0 V + 2 < skip0 v0 + 2 ^ 31 - 1" using reserved(2) pm by (intro limits_leave_room [OF fixed]) blast
    show ?thesis using reserve_inv [OF fixed ms nz room reserved(1) e [unfolded next_entry_def]] by blast
  qed simp_all
  then show "multi = mx_multi e" "off = mx_offset e" "\<exists>V. mx_inv v0 p0 (es @ [e]) (insert e pend) V st'" by blast+
qed

lemma GetNewMultiXactId_late_inv:
  assumes inv: "mx_inv v0 p0 es pend V st" and old: "\<not> MultiXactIdPrecedes (valid_next (nextMXact old)) (multiVacLimit old)"
    and g: "GetNewMultiXactId mode (\<lambda>_. st) (length ms) old = (ev, Inr (multi, off), st')"
    and room: "id_room st" and ms: "members_ok ms" and e: "e = next_entry v0 p0 es ms"
  shows "multi = mx_multi e" and "off = mx_offset e" and "\<exists>V. mx_inv v0 p0 (es @ [e]) (insert e pend) V st'"
proof -
  have nz: "nextMXact st \<noteq> 0" using room by (simp add: id_room_def InvalidMultiXactId_def)
  obtain ev' where r: "reserve_multixact (length ms) (nextMXact st) st = (ev', Inr (multi, off), st')"
    using GetNewMultiXactId_late [OF old g nz] .
  have "unat (nextMXact st - oldestMultiXactId st) < 2147483640" using room by (simp add: id_room_def word_less_nat_alt)
  then have "V - skip0 v0 < 2147483640" unfolding mx_inv_distance(1) [OF inv] .
  then have "V + 2 < skip0 v0 + 2 ^ 31 - 1" using inv by (simp add: mx_inv_def)
  from reserve_inv [OF inv ms nz this r e [unfolded next_entry_def]]
  show "multi = mx_multi e" "off = mx_offset e" "\<exists>V. mx_inv v0 p0 (es @ [e]) (insert e pend) V st'" by blast+
qed

lemma trimmed_fresh: "fresh_offsets V (trim_logs (of_nat V) off s)"
proof (cases "V mod 2048 = 0")
  case False
  have "offset_entry (trim_logs (of_nat V) off s) (of_nat u) = 0" if u: "V \<le> u" "u div 2048 = V div 2048" for u
  proof -
    have "V mod 2048 \<le> u mod 2048"
      using div_mult_mod_eq [of u 2048] div_mult_mod_eq [of V 2048] u by linarith
    moreover have "u mod 2048 < 2048" by simp
    ultimately show ?thesis
      using False unfolding trim_logs_def Let_def offset_entry_def mx_offset_page div_mod_page u(2)
      by (simp add: MULTIXACT_OFFSETS_PER_PAGE_def BLCKSZ_def)
  qed
  then show ?thesis unfolding fresh_offsets_def by blast
qed (simp add: fresh_offsets_def)

lemma start_inv:
  assumes t: "TrimMultiXact mode page_exists age st = (ev, st')" and age: "age \<le> 2000000000"
    and valid: "MultiXactIdIsValid (nextMXact st)" and none: "oldestMultiXactId st = nextMXact st"
  shows "mx_inv (unat (nextMXact st)) (unat (nextOffset st)) [] {} (unat (nextMXact st)) st'"
proof -
  let ?V = "unat (nextMXact st)" and ?p = "unat (nextOffset st)"
  let ?st1 = "st\<lparr>mx_slru := trim_logs (nextMXact st) (nextOffset st) (mx_slru st), finishedStartup := True\<rparr>"
  have st': "st' = snd (SetMultiXactIdLimit mode page_exists age (nextMXact st) (oldestMultiXactDB st) ?st1)"
    using t none by (simp add: TrimMultiXact_def Let_def)
  have found: "fst (if nextMXact st = nextMXact ?st1 then (Some (nextOffset ?st1), mx_slru ?st1)
      else find_multixact_start page_exists (nextMXact st) (mx_slru ?st1)) = Some (of_nat ?p)" by simp
  note f = limit_fields [OF _ disjI1 [OF refl] found st']
  have "?V mod 2 ^ 32 \<noteq> 0"
    using valid of_nat_zero_iff [of ?V] by (simp add: MultiXactIdIsValid_def InvalidMultiXactId_def)
  then have V: "skip0 ?V = ?V" by (simp only: skip0_def if_False)
  have lim: "id_limits ?V st'"
    unfolding id_limits_def V using f(9,10) computed_limits [OF age, of "nextMXact st"] by simp
  have "?p < stop_at ?p" using stop_at_bounds(1) [of ?p] by simp
  then have "mx_inv ?V ?p [] {} ?V (st'\<lparr>mx_slru := mx_slru ?st1\<rparr>)"
    using f lim trimmed_fresh [of ?V "nextOffset st" "mx_slru st"] unfolding mx_inv_def id_limits_def by (simp add: V)
  then show ?thesis by (rule mx_inv_same) (simp_all add: f)
qed

lemma world_inv_same:
  assumes "world_inv w"
    and "nextMXact st' = nextMXact (shared w)" "nextOffset st' = nextOffset (shared w)"
      "oldestMultiXactId st' = oldestMultiXactId (shared w)" "oldestOffsetKnown st' = oldestOffsetKnown (shared w)"
      "offsetStopLimit st' = offsetStopLimit (shared w)" "multiVacLimit st' = multiVacLimit (shared w)"
      "multiStopLimit st' = multiStopLimit (shared w)" "finishedStartup st' = finishedStartup (shared w)"
      "mxo_buffer (mx_slru st') = mxo_buffer (mx_slru (shared w))" "mxm_buffer (mx_slru st') = mxm_buffer (mx_slru (shared w))"
  shows "world_inv (w\<lparr>shared := st'\<rparr>)"
  using assms mx_inv_same by (simp add: world_inv_def) blast

lemma step_inv:
  assumes "mx_step w w'" and "world_inv w"
  shows "world_inv w'"
proof -
  obtain V where inv: "mx_inv (first_multi w) (first_offset w) (entries w) (unwritten w) V (shared w)"
    using assms(2) unfolding world_inv_def by (elim exE)
  from assms(1) show ?thesis
  proof cases
    case (reserves mode ms ev multi off st')
    from GetNewMultiXactId_inv(3) [OF inv reserves(2-4) refl] show ?thesis
      unfolding reserves(1) by (simp add: world_inv_def add_entry_def Let_def)
  next
    case (reserves_late old mode ms ev multi off st')
    from GetNewMultiXactId_late_inv(3) [OF inv reserves_late(2,4,3,5) refl] show ?thesis
      unfolding reserves_late(1) by (simp add: world_inv_def add_entry_def Let_def)
  next
    case (refused mode n ev err st')
    from GetNewMultiXactId_refused_inv [OF inv refused(2)] show ?thesis unfolding refused(1) by (simp add: world_inv_def)
  next
    case (writes e)
    from record_inv [OF inv writes(2)] show ?thesis unfolding writes(1) by (auto simp: world_inv_def write_entry_def)
  next
    case (moves_oldest dropped kept multi page_exists age mode db ev st')
    have st': "st' = snd (SetMultiXactIdLimit mode page_exists age multi db (shared w))" using moves_oldest(6) by simp
    from limit_inv [where page_exists = page_exists, OF inv [unfolded moves_oldest(2)] moves_oldest(3)
        moves_oldest(4) [unfolded has_page_def] moves_oldest(5)]
    show ?thesis unfolding moves_oldest(1) st' by (auto simp: world_inv_def keep_entries_def)
  qed (use assms(2) in \<open>auto intro!: world_inv_same simp: MultiXactIdSetOldestMember_def MultiXactIdSetOldestVisible_def
      AtEOXact_MultiXact_def PostPrepare_MultiXact_def multixact_twophase_postcommit_def CheckPointMultiXact_def write_all_pages_def Let_def\<close>)
qed

lemma run_inv: "mx_run w \<Longrightarrow> world_inv w"
proof (induction rule: mx_run.induct)
  case (starts mode page_exists age st ev st')
  from start_inv [OF starts] show ?case by (auto simp: world_inv_def)
qed (rule step_inv)

subsection \<open>Looking up a multixact\<close>

definition followed_by :: "mx_entry \<Rightarrow> mx_entry \<Rightarrow> mx_entry list \<Rightarrow> bool" where
  "followed_by e f es \<longleftrightarrow> (\<exists>xs ys. es = xs @ e # f # ys)"

lemma sint_len: "n < 2 ^ 31 \<Longrightarrow> sint (of_nat n :: uint32) = int n"
proof -
  assume "n < 2 ^ 31"
  moreover from this have "uint (of_nat n :: uint32) = int n"
    unfolding uint_of_unat unat_of_nat_uint32 by simp
  ultimately show ?thesis unfolding sint_word32 by simp
qed

lemma extent_last:
  assumes "next_multi = multi + 1"
  shows "multixact_extent obs next_multi next_off multi k
    = Some (offset_entry (obs k) multi, sint (next_off - offset_entry (obs k) multi), k)"
  using assms by (subst multixact_extent.simps) (simp add: Let_def)

lemma extent_next:
  assumes "next_multi \<noteq> multi + 1" and "\<And>i. k \<le> i \<Longrightarrow> i < n \<Longrightarrow> offset_entry (obs i) (valid_next (multi + 1)) = 0"
    and "offset_entry (obs n) (valid_next (multi + 1)) \<noteq> 0" and "k \<le> n"
  shows "multixact_extent obs next_multi next_off multi k
    = Some (offset_entry (obs n) multi, sint (offset_entry (obs n) (valid_next (multi + 1)) - offset_entry (obs n) multi), n)"
  using assms(2,4)
proof (induction "n - k" arbitrary: k)
  case 0
  then have "k = n" by simp
  then show ?case using assms(1,3) by (subst multixact_extent.simps) (simp add: Let_def)
next
  case (Suc d)
  have "multixact_extent obs next_multi next_off multi k = multixact_extent obs next_multi next_off multi (k + 1)"
    using assms(1) Suc.prems(1) [of k] Suc.hyps(2) by (subst multixact_extent.simps) (simp add: Let_def)
  also have "\<dots> = Some (offset_entry (obs n) multi, sint (offset_entry (obs n) (valid_next (multi + 1)) - offset_entry (obs n) multi), n)"
    using Suc.hyps Suc.prems by (intro Suc.hyps(1)) auto
  finally show ?case .
qed

lemma followed_entry:
  assumes "mx_inv v0 p0 es pend V st" and "followed_by e f es"
  shows "e \<in> set es" "f \<in> set es" "fst f = skip0 (fst e) + 1" "fst (snd f) = skip0 (fst (snd e)) + length (mx_members e)"
    and "mx_multi f = valid_next (mx_multi e + 1)" and "nextMXact st \<noteq> mx_multi e + 1"
proof -
  obtain xs ys where es: "es = xs @ e # f # ys" using assms(2) unfolding followed_by_def by (elim exE)
  show e: "e \<in> set es" and f: "f \<in> set es" unfolding es by simp_all
  have "linked v0 p0 (xs @ e # f # ys)" using assms(1) unfolding mx_inv_def es by blast
  then show ff: "fst f = skip0 (fst e) + 1" and "fst (snd f) = skip0 (fst (snd e)) + length (mx_members e)"
    unfolding linked_append by auto
  have "valid_next (of_nat (skip0 (fst e) + 1)) = of_nat (skip0 (skip0 (fst e) + 1))" by (rule valid_next_word)
  then show "mx_multi f = valid_next (mx_multi e + 1)" unfolding mx_multi_def ff by (simp add: add.commute)
  have n: "nextMXact st = of_nat V" using assms(1) by (simp add: mx_inv_def)
  have "skip0 (fst e) + 1 < V" using mx_inv_entries_before(1) [OF assms(1) f] skip0_bounds(1) [of "fst f"] unfolding ff by linarith
  moreover have "V < skip0 (fst e) + 2 ^ 31" by (rule mx_inv_entries_before(2) [OF assms(1) e])
  ultimately show "nextMXact st \<noteq> mx_multi e + 1"
    unfolding n mx_multi_def using of_nat_window_inj [of "skip0 (fst e) + 1" V] by auto
qed

lemma last_entry:
  assumes "mx_inv v0 p0 es pend V st" and "e \<in> set es" and "nextMXact st = mx_multi e + 1"
  shows "nextOffset st = mx_offset e + of_nat (length (mx_members e))"
proof -
  obtain xs ys where es: "es = xs @ e # ys" using assms(2) by (meson split_list)
  have "ys = []"
  proof (cases ys)
    case (Cons f zs)
    then have "followed_by e f es" unfolding followed_by_def es by blast
    with followed_entry(6) [OF assms(1)] assms(3) show ?thesis by blast
  qed
  moreover have "linked v0 p0 es" "nextOffset st = of_nat (snd (mx_end v0 p0 es))" using assms(1) by (simp_all add: mx_inv_def)
  ultimately show ?thesis unfolding es linked_append mx_end_append mx_offset_def by simp
qed

lemma written_entry:
  assumes "mx_inv v0 p0 es pend V st" and "e \<in> set es" and "e \<notin> pend"
  shows "offset_entry (mx_slru st) (mx_multi e) = mx_offset e" "members_at (mx_slru st) (mx_offset e) (mx_members e)"
    and "\<forall>m \<in> set (mx_members e). member_ok m" "length (mx_members e) < 2 ^ 31 - 1"
proof -
  have "linked v0 p0 es" using assms(1) by (simp add: mx_inv_def)
  then show "\<forall>m \<in> set (mx_members e). member_ok m" "length (mx_members e) < 2 ^ 31 - 1"
    using linked_range(3,4) assms(2) by blast+
  show "offset_entry (mx_slru st) (mx_multi e) = mx_offset e" "members_at (mx_slru st) (mx_offset e) (mx_members e)"
    using mx_inv_entries_before(6) [OF assms(1,2)] assms(3) by (simp_all add: stored_def)
qed

lemma read_last:
  assumes "mx_inv v0 p0 es pend V st" and "e \<in> set es" and "e \<notin> pend"
  shows "read_members (mx_slru st) (mx_offset e) (nat (sint (of_nat (length (mx_members e)) :: uint32))) = mx_members e"
  using written_entry [OF assms] by (simp add: sint_len read_members_at)

lemma read_followed:
  assumes inv: "mx_inv v0 p0 es pend V st" and f: "followed_by e f es" and e: "e \<notin> pend"
  shows "read_members (mx_slru st) (mx_offset e) (nat (sint (mx_offset f - mx_offset e))) = mx_members e"
proof -
  note fe = followed_entry [OF inv f]
  note w = written_entry [OF inv fe(1) e]
  let ?q = "skip0 (fst (snd e)) + length (mx_members e)"
  have o: "mx_offset f = of_nat (skip0 ?q)" "mx_offset e = of_nat (skip0 (fst (snd e)))" unfolding mx_offset_def fe(4) by simp_all
  show ?thesis
  proof (cases "?q = skip0 ?q")
    case True
    have "mx_offset f - mx_offset e = of_nat (length (mx_members e))" unfolding o True [symmetric] by simp
    then show ?thesis using read_last [OF inv fe(1) e] by simp
  next
    case False
    then have s: "skip0 ?q = ?q + 1" using skip0_bounds [of ?q] by linarith
    have "mx_offset f - mx_offset e = of_nat (Suc (length (mx_members e)))" unfolding o s by simp
    then have "nat (sint (mx_offset f - mx_offset e)) = Suc (length (mx_members e))"
      using w(4) sint_len [of "Suc (length (mx_members e))"] by simp
    moreover have "slot_xid (mx_slru st) (of_nat ?q) = 0"
      using mx_inv_entries_before(6) [OF inv fe(2)] False unfolding stored_def fe(4) by simp
    then have "\<not> TransactionIdIsValid (slot_xid (mx_slru st) (mx_offset e + of_nat (length (mx_members e))))"
      unfolding o by (simp add: TransactionIdIsValid_def InvalidTransactionId_def)
    ultimately show ?thesis using read_members_gap [OF w(2,3)] by simp
  qed
qed

text \<open>The length that a lookup computes is that of the set, or one more over the unused offset zero; both can be allocated.\<close>

definition members_fit :: "MultiXactMember list \<Rightarrow> bool" where
  "members_fit ms \<longleftrightarrow> length ms < 2 ^ 27 - 3"

lemma alloc_last: "members_fit ms \<Longrightarrow> members_alloc_ok (sint (of_nat (length ms) :: uint32))"
  by (simp add: members_fit_def sint_len members_alloc_ok_def MaxAllocSize_def)

lemma alloc_followed:
  assumes "mx_inv v0 p0 es pend V st" and "followed_by e f es" and "members_fit (mx_members e)"
  shows "members_alloc_ok (sint (mx_offset f - mx_offset e))"
proof -
  let ?q = "skip0 (fst (snd e)) + length (mx_members e)"
  have o: "mx_offset f = of_nat (skip0 ?q)" "mx_offset e = of_nat (skip0 (fst (snd e)))"
    unfolding mx_offset_def followed_entry(4) [OF assms(1,2)] by simp_all
  have "skip0 ?q = ?q \<or> skip0 ?q = ?q + 1" using skip0_bounds [of ?q] by linarith
  then have "mx_offset f - mx_offset e = of_nat (length (mx_members e)) \<or> mx_offset f - mx_offset e = of_nat (Suc (length (mx_members e)))"
    unfolding o by auto
  then show ?thesis
    using assms(3) sint_len [of "length (mx_members e)"] sint_len [of "Suc (length (mx_members e))"]
    by (auto simp: members_fit_def members_alloc_ok_def MaxAllocSize_def)
qed

text \<open>The last multixact ends at the counters, unless the counter has been moved on past its wrapped value.\<close>

lemma last_next:
  assumes "mx_inv v0 p0 es pend V st" and "es \<noteq> []" and "e = last es"
    and "\<not> (mx_multi e = MaxMultiXactId \<and> nextMXact st = FirstMultiXactId)"
  shows "nextMXact st = mx_multi e + 1"
proof -
  have V: "nextMXact st = of_nat V" "V \<in> {fst (mx_end v0 p0 es), skip0 (fst (mx_end v0 p0 es))}" and l: "linked v0 p0 es"
    using assms(1) by (simp_all only: mx_inv_def)
  have es: "es = butlast es @ [e]" using assms(2,3) by simp
  have "fst (mx_end v0 p0 es) = skip0 (fst e) + 1"
    using l by (subst (asm) es, subst es) (simp add: linked_append mx_end_append)
  then have d: "V = skip0 (fst e) + 1 \<or> V = skip0 (skip0 (fst e) + 1)" using V(2) by simp
  show ?thesis
  proof (cases "V = skip0 (fst e) + 1")
    case True
    then show ?thesis by (simp add: V(1) mx_multi_def)
  next
    case False
    then have s: "V = skip0 (skip0 (fst e) + 1)" "skip0 (fst e) + 1 \<noteq> skip0 (skip0 (fst e) + 1)" using d by simp_all
    from skip0_changed [OF s(2)] have z: "(of_nat (skip0 (fst e) + 1) :: uint32) = 0" by simp
    then have "mx_multi e + 1 = 0" by (simp add: mx_multi_def add.commute)
    then have "mx_multi e = - 1" by (simp add: eq_neg_iff_add_eq_0)
    moreover have "nextMXact st = valid_next 0" unfolding V(1) s(1) z [symmetric] by (rule valid_next_word [symmetric])
    ultimately show ?thesis using assms(4) by (simp add: MaxMultiXactId_def FirstMultiXactId_def valid_next_def)
  qed
qed

text \<open>The guards of a lookup let every existing multixact pass.\<close>

lemma lookup_guards:
  assumes "mx_inv v0 p0 es pend V st" and "e \<in> set es"
  shows "MultiXactIdIsValid (mx_multi e)" "\<not> MultiXactIdPrecedes (mx_multi e) (oldestMultiXactId st)"
    "MultiXactIdPrecedes (mx_multi e) (nextMXact st)"
proof -
  show "MultiXactIdIsValid (mx_multi e)"
    using skip0_nonzero [of "fst e"] by (simp add: MultiXactIdIsValid_def InvalidMultiXactId_def mx_multi_def)
  have st: "oldestMultiXactId st = of_nat (skip0 v0)" "nextMXact st = of_nat V" "skip0 v0 \<le> V" "V < skip0 v0 + 2 ^ 31 - 1"
    "linked v0 p0 es" using assms(1) skip0_bounds(1) [of V] by (simp_all add: mx_inv_def)
  have "skip0 v0 \<le> skip0 (fst e)" using linked_range(1) [OF st(5) assms(2)] by (intro skip0_mono) simp
  moreover have "skip0 (fst e) < V" by (rule mx_inv_entries_before(1) [OF assms])
  ultimately have d: "unat (mx_multi e - of_nat (skip0 v0)) = skip0 (fst e) - skip0 v0"
      "unat (of_nat V - of_nat (skip0 v0) :: uint32) = V - skip0 v0" "unat (of_nat (skip0 v0) - of_nat (skip0 v0) :: uint32) = 0"
      "skip0 (fst e) - skip0 v0 < V - skip0 v0" "V - skip0 v0 < 2147483648"
    using st(4) unat_distance [of "skip0 v0" "skip0 (fst e)"] unat_distance [of "skip0 v0" V]
    by (auto simp: mx_multi_def)
  show "\<not> MultiXactIdPrecedes (mx_multi e) (oldestMultiXactId st)" "MultiXactIdPrecedes (mx_multi e) (nextMXact st)"
    unfolding st(1,2) using d by (simp_all add: MultiXactIdPrecedes_window [of _ "of_nat (skip0 v0)"])
qed

subsection \<open>Traces\<close>

text \<open>While a multixact exists, it stays written and keeps its successor.\<close>

lemma followed_by_append: "followed_by e f es \<Longrightarrow> followed_by e f (es @ zs)"
  unfolding followed_by_def by (metis append.assoc append_Cons)

lemma followed_by_suffix:
  assumes "followed_by e f (dropped @ kept)" and "e \<notin> set dropped"
  shows "followed_by e f kept"
proof -
  obtain xs ys where s: "dropped @ kept = xs @ e # f # ys" using assms(1) unfolding followed_by_def by (elim exE)
  from s consider us where "xs = dropped @ us" "kept = us @ e # f # ys" | u us where "dropped = xs @ u # us" "u # us @ kept = e # f # ys"
    by (auto simp: append_eq_append_conv2 append_eq_Cons_conv)
  then show ?thesis
  proof cases
    case 1
    then show ?thesis unfolding followed_by_def by blast
  next
    case 2
    with assms(2) show ?thesis by simp
  qed
qed

lemma world_inv_distinct:
  assumes "world_inv w"
  shows "distinct (entries w)"
proof -
  have d: "distinct es" if "linked v p es" for v p es
    using that
  proof (induction es arbitrary: v p)
    case (Cons e es)
    have "e \<notin> set es"
    proof
      assume "e \<in> set es"
      with linked_range(1) [of "skip0 v + 1" "skip0 p + length (mx_members e)" es e] Cons.prems skip0_bounds(1) [of v]
      show False by auto
    qed
    with Cons show ?case by auto
  qed simp
  show ?thesis using assms d unfolding world_inv_def mx_inv_def by blast
qed

lemma step_keeps:
  assumes "mx_step w w'" and "world_inv w" and "e \<in> entries_set" and "entries_set = set (entries w) \<inter> set (entries w')"
  shows "e \<notin> unwritten w \<Longrightarrow> e \<notin> unwritten w'" and "followed_by e f (entries w) \<Longrightarrow> followed_by e f (entries w')"
proof -
  have e: "e \<in> set (entries w)" "e \<in> set (entries w')" using assms(3,4) by simp_all
  have "(e \<notin> unwritten w \<longrightarrow> e \<notin> unwritten w') \<and> (followed_by e f (entries w) \<longrightarrow> followed_by e f (entries w'))"
    using assms(1)
  proof cases
    case (moves_oldest dropped kept multi page_exists age mode db ev st')
    have "e \<notin> set dropped"
      using world_inv_distinct [OF assms(2)] e(2) unfolding moves_oldest(1,2) by (auto simp: keep_entries_def)
    then show ?thesis using followed_by_suffix unfolding moves_oldest(1,2) by (auto simp: keep_entries_def)
  next
    case (reserves mode ms ev multi off st')
    have "distinct (entries w')" using world_inv_distinct step_inv assms(1,2) by blast
    then show ?thesis using e(1) unfolding reserves(1) by (auto simp: add_entry_def Let_def followed_by_append)
  next
    case (reserves_late old mode ms ev multi off st')
    have "distinct (entries w')" using world_inv_distinct step_inv assms(1,2) by blast
    then show ?thesis using e(1) unfolding reserves_late(1) by (auto simp: add_entry_def Let_def followed_by_append)
  qed (auto simp: write_entry_def)
  then show "e \<notin> unwritten w \<Longrightarrow> e \<notin> unwritten w'" "followed_by e f (entries w) \<Longrightarrow> followed_by e f (entries w')" by blast+
qed

lemma trace_keeps:
  assumes "mx_run (W 0)" and "\<And>i. mx_step (W i) (W (Suc i))" and "\<And>i. e \<in> set (entries (W i))"
  shows "world_inv (W i)" and "e \<notin> unwritten (W 0) \<Longrightarrow> e \<notin> unwritten (W i)"
    and "followed_by e f (entries (W 0)) \<Longrightarrow> followed_by e f (entries (W i))"
proof -
  have inv: "world_inv (W i)" for i
    by (induction i) (use run_inv [OF assms(1)] step_inv [OF assms(2)] in auto)
  then show "world_inv (W i)" .
  have mem: "e \<in> set (entries (W i)) \<inter> set (entries (W (Suc i)))" for i using assms(3) by blast
  show "e \<notin> unwritten (W i)" if "e \<notin> unwritten (W 0)"
    by (induction i) (use that step_keeps(1) [OF assms(2) inv mem refl] in auto)
  show "followed_by e f (entries (W i))" if "followed_by e f (entries (W 0))"
    by (induction i) (use that step_keeps(2) [OF assms(2) inv mem refl] in auto)
qed

subsection \<open>Lookups in a run\<close>

lemma insert_member_mset: "mset (insert_member m ms) = add_mset m (mset ms)"
  by (induction ms) auto

lemma qsort_members_mset: "mset (qsort_members ms) = mset ms"
  by (induction ms) (simp_all add: qsort_members_def insert_member_mset)

text \<open>A cache is coherent for a multixact when its entries for it hold the members.\<close>

definition cache_coherent :: "mx_entry \<Rightarrow> MXactCache \<Rightarrow> bool" where
  "cache_coherent e c \<longleftrightarrow> (\<forall>(multi, ms) \<in> set c. multi = mx_multi e \<longrightarrow> mset ms = mset (mx_members e))"

lemma mxact_cache_search_some:
  "mxact_cache_search found c = Some (x, c') \<Longrightarrow> found x \<and> mset c = add_mset x (mset c')"
  by (induction c arbitrary: c') (auto split: if_splits option.splits)

lemma mXactCacheGetById_cases:
  obtains (hit) ms c' where "mXactCacheGetById multi c = (Some ms, c')" "(multi, ms) \<in> set c" "set c' = set c"
  | (miss) "mXactCacheGetById multi c = (None, c)"
proof (cases "mxact_cache_search (\<lambda>(m, _). m = multi) c")
  case None
  then show thesis by (intro miss) (simp add: mXactCacheGetById_def)
next
  case (Some r)
  obtain x es where r: "r = (x, es)" by (rule prod.exhaust)
  obtain m ms where x: "x = (m, ms)" by (rule prod.exhaust)
  from mxact_cache_search_some [OF Some [unfolded r]] have m: "m = multi" "mset c = add_mset x (mset es)" unfolding x by simp_all
  then have "set c = insert x (set es)" by (metis set_mset_add_mset_insert set_mset_mset)
  then show thesis using Some unfolding r x by (intro hit [of ms "(m, ms) # es"]) (simp_all add: mXactCacheGetById_def m(1))
qed

lemma cache_coherent_put:
  assumes "cache_coherent e c" and "multi = mx_multi e \<Longrightarrow> mset ms = mset (mx_members e)"
  shows "cache_coherent e (mXactCachePut multi ms c)"
proof -
  have "set (mXactCachePut multi ms c) \<subseteq> insert (multi, qsort_members ms) (set c)"
    unfolding mXactCachePut_def Let_def by (auto dest: in_set_butlastD split: if_splits)
  then show ?thesis using assms unfolding cache_coherent_def by (auto simp: qsort_members_mset)
qed

text \<open>A lookup that has read the extent at some attempt returns what that attempt sees.\<close>

lemma lookup_uncached:
  assumes "MultiXactIdIsValid multi" and "mXactCacheGetById multi c = (None, c)"
    and "\<not> MultiXactIdPrecedes multi (oldestMultiXactId st)" and "MultiXactIdPrecedes multi (nextMXact st)"
    and "multixact_extent obs (nextMXact st) (nextOffset st) multi 0 = Some (off, len, k)" and "members_alloc_ok len"
  shows "GetMultiXactIdMembers me obs multi False False (st, c) =
    Some (Inr (Some (read_members (obs k) off (nat len))), MultiXactIdSetOldestVisible me st,
          mXactCachePut multi (read_members (obs k) off (nat len)) c)"
  using assms unfolding GetMultiXactIdMembers_def MultiXactIdSetOldestVisible_def by (simp add: Let_def)

lemma extent_in_trace:
  assumes run: "mx_run (W 0)" and trace: "\<And>i. mx_step (W i) (W (Suc i))" and e: "\<And>i. e \<in> set (entries (W i))"
    and written: "e \<notin> unwritten (W 0)" and fit: "members_fit (mx_members e)"
    and ends: "nextMXact (shared (W 0)) = mx_multi e + 1
      \<or> (\<exists>f k. followed_by e f (entries (W 0)) \<and> f \<notin> unwritten (W (t k)))"
  shows "\<exists>off len k. multixact_extent (\<lambda>k. mx_slru (shared (W (t k)))) (nextMXact (shared (W 0))) (nextOffset (shared (W 0)))
      (mx_multi e) 0 = Some (off, len, k) \<and> members_alloc_ok len
      \<and> read_members (mx_slru (shared (W (t k)))) off (nat len) = mx_members e"
proof -
  define obs where "obs = (\<lambda>k. mx_slru (shared (W (t k))))"
  have inv: "\<exists>V. mx_inv (first_multi (W i)) (first_offset (W i)) (entries (W i)) (unwritten (W i)) V (shared (W i))" for i
    using trace_keeps(1) [OF run trace e] unfolding world_inv_def .
  have w: "e \<notin> unwritten (W i)" for i by (rule trace_keeps(2) [OF run trace e written])
  have off: "offset_entry (obs k) (mx_multi e) = mx_offset e" for k
    using inv written_entry(1) e w unfolding obs_def by blast
  from ends show ?thesis
  proof
    assume l: "nextMXact (shared (W 0)) = mx_multi e + 1"
    obtain V where V: "mx_inv (first_multi (W 0)) (first_offset (W 0)) (entries (W 0)) (unwritten (W 0)) V (shared (W 0))"
      using inv [of 0] by (elim exE)
    have "nextOffset (shared (W 0)) - mx_offset e = of_nat (length (mx_members e))" using last_entry [OF V e l] by simp
    moreover have "read_members (obs 0) (mx_offset e) (nat (sint (of_nat (length (mx_members e)) :: uint32))) = mx_members e"
      using inv [of "t 0"] read_last e w unfolding obs_def by blast
    ultimately show ?thesis unfolding obs_def [symmetric] extent_last [OF l] off using alloc_last [OF fit] by (auto simp: obs_def)
  next
    assume "\<exists>f k. followed_by e f (entries (W 0)) \<and> f \<notin> unwritten (W (t k))"
    then obtain f j where f: "followed_by e f (entries (W 0))" and j: "f \<notin> unwritten (W (t j))" by (elim exE conjE)
    define n where "n = (LEAST k. f \<notin> unwritten (W (t k)))"
    have n: "f \<notin> unwritten (W (t n))" unfolding n_def using j by (rule LeastI)
    have fi: "followed_by e f (entries (W i))" for i by (rule trace_keeps(3) [OF run trace e f])
    have f_in: "f \<in> set (entries (W i))" for i using fi [of i] unfolding followed_by_def by auto
    obtain V where V: "mx_inv (first_multi (W 0)) (first_offset (W 0)) (entries (W 0)) (unwritten (W 0)) V (shared (W 0))"
      using inv [of 0] by (elim exE)
    note fe = followed_entry(5,6) [OF V f]
    have next_off: "offset_entry (obs k) (mx_multi f) = (if f \<in> unwritten (W (t k)) then 0 else mx_offset f)" for k
      using inv [of "t k"] mx_inv_entries_before(6) [OF _ f_in] unfolding obs_def stored_def by metis
    have zero: "offset_entry (obs i) (valid_next (mx_multi e + 1)) = 0" if "i < n" for i
      unfolding fe(1) [symmetric] next_off using not_less_Least [OF that [unfolded n_def]] by simp
    have nz: "offset_entry (obs n) (valid_next (mx_multi e + 1)) = mx_offset f"
      unfolding fe(1) [symmetric] next_off using n by simp
    then have "offset_entry (obs n) (valid_next (mx_multi e + 1)) \<noteq> 0" by (simp add: mx_offset_def skip0_nonzero)
    note ext = extent_next [where obs = obs and k = 0 and n = n, OF fe(2) zero this le0]
    have "read_members (obs n) (mx_offset e) (nat (sint (mx_offset f - mx_offset e))) = mx_members e"
      using inv [of "t n"] read_followed fi w unfolding obs_def by blast
    then show ?thesis unfolding obs_def [symmetric] using ext off nz alloc_followed [OF V f fit] by (auto simp: obs_def)
  qed
qed


text \<open>
  The excepted state: as long as no other multixact is created, the lookup of the highest id never returns.
\<close>

lemma extent_returns:
  assumes "multixact_extent obs next_multi next_off multi k = Some r"
  shows "next_multi = multi + 1 \<or> (\<exists>k. offset_entry (obs k) (valid_next (multi + 1)) \<noteq> 0)"
proof (rule multixact_extent.raw_induct [OF _ assms,
      where P = "\<lambda>obs next_multi next_off multi k r. next_multi = multi + 1 \<or> (\<exists>k. offset_entry (obs k) (valid_next (multi + 1)) \<noteq> 0)"])
  fix f obs next_multi next_off multi k r
  assume ih: "\<And>obs next_multi next_off multi k r. f obs next_multi next_off multi k = Some r \<Longrightarrow>
      next_multi = multi + 1 \<or> (\<exists>k. offset_entry (obs k) (valid_next (multi + 1)) \<noteq> 0)"
    and "(let off = offset_entry (obs k) multi
      in if next_multi = multi + 1 then Some (off, sint (next_off - off), k)
         else if offset_entry (obs k) (valid_next (multi + 1)) = 0 then f obs next_multi next_off multi (k + 1)
         else Some (off, sint (offset_entry (obs k) (valid_next (multi + 1)) - off), k)) = Some r"
  then show "next_multi = multi + 1 \<or> (\<exists>k. offset_entry (obs k) (valid_next (multi + 1)) \<noteq> 0)"
    using ih [of obs next_multi next_off multi "k + 1" r] unfolding Let_def by (metis (no_types, lifting))
qed

lemma lookup_waits_forever:
  assumes "mXactCacheGetById MaxMultiXactId c = (None, c)" and "nextMXact st = FirstMultiXactId"
    and "\<not> MultiXactIdPrecedes MaxMultiXactId (oldestMultiXactId st)"
    and "\<And>k. offset_entry (obs k) FirstMultiXactId = 0"
  shows "GetMultiXactIdMembers me obs MaxMultiXactId False False (st, c) = None"
proof -
  have v: "valid_next (MaxMultiXactId + 1) = FirstMultiXactId" "nextMXact st \<noteq> MaxMultiXactId + 1"
    using assms(2) by (simp_all add: MaxMultiXactId_def FirstMultiXactId_def valid_next_def)
  have "multixact_extent obs (nextMXact st) (nextOffset st) MaxMultiXactId 0 = None"
    using extent_returns [of obs "nextMXact st" "nextOffset st" MaxMultiXactId 0] v assms(4)
    by (cases "multixact_extent obs (nextMXact st) (nextOffset st) MaxMultiXactId 0") auto
  moreover have "MultiXactIdPrecedes MaxMultiXactId FirstMultiXactId" by code_simp
  ultimately show ?thesis
    using assms(1-3) unfolding GetMultiXactIdMembers_def MultiXactIdSetOldestVisible_def
    by (simp add: Let_def MultiXactIdIsValid_def InvalidMultiXactId_def MaxMultiXactId_def)
qed

definition sample_mode :: process_mode where
  "sample_mode = \<lparr>IsInParallelMode = False, IsBootstrapProcessingMode = False, RecoveryInProgress = False, IsUnderPostmaster = True\<rparr>"

definition sample_multixacts :: MultiXactStateData where
  "sample_multixacts = \<lparr>nextMXact = 1, nextOffset = 0, finishedStartup = False, oldestMultiXactId = 1, oldestMultiXactDB = 1,
     oldestOffset = 0, oldestOffsetKnown = False, multiVacLimit = 0, multiWarnLimit = 0, multiStopLimit = 0, multiWrapLimit = 0,
     offsetStopLimit = 0, OldestMemberMXactId = (\<lambda>_. 1), OldestVisibleMXactId = (\<lambda>_. 0), MaxOldestSlot = 2,
     mx_slru = \<lparr>mxo_buffer = (\<lambda>_ _. 0), mxo_dirty = (\<lambda>_. False), mxo_latest_page = 0,
                mxm_buffer = (\<lambda>_ _. 0), mxm_dirty = (\<lambda>_. False), mxm_latest_page = 0\<rparr>\<rparr>"

definition sample_members :: "MultiXactMember list" where
  "sample_members = [\<lparr>mem_xid = 100, mem_status = MultiXactStatusForShare\<rparr>, \<lparr>mem_xid = 101, mem_status = MultiXactStatusNoKeyUpdate\<rparr>]"

definition sample_start :: mx_world where
  "sample_start = \<lparr>first_multi = unat (nextMXact sample_multixacts), first_offset = unat (nextOffset sample_multixacts), entries = [],
     unwritten = {}, shared = snd (TrimMultiXact sample_mode (\<lambda>_. True) 400000000 sample_multixacts)\<rparr>"

definition sample_reserved :: mx_world where
  "sample_reserved = add_entry sample_members (snd (snd (GetNewMultiXactId sample_mode (\<lambda>s. s) 2 (shared sample_start)))) sample_start"

definition sample_entry :: mx_entry where
  "sample_entry = (1, 0, sample_members)"

definition sample_written :: mx_world where
  "sample_written = write_entry sample_entry sample_reserved"

lemma sample_members_ok: "members_ok sample_members"
  by (simp add: members_ok_def sample_members_def member_ok_def TransactionIdIsValid_def InvalidTransactionId_def
      MultiXactStatusForShare_def MultiXactStatusNoKeyUpdate_def MultiXactStatusUpdate_def word_le_nat_alt)

lemma sample_start_fields:
  "nextMXact (shared sample_start) = 1" "nextOffset (shared sample_start) = 0" "multiVacLimit (shared sample_start) = 400000001"
  "oldestOffsetKnown (shared sample_start)" "offsetStopLimit (shared sample_start) = - 52352"
  "OldestMemberMXactId (shared sample_start) = (\<lambda>_. 1)"
  by (simp_all add: sample_start_def TrimMultiXact_def SetMultiXactIdLimit_def SetOffsetVacuumLimit_def Let_def sample_multixacts_def
      FirstMultiXactId_def members_per_segment_def mx_members_per_page SLRU_PAGES_PER_SEGMENT_def)

lemma sample_assigned: "snd (GetNewMultiXactId sample_mode (\<lambda>s. s) 2 (shared sample_start))
  = (Inr (1, 1), snd (snd (reserve_multixact 2 1 (shared sample_start))))"
proof -
  have f: "shared sample_start = (shared sample_start)\<lparr>nextMXact := valid_next (nextMXact (shared sample_start))\<rparr>"
    by (simp add: sample_start_fields valid_next_def FirstMultiXactId_def)
  have "MultiXactIdPrecedes 1 400000001" "\<not> MultiXactOffsetWouldWrap (- 52352) 0 3" by code_simp+
  then show ?thesis
    unfolding GetNewMultiXactId_outcome [OF f]
    by (simp add: prod_eq_iff sample_start_fields reserve_multixact_result reserved_slots_def sample_mode_def)
qed

lemma sample_reserved_state: "\<exists>slru. shared sample_reserved = (shared sample_start)\<lparr>mx_slru := slru, nextMXact := 2, nextOffset := 3\<rparr>"
proof -
  have "\<not> MultiXactOffsetWouldWrap (- 52352) 0 3" by code_simp
  then have "reserve_multixact 2 1 (shared sample_start)
      = (fst (reserve_multixact 2 1 (shared sample_start)), Inr (1, 1), snd (snd (reserve_multixact 2 1 (shared sample_start))))"
    by (simp add: prod_eq_iff reserve_multixact_result sample_start_fields reserved_slots_def)
  from reserve_multixact_Inr(4) [OF this] show ?thesis
    unfolding sample_reserved_def add_entry_def Let_def sample_assigned by (auto simp: sample_start_fields reserved_slots_def)
qed

lemma sample_run: "mx_run sample_start" "mx_run sample_reserved" "mx_run sample_written"
proof -
  show s: "mx_run sample_start"
    unfolding sample_start_def
    by (rule starts [where mode = sample_mode and page_exists = "\<lambda>_. True" and age = 400000000, OF prod.collapse [symmetric]])
      (simp_all add: sample_multixacts_def MultiXactIdIsValid_def InvalidMultiXactId_def word_le_nat_alt)
  have "fst (snd (GetNewMultiXactId sample_mode (\<lambda>s. s) 2 (shared sample_start))) = Inr (1, 1)"
    unfolding sample_assigned by simp
  moreover have "length sample_members = 2" by (simp add: sample_members_def)
  ultimately have g: "GetNewMultiXactId sample_mode (\<lambda>s. s) (length sample_members) (shared sample_start)
      = (fst (GetNewMultiXactId sample_mode (\<lambda>s. s) 2 (shared sample_start)), Inr (1, 1),
         snd (snd (GetNewMultiXactId sample_mode (\<lambda>s. s) 2 (shared sample_start))))" by (simp add: prod_eq_iff)
  show r: "mx_run sample_reserved"
    unfolding sample_reserved_def by (rule steps [OF s reserves [OF g _ sample_members_ok]]) (simp add: sample_mode_def)
  have "sample_entry \<in> unwritten sample_reserved"
    by (simp add: sample_reserved_def add_entry_def next_entry_def sample_entry_def sample_start_def sample_multixacts_def Let_def)
  from steps [OF r writes [OF this]] show "mx_run sample_written" unfolding sample_written_def .
qed


end
