(* ===== verification/MultiXactReplay.thy ===== *)
theory MultiXactReplay
  imports MultiXactRuns
begin

section \<open>Creating, replaying and truncating multixacts\<close>

text \<open>
  What the runs give for whole operations: a new multixact reads back as the sorted list of its members, the
  records that a creation writes rebuild both logs and both counters when they are replayed, and a truncation
  ends and leaves every segment alone that holds a member still needed. One path of
  \<open>GetNewMultiXactId\<close> assigns an id twice.
\<close>

subsection \<open>Replay\<close>

fun wal_records :: "multixact_event list \<Rightarrow> multixact_record list" where
  "wal_records [] = []" |
  "wal_records (MxInsert r # evs) = r # wal_records evs" |
  "wal_records (_ # evs) = wal_records evs"

fun redo_all ::
  "process_mode \<Rightarrow> (nat \<Rightarrow> bool) \<Rightarrow> uint32 \<Rightarrow> TransactionId \<Rightarrow> multixact_record list \<Rightarrow> MultiXactStateData \<times> VariableCache \<Rightarrow>
   (MultiXactStateData \<times> VariableCache) option" where
  "redo_all mode page_exists age xid [] sv = Some sv" |
  "redo_all mode page_exists age xid (r # rs) sv =
     (case multixact_redo mode page_exists age xid r sv of
        None \<Rightarrow> None
      | Some (_, sv) \<Rightarrow> redo_all mode page_exists age xid rs sv)"

lemma wal_records_append: "wal_records (a @ b) = wal_records a @ wal_records b"
  by (induction a rule: wal_records.induct) auto

lemma wal_records_inserts: "wal_records (map MxInsert rs) = rs"
  by (induction rs) auto

lemma redo_all_append:
  "redo_all mode pe age xid (a @ b) sv = Option.bind (redo_all mode pe age xid a sv) (redo_all mode pe age xid b)"
  by (induction a arbitrary: sv) (auto split: option.splits)

text \<open>The replayed state has the contents of the logs and the counters of the original.\<close>

definition same_logs :: "MultiXactSlru \<Rightarrow> MultiXactSlru \<Rightarrow> bool" where
  "same_logs a b \<longleftrightarrow> mxo_buffer a = mxo_buffer b \<and> mxm_buffer a = mxm_buffer b"

lemma redo_offset_page:
  assumes "same_logs (mx_slru r) s"
  shows "\<exists>slru. redo_all mode pe age xid (fst (ExtendMultiXactOffset multi s)) (r, vc) = Some (r\<lparr>mx_slru := slru\<rparr>, vc)
    \<and> same_logs slru (snd (ExtendMultiXactOffset multi s))"
proof (cases "MultiXactIdToOffsetEntry multi \<noteq> 0 \<and> multi \<noteq> FirstMultiXactId")
  case True
  then show ?thesis using assms by (intro exI [of _ "mx_slru r"]) (simp add: ExtendMultiXactOffset_def)
next
  case False
  let ?z = "ZeroMultiXactOffsetPage (MultiXactIdToOffsetPage multi) (mx_slru r)"
  let ?slru = "?z\<lparr>mxo_dirty := (mxo_dirty ?z)(MultiXactIdToOffsetPage multi := False)\<rparr>"
  have x: "ExtendMultiXactOffset multi s = ([XLOG_MULTIXACT_ZERO_OFF_PAGE (MultiXactIdToOffsetPage multi)],
      ZeroMultiXactOffsetPage (MultiXactIdToOffsetPage multi) s)" unfolding ExtendMultiXactOffset_def using False by (rule if_not_P)
  have "redo_all mode pe age xid [XLOG_MULTIXACT_ZERO_OFF_PAGE (MultiXactIdToOffsetPage multi)] (r, vc) = Some (r\<lparr>mx_slru := ?slru\<rparr>, vc)"
    by (simp add: multixact_redo_def Let_def)
  moreover have "same_logs ?slru (ZeroMultiXactOffsetPage (MultiXactIdToOffsetPage multi) s)"
    using assms by (simp add: same_logs_def ZeroMultiXactOffsetPage_def)
  ultimately show ?thesis unfolding x by (intro exI [of _ ?slru]) simp
qed

lemma ExtendMultiXactMember_records:
  "0 < n \<Longrightarrow> fst (ExtendMultiXactMember off n s)
     = (if unat off mod 1636 = 0 then [XLOG_MULTIXACT_ZERO_MEM_PAGE (MXOffsetToMemberPage off)] else [])
       @ fst (ExtendMultiXactMember (off + mx_page_rest off) (n - unat (mx_page_rest off))
           (if unat off mod 1636 = 0 then ZeroMultiXactMemberPage (MXOffsetToMemberPage off) s else s))"
  by (subst ExtendMultiXactMember.simps) (simp add: first_of_page case_prod_beta Let_def)

lemma redo_zero_mem:
  assumes "same_logs (mx_slru r) s"
  obtains slru where "redo_all mode pe age xid [XLOG_MULTIXACT_ZERO_MEM_PAGE p] (r, vc) = Some (r\<lparr>mx_slru := slru\<rparr>, vc)"
    and "same_logs slru (ZeroMultiXactMemberPage p s)"
proof -
  let ?z = "ZeroMultiXactMemberPage p (mx_slru r)"
  have "redo_all mode pe age xid [XLOG_MULTIXACT_ZERO_MEM_PAGE p] (r, vc)
      = Some (r\<lparr>mx_slru := ?z\<lparr>mxm_dirty := (mxm_dirty ?z)(p := False)\<rparr>\<rparr>, vc)"
    by (simp add: multixact_redo_def Let_def)
  then show ?thesis by (rule that) (use assms in \<open>simp add: same_logs_def ZeroMultiXactMemberPage_def\<close>)
qed

lemma redo_member_pages:
  assumes "same_logs (mx_slru r) s"
  shows "\<exists>slru. redo_all mode pe age xid (fst (ExtendMultiXactMember off n s)) (r, vc) = Some (r\<lparr>mx_slru := slru\<rparr>, vc)
    \<and> same_logs slru (snd (ExtendMultiXactMember off n s))"
  using assms
proof (induction n arbitrary: off s r rule: less_induct)
  case (less n)
  show ?case
  proof (cases "0 < n")
    case False
    then show ?thesis using less.prems by (intro exI [of _ "mx_slru r"]) (simp add: ExtendMultiXactMember.simps)
  next
    case True
    then have lt: "n - unat (mx_page_rest off) < n" using mx_page_rest_positive [of off] by simp
    show ?thesis
    proof (cases "unat off mod 1636 = 0")
      case first: True
      obtain slru where z: "redo_all mode pe age xid [XLOG_MULTIXACT_ZERO_MEM_PAGE (MXOffsetToMemberPage off)] (r, vc)
          = Some (r\<lparr>mx_slru := slru\<rparr>, vc)" and l: "same_logs slru (ZeroMultiXactMemberPage (MXOffsetToMemberPage off) s)"
        by (rule redo_zero_mem [OF less.prems])
      have l': "same_logs (mx_slru (r\<lparr>mx_slru := slru\<rparr>)) (ZeroMultiXactMemberPage (MXOffsetToMemberPage off) s)" using l by simp
      from less.IH [OF lt l', of "off + mx_page_rest off"] show ?thesis
        unfolding ExtendMultiXactMember_records [OF True] ExtendMultiXactMember_step [OF True] if_P [OF first] redo_all_append z
          bind.bind_lunit by simp
    next
      case False
      from less.IH [OF lt less.prems, of "off + mx_page_rest off"] show ?thesis
        unfolding ExtendMultiXactMember_records [OF True] ExtendMultiXactMember_step [OF True]
        by (simp only: False if_False append_Nil)
    qed
  qed
qed

lemma record_members_same:
  "mxm_buffer a = mxm_buffer b \<Longrightarrow> mxm_buffer (record_members off ms a) = mxm_buffer (record_members off ms b)"
  by (induction ms arbitrary: off a b) (simp_all add: Let_def)

lemma RecordNewMultiXact_same: "same_logs a b \<Longrightarrow> same_logs (RecordNewMultiXact multi off ms a) (RecordNewMultiXact multi off ms b)"
  unfolding same_logs_def RecordNewMultiXact_def Let_def by (auto simp: record_members_offsets intro!: record_members_same)

lemma reserve_multixact_records:
  assumes "reserve_multixact n result st = (ev, Inr (multi, off), st')"
  shows "wal_records ev = fst (ExtendMultiXactOffset result (mx_slru st))
    @ fst (ExtendMultiXactMember (nextOffset st) (reserved_slots (nextOffset st) n) (snd (ExtendMultiXactOffset result (mx_slru st))))"
  using assms unfolding reserve_multixact_def reserved_slots_def
  by (auto simp: Let_def case_prod_beta wal_records_append wal_records_inserts split: if_splits)

text \<open>The counters after replaying a creation.\<close>

lemma advanced_next:
  assumes "nextMXact r = m" and "nextOffset r = o1" and "0 < n" and "n < 2 ^ 31 - 1"
    and "r' = MultiXactAdvanceNextMXact (valid_next m + 1) ((if o1 = 0 then 1 else o1) + of_nat n) r"
  shows "nextMXact r' = valid_next m + 1" and "nextOffset r' = o1 + of_nat (reserved_slots o1 n)" and "mx_slru r' = mx_slru r"
proof -
  have "m - (valid_next m + 1) = - 1 \<or> m - (valid_next m + 1) = - 2"
    by (cases "m = 0") (simp_all add: valid_next_def FirstMultiXactId_def)
  moreover have "sint (- 1 :: uint32) < 0" "sint (- 2 :: uint32) < 0" by code_simp+
  ultimately have m: "MultiXactIdPrecedes m (valid_next m + 1)" unfolding MultiXactIdPrecedes_def by (elim disjE) (simp_all only:)
  have k: "0 < reserved_slots o1 n" "reserved_slots o1 n < 2 ^ 31" using assms(3,4) by (simp_all add: reserved_slots_def)
  have "sint (0 - of_nat (reserved_slots o1 n) :: uint32) = - int (reserved_slots o1 n)"
    using k by (subst sint_diff_word32) (simp_all add: unat_of_nat_uint32 unsigned_of_nat take_bit_nat_eq_self)
  moreover have "o1 - ((if o1 = 0 then 1 else o1) + of_nat n) = 0 - of_nat (reserved_slots o1 n)"
    by (simp add: reserved_slots_def)
  ultimately have o: "MultiXactOffsetPrecedes o1 ((if o1 = 0 then 1 else o1) + of_nat n)"
    unfolding MultiXactOffsetPrecedes_def using k(1) by (simp only:)
  show "nextMXact r' = valid_next m + 1" "nextOffset r' = o1 + of_nat (reserved_slots o1 n)" "mx_slru r' = mx_slru r"
    unfolding assms(5) MultiXactAdvanceNextMXact_def Let_def assms(1,2) using m o
    by (simp_all add: assms(1,2) reserved_slots_def)
qed

lemma redo_create:
  assumes r: "reserve_multixact (length ms) result st = (ev, Inr (multi, off), st')" and res: "result = valid_next (nextMXact r)"
    and logs: "same_logs (mx_slru r) (mx_slru st)" and no: "nextOffset r = nextOffset st" and n: "0 < length ms" "length ms < 2 ^ 31 - 1"
  shows "\<exists>r' vc'. redo_all mode pe age xid (wal_records (ev @ [MxInsert (XLOG_MULTIXACT_CREATE_ID multi off ms)])) (r, vc) = Some (r', vc')
    \<and> same_logs (mx_slru r') (RecordNewMultiXact multi off ms (mx_slru st')) \<and> nextMXact r' = result + 1 \<and> nextOffset r' = nextOffset st'"
proof -
  note x = reserve_multixact_Inr [OF r]
  let ?s1 = "snd (ExtendMultiXactOffset result (mx_slru st))"
  obtain a where a: "redo_all mode pe age xid (fst (ExtendMultiXactOffset result (mx_slru st))) (r, vc) = Some (r\<lparr>mx_slru := a\<rparr>, vc)"
    "same_logs a ?s1" using redo_offset_page [OF logs] by blast
  have "same_logs (mx_slru (r\<lparr>mx_slru := a\<rparr>)) ?s1" using a(2) by simp
  from redo_member_pages [OF this, of mode pe age xid "nextOffset st" "reserved_slots (nextOffset st) (length ms)" vc]
  obtain b where
    b: "redo_all mode pe age xid (fst (ExtendMultiXactMember (nextOffset st) (reserved_slots (nextOffset st) (length ms)) ?s1))
      (r\<lparr>mx_slru := a\<rparr>, vc) = Some (r\<lparr>mx_slru := b\<rparr>, vc)" and lb: "same_logs b (mx_slru st')"
    unfolding x(4) by auto
  define r2 where "r2 = r\<lparr>mx_slru := RecordNewMultiXact multi off ms b\<rparr>"
  define r' where "r' = MultiXactAdvanceNextMXact (multi + 1) (off + of_nat (length ms)) r2"
  have r': "r' = MultiXactAdvanceNextMXact (valid_next (nextMXact r) + 1)
      ((if nextOffset st = 0 then 1 else nextOffset st) + of_nat (length ms)) r2" unfolding r'_def x(1,2) res ..
  have "nextMXact r2 = nextMXact r" "nextOffset r2 = nextOffset st" unfolding r2_def using no by simp_all
  note adv = advanced_next [OF this n r']
  have "redo_all mode pe age xid (wal_records (ev @ [MxInsert (XLOG_MULTIXACT_CREATE_ID multi off ms)])) (r, vc)
      = Some (r', AdvanceNextFullTransactionIdPastXid (max_member_xid xid ms) vc)"
    unfolding wal_records_append reserve_multixact_records [OF r] redo_all_append a(1) b bind.bind_lunit
    by (simp add: multixact_redo_def Let_def r'_def r2_def)
  moreover have "same_logs (mx_slru r') (RecordNewMultiXact multi off ms (mx_slru st'))"
    unfolding adv(3) r2_def using RecordNewMultiXact_same [OF lb] by simp
  moreover have "nextOffset r' = nextOffset st'" unfolding adv(2) x(4) by simp
  ultimately show ?thesis using adv(1) res by blast
qed

subsection \<open>Creating\<close>

lemma insert_member_length: "length (insert_member m ms) = Suc (length ms)"
  by (induction ms) auto

lemma qsort_members_length: "length (qsort_members ms) = length ms"
  by (induction ms) (simp_all add: qsort_members_def insert_member_length)

lemma qsort_members_set: "set (qsort_members ms) = set ms"
  by (metis qsort_members_mset set_mset_mset)

lemma qsort_members_ok: "members_ok ms \<Longrightarrow> members_ok (qsort_members ms)"
  by (auto simp: members_ok_def qsort_members_set qsort_members_length simp flip: length_greater_0_conv)

lemma single_updater_count:
  "single_updater has_update ms \<longleftrightarrow>
     length (filter (\<lambda>m. ISUPDATE_from_mxstatus (mem_status m)) ms) + (if has_update then 1 else 0) \<le> 1 \<or>
     filter (\<lambda>m. ISUPDATE_from_mxstatus (mem_status m)) ms = []"
  by (induction ms arbitrary: has_update) auto

text \<open>A successful creation that does not find its set in the cache.\<close>

lemma create_Inr:
  assumes "MultiXactIdCreateFromMembers mode others ms (st, c) = (ev, Inr multi, st', c')" and "fst (mXactCacheGetBySet ms c) = InvalidMultiXactId"
  obtains ev1 off st1 where "GetNewMultiXactId mode others (length (qsort_members ms)) st = (ev1, Inr (multi, off), st1)"
    "ev = ev1 @ [MxInsert (XLOG_MULTIXACT_CREATE_ID multi off (qsort_members ms))]"
    "st' = st1\<lparr>mx_slru := RecordNewMultiXact multi off (qsort_members ms) (mx_slru st1)\<rparr>" "single_updater False (qsort_members ms)"
proof -
  obtain m sorted c1 where b: "mXactCacheGetBySet ms c = (m, sorted, c1)" by (rule prod_cases3)
  have s: "sorted = qsort_members ms" using b by (auto simp: mXactCacheGetBySet_def Let_def split: option.splits)
  have m: "\<not> MultiXactIdIsValid m" using assms(2) b by (simp add: MultiXactIdIsValid_def)
  obtain ev1 r st1 where g: "GetNewMultiXactId mode others (length (qsort_members ms)) st = (ev1, r, st1)" by (rule prod_cases3)
  show thesis
  proof (cases "single_updater False (qsort_members ms)")
    case True
    with assms(1) m g obtain off where "r = Inr (multi, off)"
      "ev = ev1 @ [MxInsert (XLOG_MULTIXACT_CREATE_ID multi off (qsort_members ms))]"
      "st' = st1\<lparr>mx_slru := RecordNewMultiXact multi off (qsort_members ms) (mx_slru st1)\<rparr>"
      by (cases r) (auto simp: MultiXactIdCreateFromMembers_def b s)
    with g True show thesis by (intro that [of ev1 off st1]) simp_all
  next
    case False
    with assms(1) m show thesis by (simp add: MultiXactIdCreateFromMembers_def b s)
  qed
qed

text \<open>
  The state \<open>w\<close> in which a creation that began in \<open>st\<close> assigns the id: the same, or, if the lock
  was released to send warnings, any state the others have brought about, as in the rules of a run.
\<close>

definition creates_in :: "process_mode \<Rightarrow> (MultiXactStateData \<Rightarrow> MultiXactStateData) \<Rightarrow> MultiXactStateData \<Rightarrow> mx_world \<Rightarrow> bool" where
  "creates_in mode others st w \<longleftrightarrow>
     others = (\<lambda>s. s) \<and> st = shared w \<and> IsUnderPostmaster mode
     \<or> others = (\<lambda>_. shared w) \<and> id_room (shared w) \<and> \<not> MultiXactIdPrecedes (valid_next (nextMXact st)) (multiVacLimit st)"

lemma creates_in_step:
  assumes "world_inv w" and "creates_in mode others st w" and "members_ok ms"
    and "GetNewMultiXactId mode others (length ms) st = (ev, Inr (multi, off), st1)"
    and "e = next_entry (first_multi w) (first_offset w) (entries w) ms"
  shows "mx_step w (add_entry ms st1 w)" and "multi = mx_multi e" and "off = mx_offset e" and "nextMXact st1 = multi + 1"
proof -
  obtain V where inv: "mx_inv (first_multi w) (first_offset w) (entries w) (unwritten w) V (shared w)"
    using assms(1) unfolding world_inv_def by (elim exE)
  have "mx_step w (add_entry ms st1 w) \<and> multi = mx_multi e \<and> off = mx_offset e \<and> nextMXact st1 = multi + 1"
    using assms(2) unfolding creates_in_def
  proof (elim disjE conjE)
    assume h: "others = (\<lambda>s. s)" "st = shared w" "IsUnderPostmaster mode"
    note g = assms(4) [unfolded h(1,2)]
    from g refl have "nextMXact st1 = multi + 1"
    proof (cases rule: GetNewMultiXactId_cases)
      case (reserved ev')
      from reserve_multixact_Inr(1,4) [OF reserved(1)] show ?thesis by simp
    qed simp_all
    then show ?thesis using reserves [OF g h(3) assms(3)] GetNewMultiXactId_inv(1,2) [OF inv g h(3) assms(3,5)] by blast
  next
    assume h: "others = (\<lambda>_. shared w)" "id_room (shared w)" "\<not> MultiXactIdPrecedes (valid_next (nextMXact st)) (multiVacLimit st)"
    note g = assms(4) [unfolded h(1)]
    have "nextMXact (shared w) \<noteq> 0" using h(2) by (simp add: id_room_def InvalidMultiXactId_def)
    from GetNewMultiXactId_late [OF h(3) g this] obtain ev' where
      "reserve_multixact (length ms) (nextMXact (shared w)) (shared w) = (ev', Inr (multi, off), st1)" .
    from reserve_multixact_Inr(1,4) [OF this] have "nextMXact st1 = multi + 1" by simp
    then show ?thesis
      using reserves_late [OF h(3,2) g assms(3)] GetNewMultiXactId_late_inv(1,2) [OF inv h(3) g h(2) assms(3,5)] by blast
  qed
  then show "mx_step w (add_entry ms st1 w)" "multi = mx_multi e" "off = mx_offset e" "nextMXact st1 = multi + 1" by blast+
qed

lemma create_outcome:
  assumes run: "mx_run w" and cr: "creates_in mode others st w" and ms: "members_ok ms"
    and new: "fst (mXactCacheGetBySet ms c) = InvalidMultiXactId"
    and c: "MultiXactIdCreateFromMembers mode others ms (st, c) = (ev, Inr multi, st', c')"
    and e: "e = next_entry (first_multi w) (first_offset w) (entries w) (qsort_members ms)"
  shows "\<exists>w'. mx_run w' \<and> shared w' = st' \<and> e \<in> set (entries w') \<and> e \<notin> unwritten w'"
    and "multi = mx_multi e" and "nextMXact st' = mx_multi e + 1" and "single_updater False (qsort_members ms)"
proof -
  from create_Inr [OF c new] obtain ev1 off st1 where
    g: "GetNewMultiXactId mode others (length (qsort_members ms)) st = (ev1, Inr (multi, off), st1)"
    and st': "st' = st1\<lparr>mx_slru := RecordNewMultiXact multi off (qsort_members ms) (mx_slru st1)\<rparr>"
    and single: "single_updater False (qsort_members ms)" by metis
  note m = creates_in_step [OF run_inv [OF run] cr qsort_members_ok [OF ms] g e]
  show "multi = mx_multi e" by (rule m(2))
  let ?w1 = "add_entry (qsort_members ms) st1 w"
  have r1: "mx_run ?w1" by (rule steps [OF run m(1)])
  have w1: "entries ?w1 = entries w @ [e]" "e \<in> unwritten ?w1" "shared ?w1 = st1" "mx_members e = qsort_members ms"
    unfolding e by (simp_all add: add_entry_def Let_def next_entry_def)
  have "mx_run (write_entry e ?w1)" by (rule steps [OF r1 writes [OF w1(2)]])
  moreover have "shared (write_entry e ?w1) = st'" unfolding write_entry_def using w1(3,4) m(2,3) st' by simp
  ultimately show "\<exists>w'. mx_run w' \<and> shared w' = st' \<and> e \<in> set (entries w') \<and> e \<notin> unwritten w'"
    using w1(1) by (intro exI [of _ "write_entry e ?w1"]) (simp add: write_entry_def)
  show "single_updater False (qsort_members ms)" by (rule single)
  show "nextMXact st' = mx_multi e + 1" unfolding st' using m(2,4) by simp
qed

lemma GetNewMultiXactId_records:
  assumes "GetNewMultiXactId mode (\<lambda>s. s) n st = (ev, Inr (multi, off), st')" and "st1 = st\<lparr>nextMXact := valid_next (nextMXact st)\<rparr>"
  shows "wal_records ev = wal_records (fst (reserve_multixact n (nextMXact st1) st1))"
proof -
  have v: "valid_next (nextMXact st1) = nextMXact st1" by (simp add: assms(2) valid_next_idem)
  show ?thesis
    using assms(1) unfolding GetNewMultiXactId_def Let_def assms(2) [symmetric] case_prod_beta v
    by (auto simp: wal_records_append split: if_splits)
qed

text \<open>
  C9: a backend that creates a multixact in a running system, and finds no equal set in its cache, gets an
  id under which any other backend that has not cached the id at once reads the same members, in
  sorted order; at most one of them updates the row. The creation may release the lock to send
  warnings, and others may have brought about any state of a run by then, in which the counter is not at its wrapped
  value and the ids are not close to half the circle. The set is small enough to be allocated.
\<close>

theorem MultiXactIdCreateFromMembers_roundtrip:
  assumes "mx_run w" and "creates_in mode others st w" and "members_ok ms" and "members_fit ms"
    and "fst (mXactCacheGetBySet ms c) = InvalidMultiXactId"
    and "MultiXactIdCreateFromMembers mode others ms (st, c) = (ev, Inr multi, st', c')"
    and "mXactCacheGetById multi d = (None, d)"
  shows "GetMultiXactIdMembers me (\<lambda>_. mx_slru st') multi False False (st', d) =
      Some (Inr (Some (qsort_members ms)), MultiXactIdSetOldestVisible me st', mXactCachePut multi (qsort_members ms) d)
    \<and> mset (qsort_members ms) = mset ms \<and> length (filter (\<lambda>m. ISUPDATE_from_mxstatus (mem_status m)) ms) \<le> 1"
proof -
  define e where "e = next_entry (first_multi w) (first_offset w) (entries w) (qsort_members ms)"
  note o = create_outcome [OF assms(1-3,5,6) e_def]
  obtain w' where w': "mx_run w'" "shared w' = st'" "e \<in> set (entries w')" "e \<notin> unwritten w'" using o(1) by (elim exE conjE)
  obtain V where inv: "mx_inv (first_multi w') (first_offset w') (entries w') (unwritten w') V st'"
    using run_inv [OF w'(1)] unfolding world_inv_def w'(2) by (elim exE)
  note g = lookup_guards [OF inv w'(3)] and wr = written_entry [OF inv w'(3,4)]
  have len: "nextOffset st' - mx_offset e = of_nat (length (mx_members e))" using last_entry [OF inv w'(3) o(3)] by simp
  have x: "multixact_extent (\<lambda>_. mx_slru st') (nextMXact st') (nextOffset st') (mx_multi e) 0
      = Some (mx_offset e, sint (of_nat (length (mx_members e)) :: uint32), 0)" unfolding extent_last [OF o(3)] wr(1) len ..
  have ms: "mx_members e = qsort_members ms" by (simp add: e_def next_entry_def)
  have "members_fit (mx_members e)" using assms(4) by (simp add: ms members_fit_def qsort_members_length)
  note a = alloc_last [OF this]
  have "mset (filter (\<lambda>m. ISUPDATE_from_mxstatus (mem_status m)) (qsort_members ms))
      = mset (filter (\<lambda>m. ISUPDATE_from_mxstatus (mem_status m)) ms)" by (simp add: mset_filter qsort_members_mset)
  from mset_eq_length [OF this] have "length (filter (\<lambda>m. ISUPDATE_from_mxstatus (mem_status m)) ms) \<le> 1"
    using o(4) unfolding single_updater_count by auto
  then show ?thesis
    using lookup_uncached [OF g(1) assms(7) [unfolded o(2)] g(2,3) x a, of me] unfolding o(2) ms
    by (simp add: qsort_members_mset read_last [OF inv w'(3,4), unfolded ms])
qed

lemma sample_created:
  "\<exists>ev st' c'. MultiXactIdCreateFromMembers sample_mode (\<lambda>s. s) sample_members (shared sample_start, []) = (ev, Inr 1, st', c')"
proof -
  have q: "qsort_members sample_members = sample_members" "single_updater False sample_members" "length sample_members = 2"
    unfolding sample_members_def by code_simp+
  obtain ev st' where "GetNewMultiXactId sample_mode (\<lambda>s. s) 2 (shared sample_start) = (ev, Inr (1, 1), st')"
    using snd_eqD [OF sample_assigned] by (elim exE)
  then show ?thesis
    by (simp add: MultiXactIdCreateFromMembers_def mXactCacheGetBySet_def q MultiXactIdIsValid_def)
qed

theorem MultiXactIdCreateFromMembers_roundtrip_witness:
  "\<exists>ev st' c'. MultiXactIdCreateFromMembers sample_mode (\<lambda>s. s) sample_members (shared sample_start, []) = (ev, Inr 1, st', c')
    \<and> (\<exists>st'' c''. GetMultiXactIdMembers 2 (\<lambda>_. mx_slru st') 1 False False (st', []) = Some (Inr (Some (qsort_members sample_members)), st'', c''))"
proof -
  obtain ev st' c' where c: "MultiXactIdCreateFromMembers sample_mode (\<lambda>s. s) sample_members (shared sample_start, []) = (ev, Inr 1, st', c')"
    using sample_created by (elim exE)
  have "creates_in sample_mode (\<lambda>s. s) (shared sample_start) sample_start" by (simp add: creates_in_def sample_mode_def)
  moreover have "members_fit sample_members" by (simp add: members_fit_def sample_members_def)
  moreover have "fst (mXactCacheGetBySet sample_members []) = InvalidMultiXactId" "mXactCacheGetById 1 [] = (None, [])"
    by (simp_all add: mXactCacheGetBySet_def mXactCacheGetById_def Let_def)
  ultimately show ?thesis
    using MultiXactIdCreateFromMembers_roundtrip [OF sample_run(1) _ sample_members_ok _ _ c, of "[]" 2] c by blast
qed



subsection \<open>An id assigned twice\<close>

text \<open>
  C37: when the id counter wraps to zero while \<open>GetNewMultiXactId\<close> has released the lock to send its warnings, the id it
  assigns afterwards is assigned again to the next caller: the counter itself is not moved past the
  invalid id on this path.
\<close>

theorem GetNewMultiXactId_repeats_id:
  assumes "\<not> MultiXactIdPrecedes (valid_next (nextMXact old)) (multiVacLimit old)" and "nextMXact st = 0"
    and "GetNewMultiXactId mode (\<lambda>_. st) n old = (ev, Inr (multi, off), st')"
    and "GetNewMultiXactId mode' (\<lambda>s. s) n' st' = (ev', Inr (multi', off'), st'')"
  shows "multi' = multi"
proof -
  have v: "valid_next 0 = 1" "valid_next 1 = 1" by (simp_all add: valid_next_def FirstMultiXactId_def)
  have "(Inr (multi, off), st') = snd (GetNewMultiXactId mode (\<lambda>_. st) n old)" using assms(3) by simp
  then have "snd (reserve_multixact n 1 st) = (Inr (multi, off), st')"
    using assms(1,2) unfolding GetNewMultiXactId_outcome [OF refl] by (auto simp: v split: if_splits)
  from snd_eqD [OF this] obtain ev1 where r: "reserve_multixact n 1 st = (ev1, Inr (multi, off), st')" by (elim exE)
  have m: "multi = 1" "nextMXact st' = 1" using reserve_multixact_Inr(1,4) [OF r] assms(2) by simp_all
  from assms(4) refl show ?thesis
  proof (cases rule: GetNewMultiXactId_cases)
    case (reserved ev2)
    from reserve_multixact_Inr(1) [OF reserved(1)] show ?thesis by (simp add: m v)
  qed simp_all
qed

definition sample_wrapped :: MultiXactStateData where
  "sample_wrapped = (shared sample_start)\<lparr>nextMXact := 0, nextOffset := 7\<rparr>"

definition sample_last_id :: MultiXactStateData where
  "sample_last_id = (shared sample_start)\<lparr>nextMXact := 0xFFFFFFFF, multiVacLimit := 0xFFFFFFFF, multiStopLimit := 1000000\<rparr>"

lemma sample_late: "\<exists>ev st'. GetNewMultiXactId sample_mode (\<lambda>_. sample_wrapped) 2 sample_last_id = (ev, Inr (1, 7), st')
  \<and> (\<exists>ev' st''. GetNewMultiXactId sample_mode (\<lambda>s. s) 2 st' = (ev', Inr (1, 9), st''))"
proof -
  have v: "valid_next 0 = 1" "valid_next 1 = 1" "valid_next 0xFFFFFFFF = 0xFFFFFFFF" by (simp_all add: valid_next_def FirstMultiXactId_def)
  have p: "\<not> MultiXactIdPrecedes 0xFFFFFFFF 0xFFFFFFFF" "MultiXactIdPrecedes 0xFFFFFFFF 1000000" "MultiXactIdPrecedes 1 400000001"
    "\<not> MultiXactOffsetWouldWrap (- 52352) 7 2" "\<not> MultiXactOffsetWouldWrap (- 52352) 9 2" by code_simp+
  have s: "nextMXact sample_wrapped = 0" "nextOffset sample_wrapped = 7" "oldestOffsetKnown sample_wrapped"
    "offsetStopLimit sample_wrapped = - 52352" "multiVacLimit sample_wrapped = 400000001"
    by (simp_all add: sample_wrapped_def sample_start_fields)
  obtain ev1 st' where r: "reserve_multixact 2 1 sample_wrapped = (ev1, Inr (1, 7), st')"
    using reserve_multixact_result [of 2 1 sample_wrapped] p(4) by (cases "reserve_multixact 2 1 sample_wrapped") (auto simp: s reserved_slots_def)
  note f = reserve_multixact_Inr(4) [OF r]
  have st': "nextMXact st' = 1" "nextOffset st' = 9" "oldestOffsetKnown st'" "offsetStopLimit st' = - 52352" "multiVacLimit st' = 400000001"
    unfolding f by (simp_all add: s reserved_slots_def)
  have "snd (GetNewMultiXactId sample_mode (\<lambda>_. sample_wrapped) 2 sample_last_id) = (Inr (1, 7), st')"
    unfolding GetNewMultiXactId_outcome [OF refl] using p(1,2)
    by (simp add: sample_mode_def sample_last_id_def sample_start_fields v s r)
  moreover have "fst (snd (GetNewMultiXactId sample_mode (\<lambda>s. s) 2 st')) = Inr (1, 9)"
    unfolding GetNewMultiXactId_outcome [OF refl] using p(3,5)
    by (simp add: sample_mode_def v st' reserve_multixact_result reserved_slots_def)
  ultimately show ?thesis by (metis prod.collapse)
qed

theorem GetNewMultiXactId_repeats_id_witness:
  "\<exists>ev st' ev' st''. GetNewMultiXactId sample_mode (\<lambda>_. sample_wrapped) 2 sample_last_id = (ev, Inr (1, 7), st')
    \<and> GetNewMultiXactId sample_mode (\<lambda>s. s) 2 st' = (ev', Inr (1, 9), st'')"
proof -
  obtain ev st' ev' st'' where g: "GetNewMultiXactId sample_mode (\<lambda>_. sample_wrapped) 2 sample_last_id = (ev, Inr (1, 7), st')"
    "GetNewMultiXactId sample_mode (\<lambda>s. s) 2 st' = (ev', Inr (1, 9), st'')" using sample_late by (elim exE conjE)
  have "\<not> MultiXactIdPrecedes 0xFFFFFFFF 0xFFFFFFFF" by code_simp
  then have "\<not> MultiXactIdPrecedes (valid_next (nextMXact sample_last_id)) (multiVacLimit sample_last_id)" "nextMXact sample_wrapped = 0"
    by (simp_all add: sample_last_id_def sample_wrapped_def valid_next_def FirstMultiXactId_def)
  from GetNewMultiXactId_repeats_id [OF this g] g show ?thesis by blast
qed

subsection \<open>Truncation\<close>

lemma delete_segments_upto: "s \<le> e \<Longrightarrow> delete_segments M s e = Some [s ..< e]" if "e \<le> M"
proof (induction "e - s" arbitrary: s)
  case 0
  then show ?case by (subst delete_segments.simps) simp
next
  case (Suc d)
  then have "delete_segments M (s + 1) e = Some [s + 1 ..< e]" by (intro Suc.hyps(1)) simp_all
  then show ?case using Suc that by (subst delete_segments.simps) (simp add: upt_conv_Cons)
qed

lemma delete_segments_around:
  assumes "e \<le> M" and "e < s"
  shows "s \<le> M \<Longrightarrow> delete_segments M s e = Some ([s ..< Suc M] @ [0 ..< e])"
  using assms(2)
proof (induction "M - s" arbitrary: s)
  case 0
  then have "s = M" by simp
  with 0 assms(1) show ?case by (subst delete_segments.simps) (simp add: delete_segments_upto)
next
  case (Suc d)
  then have "delete_segments M (s + 1) e = Some ([s + 1 ..< Suc M] @ [0 ..< e])" by (intro Suc.hyps(1)) simp_all
  then show ?case using Suc by (subst delete_segments.simps) (simp add: upt_conv_Cons)
qed

lemma member_segment: "MXOffsetToMemberSegment off = unat off div 52352"
  by (simp add: MXOffsetToMemberSegment_def mx_addresses(1) SLRU_PAGES_PER_SEGMENT_def div_mult2_eq [symmetric])

text \<open>On natural numbers: a position at or after the new start, and not within a segment before the old one.\<close>

lemma segment_kept:
  fixes a b x :: nat
  assumes "a < 2 ^ 32" "b < 2 ^ 32" "x < 2 ^ 32"
    and "(if a \<le> b then b - a else 2 ^ 32 + b - a) \<le> (if a \<le> x then x - a else 2 ^ 32 + x - a)"
    and "(if a \<le> x then x - a else 2 ^ 32 + x - a) + a mod 52352 + 52352 \<le> 2 ^ 32" and "a div 52352 \<noteq> b div 52352"
  shows "x div 52352 \<notin> set (if a div 52352 \<le> b div 52352 then [a div 52352 ..< b div 52352]
    else [a div 52352 ..< Suc (2 ^ 32 div 52352)] @ [0 ..< b div 52352])"
proof -
  define q where "q = a div 52352"
  have a: "a = q * 52352 + a mod 52352" unfolding q_def by (rule div_mult_mod_eq [symmetric])
  have before: "x div 52352 < q" if "x < a"
  proof (rule less_mult_imp_div_less)
    show "x < q * 52352" using that assms(5) a by simp
  qed
  show ?thesis
  proof (cases "a \<le> b")
    case True
    then have le: "q \<le> b div 52352" unfolding q_def by (rule div_le_mono)
    have "b \<le> x \<or> x < a" using assms(4) True by (auto split: if_splits)
    then have "b div 52352 \<le> x div 52352 \<or> x div 52352 < q" using before by (auto intro: div_le_mono)
    then show ?thesis using le unfolding q_def by auto
  next
    case False
    then have "b div 52352 \<le> q" unfolding q_def by (intro div_le_mono) simp
    then have lt: "b div 52352 < q" using assms(6) unfolding q_def by simp
    have "b \<le> x \<and> x < a" using assms(1-4) False by (auto split: if_splits)
    then have "b div 52352 \<le> x div 52352" "x div 52352 < q" using before by (auto intro: div_le_mono)
    then show ?thesis using lt unfolding q_def by auto
  qed
qed

lemma unat_uint32_diff:
  "unat (y - x :: uint32) = (if unat x \<le> unat y then unat y - unat x else 2 ^ 32 + unat y - unat x)"
  using unat_sub_if_size [of y x] by (auto simp: word_size)

lemma last_segment: "MXOffsetToMemberSegment MaxMultiXactOffset = 2 ^ 32 div 52352"
  unfolding member_segment MaxMultiXactOffset_def by (simp add: unsigned_minus_1_eq_mask mask_eq_exp_minus_1)

lemma PerformMembersTruncation_segments:
  "PerformMembersTruncation oldest_off newOldestOffset =
    Some (if unat oldest_off div 52352 \<le> unat newOldestOffset div 52352
          then [unat oldest_off div 52352 ..< unat newOldestOffset div 52352]
          else [unat oldest_off div 52352 ..< Suc (2 ^ 32 div 52352)] @ [0 ..< unat newOldestOffset div 52352])"
proof -
  have le: "unat y div 52352 \<le> 2 ^ 32 div 52352" for y :: uint32
    using unsigned_less [of y] by (intro div_le_mono less_imp_le) simp
  have "delete_segments (2 ^ 32 div 52352) s e = Some (if s \<le> e then [s ..< e] else [s ..< Suc (2 ^ 32 div 52352)] @ [0 ..< e])"
    if "s \<le> 2 ^ 32 div 52352" "e \<le> 2 ^ 32 div 52352" for s e
  proof (cases "s \<le> e")
    case True
    show ?thesis unfolding if_P [OF True] by (rule delete_segments_upto [OF that(2) True])
  next
    case False
    then have "e < s" by (rule not_le_imp_less)
    show ?thesis unfolding if_not_P [OF False] by (rule delete_segments_around [OF that(2) \<open>e < s\<close> that(1)])
  qed
  from this [OF le le] show ?thesis unfolding PerformMembersTruncation_def last_segment unfolding member_segment .
qed

text \<open>
  C35: the truncation of the members log ends, and it removes no segment with a member at or after the new oldest
  offset, as long as the members in use stay a segment short of the old one, which the stop limit enforces.
\<close>

theorem PerformMembersTruncation_keeps_live:
  assumes "unat (newOldestOffset - oldest_off) \<le> unat (off - oldest_off)"
    and "unat (off - oldest_off) + unat oldest_off mod 52352 + 52352 \<le> 2 ^ 32"
  shows "\<exists>segs. PerformMembersTruncation oldest_off newOldestOffset = Some segs \<and> MXOffsetToMemberSegment off \<notin> set segs"
proof -
  let ?a = "unat oldest_off" and ?b = "unat newOldestOffset"
  have lt: "unat y < 2 ^ 32" for y :: uint32 using unsigned_less [of y] by simp
  note d = unat_uint32_diff [of _ oldest_off]
  show ?thesis
  proof (cases "?a div 52352 = ?b div 52352")
    case True
    then have "PerformMembersTruncation oldest_off newOldestOffset = Some []"
      unfolding PerformMembersTruncation_def member_segment by (subst delete_segments.simps) simp
    then show ?thesis by simp
  next
    case False
    note kept = segment_kept [OF lt lt lt assms [unfolded d] False]
    show ?thesis unfolding member_segment by (rule exI, rule conjI, rule PerformMembersTruncation_segments, rule kept)
  qed
qed

theorem PerformMembersTruncation_keeps_live_witness:
  "\<exists>segs. PerformMembersTruncation 60000 200000 = Some segs \<and> MXOffsetToMemberSegment 250000 \<notin> set segs"
  by (rule PerformMembersTruncation_keeps_live) simp_all

end
