(* ===== verification/Spec2Isabelle.thy ===== *)
theory Spec2Isabelle
  imports TransactionStatus ComboCid SnapshotReuse RunningData MultiXactReplay
begin

text \<open>
  \<^bold>\<open>Transaction management of PostgreSQL 16.10.\<close>

  The repository builds GDAL with its dependencies from vendored sources; among them is the
  PostgreSQL server under \<open>src/pg-src\<close>. This library models the part of the server that
  decides which transactions exist, which of them are running, committed or aborted, and what a
  snapshot may see: the modules \<open>access/transam\<close> (\<open>transam.c\<close>, \<open>varsup.c\<close>, \<open>clog.c\<close>, \<open>subtrans.c\<close>,
  \<open>multixact.c\<close>, parts of \<open>xact.c\<close> and \<open>commit_ts.c\<close>), \<open>storage/ipc/procarray.c\<close>, the record
  of running transactions of \<open>storage/ipc/standby.c\<close>, \<open>utils/time/combocid.c\<close> and \<open>XidInMVCCSnapshot\<close> of \<open>utils/time/snapmgr.c\<close>, with the headers they use. File names are
  relative to \<open>src/pg-src/src/backend\<close> or \<open>src/pg-src/src/include\<close>.

  \<^bold>\<open>How the parts work together.\<close> A transaction gets an id from the shared counter
  (\<open>GetNewTransactionId\<close>), which is entered in the process array and, for a subtransaction, linked
  to its parent in the subtransaction log. At its end its status and that of its subtransactions
  goes to the commit log, and then the ids leave the process array. A snapshot is a copy of the ids in the
  process array; a reader asks the snapshot whether a transaction was running, and the commit
  log whether it committed. A primary writes the running ids to its write-ahead log, from which
  a standby keeps its own array of running ids for its snapshots. A row that several transactions
  lock carries a multixact id in place of a transaction id; the transactions it stands for are in two
  logs of their own.

  \<^bold>\<open>The theories\<close>, each with its state, its operations under the names of the source, an
  invariant and the lemmas about it:

  \<^item> \<open>PG_Base\<close>: integer types, theorem collections, linear and binary search (locale
    \<open>search_order\<close>, interpreted for numbers here and for ids in \<open>TransactionIds\<close>).
  \<^item> \<open>TransactionIds\<close> (\<open>transam.h\<close>, comparisons of \<open>transam.c\<close>): 32-bit ids on a circle and 64-bit
    ids. The circular comparison is the order of the 64-bit ids on every half circle
    \<open>xid_window b\<close>; all later theories measure ids by their distance from the start \<open>b\<close> of one.
  \<^item> \<open>CommitLog\<close> (\<open>clog.c\<close>), \<open>SubTrans\<close> (\<open>subtrans.c\<close>), \<open>TransactionStatus\<close> (\<open>transam.c\<close>): the two
    logs on their pages, the status of a transaction tree, lookups with their one-entry cache. The status of a
    tree is set by a list of updates of one page each; after each of them a reader sees the tree as
    committed or not, never in part; the walk to the topmost parent returns.
  \<^item> \<open>VarSup\<close> (\<open>varsup.c\<close>, \<open>ExtendCommitTs\<close>): assigning ids and object ids. No id is assigned twice
    while the old one is in use; the pages of the three logs (locale \<open>extended_log\<close>) exist before
    an id is handed out.
  \<^item> \<open>ItemPointer\<close>, \<open>TupleHeader\<close>, \<open>ComboCid\<close> (\<open>itemptr.h\<close>, \<open>htup_details.h\<close>, \<open>combocid.c\<close>): tuple
    addresses and their order, header flags and accessors, pairs of command ids.
  \<^item> \<open>XactState\<close> (\<open>xact.c\<close>): the stack of subtransactions as far as it owns ids; the ids of the
    current transaction are found in every reachable state, and by parallel workers.
  \<^item> \<open>KnownAssigned\<close>, \<open>HotStandby\<close> (\<open>procarray.c\<close>): the sorted array of running ids of a standby and
    the handlers of the log records (locale \<open>observed_set\<close> for any sequence of them). The size computation of an
    insertion is in C's \<open>int\<close>, with its wrap-around (\<open>int32_add\<close>).
  \<^item> \<open>ProcArray\<close> (\<open>procarray.c\<close>): the array of backends with the dense arrays that mirror it;
    \<open>pa_inv\<close> holds in every reachable state.
  \<^item> \<open>Horizons\<close> (\<open>procarray.c\<close>): the oldest ids still needed, and the approximate horizons that
    decide whether a row version may be removed.
  \<^item> \<open>Snapshots\<close> (\<open>procarray.c\<close>, \<open>snapmgr.c\<close>): taking and asking snapshots, on a primary and on a
    standby, and \<open>TransactionIdIsInProgress\<close>.
  \<^item> \<open>StandbyRuns\<close>: what a standby keeps of a transaction of the primary over any further replay
    (\<open>tracked\<close>), so that its snapshots go on showing it as in progress.
  \<^item> \<open>RunningXacts\<close>: the runs of backends, the step relation \<open>run_step\<close> over the operations of the
    theories above, with the set of ids that are really in progress carried along. Snapshots and
    \<open>TransactionIdIsInProgress\<close> are exact in every reachable state.
  \<^item> \<open>SnapshotReuse\<close>: a snapshot kept because no transaction completed is as exact as a new one.
  \<^item> \<open>RunningData\<close> (\<open>procarray.c\<close>, \<open>standby.c\<close>): the record of running transactions, as the primary takes and logs it
    and the standby reads it. A standby that starts from a complete record shows everything that runs on the
    primary as in progress, at once and after further replay; from an overflowed record it
    has a pending snapshot.
  \<^item> \<open>MultiXact\<close> (\<open>multixact.c\<close>): the two logs of multixacts, the cache of a backend, creating and
    looking up multixacts, their limits, start-up, truncation and replay. \<open>MultiXactLog\<close>: the layout of the
    members log and what the operations do to its slots.
  \<^item> \<open>MultiXactRuns\<close>: the runs \<open>mx_step\<close> of backends that reserve, write and remove multixacts, with the multixacts
    in existence carried along. Two counters of natural numbers, of which the code keeps the low 32 bits
    and skips zero, order them; \<open>mx_inv\<close> holds in every run. A lookup returns
    the members, also when it has to wait for another backend, but for one state in which it waits
    for a multixact that does not exist (\<open>lookup_waits_forever\<close>).
  \<^item> \<open>MultiXactReplay\<close>: creating is inverse to looking up, replay rebuilds the logs, truncation
    keeps what is in use, and the case in which an id is assigned twice.

  \<^bold>\<open>Conventions.\<close> A C structure is a record with the fields the code uses, an enumeration a
  datatype, an integer that may wrap around a word of its width. An operation that runs under a lock is one
  function on the state; what another process may do while a lock is released is an argument
  (\<open>others\<close>). An \<open>ereport(ERROR)\<close> is the left value of a sum, a warning, signal or log record an element of a
  list of events. \<open>None\<close> as the result of a loop stands for not returning; the loops are proved
  to return, the retries of \<open>GetMultiXactIdMembers\<close> under the conditions of its theorem. The only fuel is that of \<open>zero_subtrans_pages\<close>, the number of all pages, which is an upper bound
  for the steps between two pages. Assertions of the source are not part of the definitions;
  where they express an invariant it is proved. Ids that the development compares lie on a
  half circle; that they do is what the limits of \<open>VarSup\<close> are for.

  \<^bold>\<open>Not modelled.\<close> Reading and writing of pages by \<open>slru.c\<close> (a page is found by its number) and its removal of
  segments; of \<open>multixact.c\<close> the freeze threshold, which is computed in floating point, messages and the
  layout of shared memory;
  the contents of the write-ahead log and its replay loop (handlers take the decoded record); locks and
  memory barriers inside one operation; memory allocation (but for the array of a lookup of members, which
  can be too large); of \<open>standby.c\<close> the locks and conflicts with queries; signals to other
  processes and the queries by process id of \<open>procarray.c\<close>; the rest of \<open>xact.c\<close> (transaction
  blocks, resource owners, two-phase commit) and of \<open>snapmgr.c\<close> (registered and exported snapshots);
  the rest of the server (parser, planner, executor, access methods, buffers, storage, replication);
  PostGIS, the installed headers of \<open>src/pg-install\<close> and the build scripts.
\<close>

end
